(* ===== verification/Prelude.thy ===== *)
theory Prelude
  imports Main "HOL-Library.Word" "HOL-Library.Code_Target_Nat"
begin

unbundle bit_operations_syntax

text \<open>
  Shared vocabulary of the development: the C++ machine types, the little-endian byte
  order of \<^verbatim>\<open>src/src/crypto/common.h\<close>, the result type that separates an
  ordinary failure from a thrown exception and from a failed assertion, and the generic
  lemmas on lists and words the components use.
\<close>

section \<open>Machine types\<close>

type_synonym byte = "8 word"
type_synonym valtype = "byte list"
type_synonym uint32 = "32 word"
type_synonym uint64 = "64 word"
type_synonym uint256 = "256 word"

abbreviation (input) INT64_MIN :: int where
  "INT64_MIN \<equiv> - 0x8000000000000000"

abbreviation (input) INT64_MAX :: int where
  "INT64_MAX \<equiv> 0x7fffffffffffffff"

abbreviation (input) INT_MIN :: int where
  "INT_MIN \<equiv> - 0x80000000"

abbreviation (input) INT_MAX :: int where
  "INT_MAX \<equiv> 0x7fffffff"

text \<open>
  A signed 64-bit sum or difference is defined in C++ only when it fits; \<open>in_int64\<close>
  is the condition.
\<close>

definition in_int64 :: "int \<Rightarrow> bool" where
  "in_int64 x \<longleftrightarrow> INT64_MIN \<le> x \<and> x \<le> INT64_MAX"

section \<open>Outcomes\<close>

text \<open>
  What a C++ function can do besides returning: report an error code (\<open>Err\<close>), throw
  an exception (\<open>Throw\<close>), or run into a failed \<^verbatim>\<open>assert\<close> or a signed
  overflow (\<open>Abort\<close>).
\<close>

datatype ('e, 'a) outcome = Ok (the_ok: 'a) | Err (the_err: 'e) | Throw | Abort

definition rbind :: "('e, 'a) outcome \<Rightarrow> ('a \<Rightarrow> ('e, 'b) outcome) \<Rightarrow> ('e, 'b) outcome" where
  "rbind m f = (case m of Ok x \<Rightarrow> f x | Err e \<Rightarrow> Err e | Throw \<Rightarrow> Throw | Abort \<Rightarrow> Abort)"

named_theorems outcome_simps \<open>equations and inversions of \<open>rbind\<close>\<close>

lemma rbind_simps [simp, outcome_simps]:
  "rbind (Ok x) f = f x"
  "rbind (Err e) f = Err e"
  "rbind Throw f = Throw"
  "rbind Abort f = Abort"
  by (simp_all add: rbind_def)

lemma rbind_eq_Ok_iff [outcome_simps]:
  "rbind m f = Ok y \<longleftrightarrow> (\<exists>x. m = Ok x \<and> f x = Ok y)"
  by (cases m) simp_all

lemma rbind_eq_Abort_iff [outcome_simps]:
  "rbind m f = Abort \<longleftrightarrow> m = Abort \<or> (\<exists>x. m = Ok x \<and> f x = Abort)"
  by (cases m) simp_all

lemma rbind_assoc: "rbind (rbind m f) g = rbind m (\<lambda>x. rbind (f x) g)"
  by (cases m) simp_all

text \<open>An option, where \<open>None\<close> is a thrown exception.\<close>

definition or_throw :: "'a option \<Rightarrow> ('e, 'a) outcome" where
  "or_throw x = (case x of None \<Rightarrow> Throw | Some y \<Rightarrow> Ok y)"

lemma or_throw_simps [simp, outcome_simps]:
  "or_throw None = Throw"
  "or_throw (Some y) = Ok y"
  "or_throw x = Ok z \<longleftrightarrow> x = Some z"
  "or_throw x \<noteq> Abort"
  by (simp_all add: or_throw_def split: option.split)

lemma or_throw_eq_Ok_iff [simp, outcome_simps]: "or_throw m = Ok x \<longleftrightarrow> m = Some x"
  by (cases m) simp_all

lemma or_throw_neq [simp, outcome_simps]: "or_throw m \<noteq> Abort" "or_throw m \<noteq> Err e"
  by (cases m; simp)+

lemma rbind_eq_Throw_iff [outcome_simps]:
  "rbind m f = Throw \<longleftrightarrow> m = Throw \<or> (\<exists>x. m = Ok x \<and> f x = Throw)"
  by (cases m) auto

section \<open>Little-endian integers\<close>

fun le_nat :: "valtype \<Rightarrow> nat" where
  "le_nat [] = 0"
| "le_nat (b # bs) = unat b + 256 * le_nat bs"

fun le_bytes :: "nat \<Rightarrow> nat \<Rightarrow> valtype" where
  "le_bytes 0 n = []"
| "le_bytes (Suc k) n = word_of_nat (n mod 256) # le_bytes k (n div 256)"

lemma le_bytes_code [code]:
  "le_bytes k n = (if k = 0 then [] else word_of_nat (n mod 256) # le_bytes (k - 1) (n div 256))"
  by (cases k) simp_all

lemma length_le_bytes [simp]: "length (le_bytes k n) = k"
  by (induction k arbitrary: n) auto

lemma unat_byte_less [simp]: "unat (b :: byte) < 256"
  using unsigned_less [where ?'a = nat, of b] by simp

lemma unat_byte_of_nat_mod [simp]: "unat (word_of_nat (n mod 256) :: byte) = n mod 256"
  by (simp add: unat_of_nat)

lemma le_nat_le_bytes: "n < 256 ^ k \<Longrightarrow> le_nat (le_bytes k n) = n"
proof (induction k arbitrary: n)
  case 0
  then show ?case by simp
next
  case (Suc k)
  from Suc.prems have "n div 256 < 256 ^ k"
    by (simp add: less_mult_imp_div_less mult.commute)
  then have "le_nat (le_bytes k (n div 256)) = n div 256" by (rule Suc.IH)
  then show ?case by simp
qed

lemma le_nat_less: "le_nat bs < 256 ^ length bs"
proof (induction bs)
  case Nil
  then show ?case by simp
next
  case (Cons b bs)
  have "unat b + 256 * le_nat bs < 256 * (1 + le_nat bs)"
    by simp
  also have "\<dots> \<le> 256 * 256 ^ length bs"
    using Cons.IH by (intro mult_left_mono) simp_all
  finally show ?case by simp
qed

lemma le_bytes_le_nat: "le_bytes (length bs) (le_nat bs) = bs"
  by (induction bs) (simp_all add: unat_of_nat)

lemma le_nat_append: "le_nat (xs @ ys) = le_nat xs + 256 ^ length xs * le_nat ys"
  by (induction xs) (simp_all add: algebra_simps)

lemma le_nat_inject: "length xs = length ys \<Longrightarrow> le_nat xs = le_nat ys \<Longrightarrow> xs = ys"
  by (metis le_bytes_le_nat)

section \<open>Bits of bytes and words\<close>

lemma byte_and_80_iff: "(b :: byte) AND 0x80 \<noteq> 0 \<longleftrightarrow> 128 \<le> unat b"
proof -
  have "b AND 0x80 \<noteq> 0 \<longleftrightarrow> bit b 7"
    using and_exp_eq_0_iff_not_bit [of b 7] by simp
  also have "\<dots> \<longleftrightarrow> bit (unat b) 7"
    using bit_unsigned_iff [where ?'a = nat, of b 7] by simp
  also have "\<dots> \<longleftrightarrow> odd (unat b div 128)"
    by (simp add: bit_iff_odd)
  also have "\<dots> \<longleftrightarrow> 128 \<le> unat b"
  proof (cases "128 \<le> unat b")
    case True
    then have "unat b div 128 = 1"
      using unat_byte_less [of b] by (simp add: div_nat_eqI)
    with True show ?thesis by simp
  next
    case False
    then show ?thesis by simp
  qed
  finally show ?thesis .
qed

lemma or_push_bit_nat: "a < 2 ^ n \<Longrightarrow> a OR push_bit n b = a + 2 ^ n * (b :: nat)"
proof -
  assume "a < 2 ^ n"
  then have "take_bit n a = a" by (simp add: take_bit_nat_eq_self_iff)
  then have "\<not> bit a k \<or> \<not> bit (push_bit n b) k" for k
    by (metis bit_push_bit_iff bit_take_bit_iff not_le)
  then have "a + push_bit n b = a OR push_bit n b"
    by (intro disjunctive_add)
  then show ?thesis by (simp add: push_bit_eq_mult mult.commute)
qed

lemma unat_or: "unat (x OR y) = unat (x :: 'a :: len word) OR unat y"
  by (rule unsigned_or_eq)

lemma unat_push_bit: "unat x * 2 ^ n < 2 ^ LENGTH('a) \<Longrightarrow> unat (push_bit n (x :: 'a :: len word)) = 2 ^ n * unat x"
  using unsigned_push_bit_eq [where ?'a = nat, of n x]
  by (simp only: take_bit_nat_eq_self push_bit_eq_mult mult.commute)

lemma unat_ucast_byte_64 [simp]: "unat (ucast (b :: byte) :: uint64) = unat b"
  using order.strict_trans [OF unat_byte_less [of b], of "2 ^ 64"]
  by (simp add: unsigned_ucast_eq take_bit_nat_eq_self_iff)

lemma sint_uint64_small: "unat x < 2 ^ 63 \<Longrightarrow> sint (x :: uint64) = int (unat x)"

proof -
  assume "unat x < 2 ^ 63"
  then have "int (unat x) < int (2 ^ 63)" by (simp only: of_nat_less_iff)
  then have "uint x < 2 ^ 63" by simp
  moreover have "- (2 ^ 63) \<le> uint x" by (rule order.trans [of _ 0]) simp_all
  ultimately show "sint x = int (unat x)"
    using signed_take_bit_int_eq_self [of 63 "uint x"] by (simp add: sint_uint)
qed

lemma le_nat_last: "bs \<noteq> [] \<Longrightarrow> le_nat bs = le_nat (butlast bs) + 256 ^ (length bs - 1) * unat (last bs)"
  using le_nat_append [of "butlast bs" "[last bs]"] by simp

lemma bit_top_of_nat:
  assumes "2 ^ n \<le> m" "m < 2 ^ Suc n" shows "bit (m :: nat) n"
proof -
  have "m div 2 ^ n = 1" using assms by (simp add: div_nat_eqI)
  then show ?thesis by (simp add: bit_iff_odd)
qed

lemma unat_clear_top:
  assumes "2 ^ n \<le> unat (x :: 'a :: len word)" "unat x < 2 ^ Suc n"
  shows "unat (x AND NOT (push_bit n 1)) = unat x - 2 ^ n"
proof -
  have "n < LENGTH('a)"
    using order.strict_trans1 [OF assms(1) unsigned_less [of x]] by simp
  have "bit (unat x) n" using assms by (rule bit_top_of_nat)
  then have "bit x n" by (simp add: bit_unsigned_iff)
  then have eq: "x AND NOT (push_bit n 1) = x - 2 ^ n"
    using unset_bit_def [of n x] unset_bit_eq [of n x] by simp
  have "unat (2 ^ n :: 'a word) = 2 ^ n"
    using \<open>n < LENGTH('a)\<close> unat_push_bit [of "1 :: 'a word" n] by simp
  then show ?thesis
    unfolding eq using assms(1) by (simp add: unat_sub word_le_nat_alt)
qed

lemma le_nat_top:
  assumes "bs \<noteq> []"
  shows "128 \<le> unat (last bs) \<longleftrightarrow> 2 ^ (8 * length bs - 1) \<le> le_nat bs"
proof -
  obtain k where k: "length bs = Suc k" using assms by (cases bs) auto
  then have e: "(2 :: nat) ^ (8 * length bs - 1) = 128 * 256 ^ k"
    by (simp add: power_add power_mult)
  have l: "le_nat bs = le_nat (butlast bs) + 256 ^ k * unat (last bs)"
    using le_nat_last [OF assms] by (simp add: k)
  have "le_nat (butlast bs) < 256 ^ k"
    using le_nat_less [of "butlast bs"] by (simp add: k)
  show ?thesis
  proof
    assume "128 \<le> unat (last bs)"
    then have "(256 :: nat) ^ k * 128 \<le> 256 ^ k * unat (last bs)" by (intro mult_left_mono) simp_all
    then show "2 ^ (8 * length bs - 1) \<le> le_nat bs" unfolding e l by linarith
  next
    assume a: "2 ^ (8 * length bs - 1) \<le> le_nat bs"
    show "128 \<le> unat (last bs)"
    proof (rule ccontr)
      assume "\<not> 128 \<le> unat (last bs)"
      then have "256 ^ k * unat (last bs) \<le> 256 ^ k * 127" by (intro mult_left_mono) simp_all
      with \<open>le_nat (butlast bs) < 256 ^ k\<close> a show False unfolding e l by simp
    qed
  qed
qed

lemma unat_and_7f: "unat ((b :: byte) AND 0x7f) = unat b mod 128"
proof -
  have "b AND 0x7f = take_bit 7 b" by (simp add: take_bit_eq_mask mask_eq_decr_exp)
  then show ?thesis by (simp only: unsigned_take_bit_eq) (simp add: take_bit_eq_mod)
qed

lemma byte_mod_128: "unat (b :: byte) mod 128 = (if 128 \<le> unat b then unat b - 128 else unat b)"
proof -
  have "unat b - 128 < 128" using unat_byte_less [of b] by linarith
  then show ?thesis by (simp add: le_mod_geq)
qed

lemma and_7f_eq_0_iff: "(b :: byte) AND 0x7f = 0 \<longleftrightarrow> unat b mod 128 = 0"
  using unat_and_7f [of b] by (metis unat_0 unat_eq_zero)

lemma unat_ucast_less: "unat n < 2 ^ LENGTH('b :: len) \<Longrightarrow> unat (ucast (n :: 'a :: len word) :: 'b word) = unat n"
  by (simp add: unsigned_ucast_eq take_bit_nat_eq_self_iff)

lemma unat_ucast_up: "LENGTH('a :: len) \<le> LENGTH('b :: len) \<Longrightarrow> unat (ucast (n :: 'a word) :: 'b word) = unat n"
proof -
  assume "LENGTH('a) \<le> LENGTH('b)"
  then have "(2 :: nat) ^ LENGTH('a) \<le> 2 ^ LENGTH('b)" by (intro power_increasing) simp_all
  then show ?thesis
    using unsigned_less [where ?'a = nat, of n] by (intro unat_ucast_less) linarith
qed

lemma ucast_down_up:
  "unat n < 2 ^ LENGTH('b :: len) \<Longrightarrow> LENGTH('b) \<le> LENGTH('a) \<Longrightarrow>
   ucast (ucast (n :: 'a :: len word) :: 'b word) = n"
  by (simp add: word_unat_eq_iff unat_ucast_up unat_ucast_less)


lemma ucast_up_down:
  "LENGTH('a) \<le> LENGTH('b :: len) \<Longrightarrow> ucast (ucast (n :: 'a :: len word) :: 'b word) = n"
  using unsigned_less [where ?'a = nat, of n]
  by (simp add: word_unat_eq_iff unat_ucast_up unat_ucast_less)

section \<open>Lists\<close>

lemma take_append_exact [simp]: "length xs = n \<Longrightarrow> take n (xs @ ys) = xs"
  by simp

lemma drop_append_exact [simp]: "length xs = n \<Longrightarrow> drop n (xs @ ys) = ys"
  by simp

section \<open>Conditionals\<close>

lemma if_eqE:
  "(if c then a else b) = r \<Longrightarrow> (c \<Longrightarrow> a = r \<Longrightarrow> P) \<Longrightarrow> (\<not> c \<Longrightarrow> b = r \<Longrightarrow> P) \<Longrightarrow> P"
  by (cases c) simp_all

lemma if_mono:
  "(if c then a' else b') = r \<Longrightarrow> (a' = r \<Longrightarrow> a = r) \<Longrightarrow> (b' = r \<Longrightarrow> b = r) \<Longrightarrow>
   (if c then a else b) = r"
  by (cases c) simp_all

end
