(* ===== verification/Script.thy ===== *)
theory Script
  imports Prelude
begin

text \<open>
  Scripts: \<^verbatim>\<open>src/src/script/script.h\<close> and \<^verbatim>\<open>script.cpp\<close>.
  A \<^verbatim>\<open>CScript\<close> is a byte vector; an opcode is the unsigned value of its
  byte, as in the enumeration \<^verbatim>\<open>opcodetype\<close>. A
  \<^verbatim>\<open>CScriptNum\<close> is the \<open>int\<close> held in its \<^verbatim>\<open>int64_t\<close>
  member, with the assertions and the range of the C++ arithmetic kept as outcomes. A reading
  position \<^verbatim>\<open>pc\<close> is the suffix of the script that starts there.
\<close>

section \<open>Opcodes\<close>

type_synonym opcodetype = nat
type_synonym CScript = valtype

abbreviation (input) MAX_SCRIPT_ELEMENT_SIZE :: nat where "MAX_SCRIPT_ELEMENT_SIZE \<equiv> 520"
abbreviation (input) MAX_SCRIPT_SIZE :: nat where "MAX_SCRIPT_SIZE \<equiv> 10000"
abbreviation (input) LOCKTIME_THRESHOLD :: int where "LOCKTIME_THRESHOLD \<equiv> 500000000"

abbreviation (input) OP_0 :: opcodetype where "OP_0 \<equiv> 0x00"
abbreviation (input) OP_FALSE :: opcodetype where "OP_FALSE \<equiv> OP_0"
abbreviation (input) OP_PUSHDATA1 :: opcodetype where "OP_PUSHDATA1 \<equiv> 0x4c"
abbreviation (input) OP_PUSHDATA2 :: opcodetype where "OP_PUSHDATA2 \<equiv> 0x4d"
abbreviation (input) OP_PUSHDATA4 :: opcodetype where "OP_PUSHDATA4 \<equiv> 0x4e"
abbreviation (input) OP_1NEGATE :: opcodetype where "OP_1NEGATE \<equiv> 0x4f"
abbreviation (input) OP_RESERVED :: opcodetype where "OP_RESERVED \<equiv> 0x50"
abbreviation (input) OP_1 :: opcodetype where "OP_1 \<equiv> 0x51"
abbreviation (input) OP_TRUE :: opcodetype where "OP_TRUE \<equiv> OP_1"
abbreviation (input) OP_2 :: opcodetype where "OP_2 \<equiv> 0x52"
abbreviation (input) OP_3 :: opcodetype where "OP_3 \<equiv> 0x53"
abbreviation (input) OP_4 :: opcodetype where "OP_4 \<equiv> 0x54"
abbreviation (input) OP_5 :: opcodetype where "OP_5 \<equiv> 0x55"
abbreviation (input) OP_6 :: opcodetype where "OP_6 \<equiv> 0x56"
abbreviation (input) OP_7 :: opcodetype where "OP_7 \<equiv> 0x57"
abbreviation (input) OP_8 :: opcodetype where "OP_8 \<equiv> 0x58"
abbreviation (input) OP_9 :: opcodetype where "OP_9 \<equiv> 0x59"
abbreviation (input) OP_10 :: opcodetype where "OP_10 \<equiv> 0x5a"
abbreviation (input) OP_11 :: opcodetype where "OP_11 \<equiv> 0x5b"
abbreviation (input) OP_12 :: opcodetype where "OP_12 \<equiv> 0x5c"
abbreviation (input) OP_13 :: opcodetype where "OP_13 \<equiv> 0x5d"
abbreviation (input) OP_14 :: opcodetype where "OP_14 \<equiv> 0x5e"
abbreviation (input) OP_15 :: opcodetype where "OP_15 \<equiv> 0x5f"
abbreviation (input) OP_16 :: opcodetype where "OP_16 \<equiv> 0x60"
abbreviation (input) OP_NOP :: opcodetype where "OP_NOP \<equiv> 0x61"
abbreviation (input) OP_VER :: opcodetype where "OP_VER \<equiv> 0x62"
abbreviation (input) OP_IF :: opcodetype where "OP_IF \<equiv> 0x63"
abbreviation (input) OP_NOTIF :: opcodetype where "OP_NOTIF \<equiv> 0x64"
abbreviation (input) OP_VERIF :: opcodetype where "OP_VERIF \<equiv> 0x65"
abbreviation (input) OP_VERNOTIF :: opcodetype where "OP_VERNOTIF \<equiv> 0x66"
abbreviation (input) OP_ELSE :: opcodetype where "OP_ELSE \<equiv> 0x67"
abbreviation (input) OP_ENDIF :: opcodetype where "OP_ENDIF \<equiv> 0x68"
abbreviation (input) OP_VERIFY :: opcodetype where "OP_VERIFY \<equiv> 0x69"
abbreviation (input) OP_RETURN :: opcodetype where "OP_RETURN \<equiv> 0x6a"
abbreviation (input) OP_TOALTSTACK :: opcodetype where "OP_TOALTSTACK \<equiv> 0x6b"
abbreviation (input) OP_FROMALTSTACK :: opcodetype where "OP_FROMALTSTACK \<equiv> 0x6c"
abbreviation (input) OP_2DROP :: opcodetype where "OP_2DROP \<equiv> 0x6d"
abbreviation (input) OP_2DUP :: opcodetype where "OP_2DUP \<equiv> 0x6e"
abbreviation (input) OP_3DUP :: opcodetype where "OP_3DUP \<equiv> 0x6f"
abbreviation (input) OP_2OVER :: opcodetype where "OP_2OVER \<equiv> 0x70"
abbreviation (input) OP_2ROT :: opcodetype where "OP_2ROT \<equiv> 0x71"
abbreviation (input) OP_2SWAP :: opcodetype where "OP_2SWAP \<equiv> 0x72"
abbreviation (input) OP_IFDUP :: opcodetype where "OP_IFDUP \<equiv> 0x73"
abbreviation (input) OP_DEPTH :: opcodetype where "OP_DEPTH \<equiv> 0x74"
abbreviation (input) OP_DROP :: opcodetype where "OP_DROP \<equiv> 0x75"
abbreviation (input) OP_DUP :: opcodetype where "OP_DUP \<equiv> 0x76"
abbreviation (input) OP_NIP :: opcodetype where "OP_NIP \<equiv> 0x77"
abbreviation (input) OP_OVER :: opcodetype where "OP_OVER \<equiv> 0x78"
abbreviation (input) OP_PICK :: opcodetype where "OP_PICK \<equiv> 0x79"
abbreviation (input) OP_ROLL :: opcodetype where "OP_ROLL \<equiv> 0x7a"
abbreviation (input) OP_ROT :: opcodetype where "OP_ROT \<equiv> 0x7b"
abbreviation (input) OP_SWAP :: opcodetype where "OP_SWAP \<equiv> 0x7c"
abbreviation (input) OP_TUCK :: opcodetype where "OP_TUCK \<equiv> 0x7d"
abbreviation (input) OP_CAT :: opcodetype where "OP_CAT \<equiv> 0x7e"
abbreviation (input) OP_SUBSTR :: opcodetype where "OP_SUBSTR \<equiv> 0x7f"
abbreviation (input) OP_LEFT :: opcodetype where "OP_LEFT \<equiv> 0x80"
abbreviation (input) OP_RIGHT :: opcodetype where "OP_RIGHT \<equiv> 0x81"
abbreviation (input) OP_SIZE :: opcodetype where "OP_SIZE \<equiv> 0x82"
abbreviation (input) OP_INVERT :: opcodetype where "OP_INVERT \<equiv> 0x83"
abbreviation (input) OP_AND :: opcodetype where "OP_AND \<equiv> 0x84"
abbreviation (input) OP_OR :: opcodetype where "OP_OR \<equiv> 0x85"
abbreviation (input) OP_XOR :: opcodetype where "OP_XOR \<equiv> 0x86"
abbreviation (input) OP_EQUAL :: opcodetype where "OP_EQUAL \<equiv> 0x87"
abbreviation (input) OP_EQUALVERIFY :: opcodetype where "OP_EQUALVERIFY \<equiv> 0x88"
abbreviation (input) OP_RESERVED1 :: opcodetype where "OP_RESERVED1 \<equiv> 0x89"
abbreviation (input) OP_RESERVED2 :: opcodetype where "OP_RESERVED2 \<equiv> 0x8a"
abbreviation (input) OP_1ADD :: opcodetype where "OP_1ADD \<equiv> 0x8b"
abbreviation (input) OP_1SUB :: opcodetype where "OP_1SUB \<equiv> 0x8c"
abbreviation (input) OP_2MUL :: opcodetype where "OP_2MUL \<equiv> 0x8d"
abbreviation (input) OP_2DIV :: opcodetype where "OP_2DIV \<equiv> 0x8e"
abbreviation (input) OP_NEGATE :: opcodetype where "OP_NEGATE \<equiv> 0x8f"
abbreviation (input) OP_ABS :: opcodetype where "OP_ABS \<equiv> 0x90"
abbreviation (input) OP_NOT :: opcodetype where "OP_NOT \<equiv> 0x91"
abbreviation (input) OP_0NOTEQUAL :: opcodetype where "OP_0NOTEQUAL \<equiv> 0x92"
abbreviation (input) OP_ADD :: opcodetype where "OP_ADD \<equiv> 0x93"
abbreviation (input) OP_SUB :: opcodetype where "OP_SUB \<equiv> 0x94"
abbreviation (input) OP_MUL :: opcodetype where "OP_MUL \<equiv> 0x95"
abbreviation (input) OP_DIV :: opcodetype where "OP_DIV \<equiv> 0x96"
abbreviation (input) OP_MOD :: opcodetype where "OP_MOD \<equiv> 0x97"
abbreviation (input) OP_LSHIFT :: opcodetype where "OP_LSHIFT \<equiv> 0x98"
abbreviation (input) OP_RSHIFT :: opcodetype where "OP_RSHIFT \<equiv> 0x99"
abbreviation (input) OP_BOOLAND :: opcodetype where "OP_BOOLAND \<equiv> 0x9a"
abbreviation (input) OP_BOOLOR :: opcodetype where "OP_BOOLOR \<equiv> 0x9b"
abbreviation (input) OP_NUMEQUAL :: opcodetype where "OP_NUMEQUAL \<equiv> 0x9c"
abbreviation (input) OP_NUMEQUALVERIFY :: opcodetype where "OP_NUMEQUALVERIFY \<equiv> 0x9d"
abbreviation (input) OP_NUMNOTEQUAL :: opcodetype where "OP_NUMNOTEQUAL \<equiv> 0x9e"
abbreviation (input) OP_LESSTHAN :: opcodetype where "OP_LESSTHAN \<equiv> 0x9f"
abbreviation (input) OP_GREATERTHAN :: opcodetype where "OP_GREATERTHAN \<equiv> 0xa0"
abbreviation (input) OP_LESSTHANOREQUAL :: opcodetype where "OP_LESSTHANOREQUAL \<equiv> 0xa1"
abbreviation (input) OP_GREATERTHANOREQUAL :: opcodetype where "OP_GREATERTHANOREQUAL \<equiv> 0xa2"
abbreviation (input) OP_MIN :: opcodetype where "OP_MIN \<equiv> 0xa3"
abbreviation (input) OP_MAX :: opcodetype where "OP_MAX \<equiv> 0xa4"
abbreviation (input) OP_WITHIN :: opcodetype where "OP_WITHIN \<equiv> 0xa5"
abbreviation (input) OP_RIPEMD160 :: opcodetype where "OP_RIPEMD160 \<equiv> 0xa6"
abbreviation (input) OP_SHA1 :: opcodetype where "OP_SHA1 \<equiv> 0xa7"
abbreviation (input) OP_SHA256 :: opcodetype where "OP_SHA256 \<equiv> 0xa8"
abbreviation (input) OP_HASH160 :: opcodetype where "OP_HASH160 \<equiv> 0xa9"
abbreviation (input) OP_HASH256 :: opcodetype where "OP_HASH256 \<equiv> 0xaa"
abbreviation (input) OP_CODESEPARATOR :: opcodetype where "OP_CODESEPARATOR \<equiv> 0xab"
abbreviation (input) OP_CHECKSIG :: opcodetype where "OP_CHECKSIG \<equiv> 0xac"
abbreviation (input) OP_CHECKSIGVERIFY :: opcodetype where "OP_CHECKSIGVERIFY \<equiv> 0xad"
abbreviation (input) OP_CHECKMULTISIG :: opcodetype where "OP_CHECKMULTISIG \<equiv> 0xae"
abbreviation (input) OP_CHECKMULTISIGVERIFY :: opcodetype where "OP_CHECKMULTISIGVERIFY \<equiv> 0xaf"
abbreviation (input) OP_NOP1 :: opcodetype where "OP_NOP1 \<equiv> 0xb0"
abbreviation (input) OP_NOP2 :: opcodetype where "OP_NOP2 \<equiv> 0xb1"
abbreviation (input) OP_CHECKLOCKTIMEVERIFY :: opcodetype where "OP_CHECKLOCKTIMEVERIFY \<equiv> OP_NOP2"
abbreviation (input) OP_NOP3 :: opcodetype where "OP_NOP3 \<equiv> 0xb2"
abbreviation (input) OP_NOP4 :: opcodetype where "OP_NOP4 \<equiv> 0xb3"
abbreviation (input) OP_NOP5 :: opcodetype where "OP_NOP5 \<equiv> 0xb4"
abbreviation (input) OP_NOP6 :: opcodetype where "OP_NOP6 \<equiv> 0xb5"
abbreviation (input) OP_NOP7 :: opcodetype where "OP_NOP7 \<equiv> 0xb6"
abbreviation (input) OP_NOP8 :: opcodetype where "OP_NOP8 \<equiv> 0xb7"
abbreviation (input) OP_NOP9 :: opcodetype where "OP_NOP9 \<equiv> 0xb8"
abbreviation (input) OP_NOP10 :: opcodetype where "OP_NOP10 \<equiv> 0xb9"
abbreviation (input) OP_SMALLDATA :: opcodetype where "OP_SMALLDATA \<equiv> 0xf9"
abbreviation (input) OP_SMALLINTEGER :: opcodetype where "OP_SMALLINTEGER \<equiv> 0xfa"
abbreviation (input) OP_PUBKEYS :: opcodetype where "OP_PUBKEYS \<equiv> 0xfb"
abbreviation (input) OP_PUBKEYHASH :: opcodetype where "OP_PUBKEYHASH \<equiv> 0xfd"
abbreviation (input) OP_PUBKEY :: opcodetype where "OP_PUBKEY \<equiv> 0xfe"
abbreviation (input) OP_INVALIDOPCODE :: opcodetype where "OP_INVALIDOPCODE \<equiv> 0xff"

definition op_names :: "(opcodetype \<times> string) list" where
  "op_names = [
    (OP_0, ''0''),
    (OP_PUSHDATA1, ''OP_PUSHDATA1''),
    (OP_PUSHDATA2, ''OP_PUSHDATA2''),
    (OP_PUSHDATA4, ''OP_PUSHDATA4''),
    (OP_1NEGATE, ''-1''),
    (OP_RESERVED, ''OP_RESERVED''),
    (OP_1, ''1''),
    (OP_2, ''2''),
    (OP_3, ''3''),
    (OP_4, ''4''),
    (OP_5, ''5''),
    (OP_6, ''6''),
    (OP_7, ''7''),
    (OP_8, ''8''),
    (OP_9, ''9''),
    (OP_10, ''10''),
    (OP_11, ''11''),
    (OP_12, ''12''),
    (OP_13, ''13''),
    (OP_14, ''14''),
    (OP_15, ''15''),
    (OP_16, ''16''),
    (OP_NOP, ''OP_NOP''),
    (OP_VER, ''OP_VER''),
    (OP_IF, ''OP_IF''),
    (OP_NOTIF, ''OP_NOTIF''),
    (OP_VERIF, ''OP_VERIF''),
    (OP_VERNOTIF, ''OP_VERNOTIF''),
    (OP_ELSE, ''OP_ELSE''),
    (OP_ENDIF, ''OP_ENDIF''),
    (OP_VERIFY, ''OP_VERIFY''),
    (OP_RETURN, ''OP_RETURN''),
    (OP_TOALTSTACK, ''OP_TOALTSTACK''),
    (OP_FROMALTSTACK, ''OP_FROMALTSTACK''),
    (OP_2DROP, ''OP_2DROP''),
    (OP_2DUP, ''OP_2DUP''),
    (OP_3DUP, ''OP_3DUP''),
    (OP_2OVER, ''OP_2OVER''),
    (OP_2ROT, ''OP_2ROT''),
    (OP_2SWAP, ''OP_2SWAP''),
    (OP_IFDUP, ''OP_IFDUP''),
    (OP_DEPTH, ''OP_DEPTH''),
    (OP_DROP, ''OP_DROP''),
    (OP_DUP, ''OP_DUP''),
    (OP_NIP, ''OP_NIP''),
    (OP_OVER, ''OP_OVER''),
    (OP_PICK, ''OP_PICK''),
    (OP_ROLL, ''OP_ROLL''),
    (OP_ROT, ''OP_ROT''),
    (OP_SWAP, ''OP_SWAP''),
    (OP_TUCK, ''OP_TUCK''),
    (OP_CAT, ''OP_CAT''),
    (OP_SUBSTR, ''OP_SUBSTR''),
    (OP_LEFT, ''OP_LEFT''),
    (OP_RIGHT, ''OP_RIGHT''),
    (OP_SIZE, ''OP_SIZE''),
    (OP_INVERT, ''OP_INVERT''),
    (OP_AND, ''OP_AND''),
    (OP_OR, ''OP_OR''),
    (OP_XOR, ''OP_XOR''),
    (OP_EQUAL, ''OP_EQUAL''),
    (OP_EQUALVERIFY, ''OP_EQUALVERIFY''),
    (OP_RESERVED1, ''OP_RESERVED1''),
    (OP_RESERVED2, ''OP_RESERVED2''),
    (OP_1ADD, ''OP_1ADD''),
    (OP_1SUB, ''OP_1SUB''),
    (OP_2MUL, ''OP_2MUL''),
    (OP_2DIV, ''OP_2DIV''),
    (OP_NEGATE, ''OP_NEGATE''),
    (OP_ABS, ''OP_ABS''),
    (OP_NOT, ''OP_NOT''),
    (OP_0NOTEQUAL, ''OP_0NOTEQUAL''),
    (OP_ADD, ''OP_ADD''),
    (OP_SUB, ''OP_SUB''),
    (OP_MUL, ''OP_MUL''),
    (OP_DIV, ''OP_DIV''),
    (OP_MOD, ''OP_MOD''),
    (OP_LSHIFT, ''OP_LSHIFT''),
    (OP_RSHIFT, ''OP_RSHIFT''),
    (OP_BOOLAND, ''OP_BOOLAND''),
    (OP_BOOLOR, ''OP_BOOLOR''),
    (OP_NUMEQUAL, ''OP_NUMEQUAL''),
    (OP_NUMEQUALVERIFY, ''OP_NUMEQUALVERIFY''),
    (OP_NUMNOTEQUAL, ''OP_NUMNOTEQUAL''),
    (OP_LESSTHAN, ''OP_LESSTHAN''),
    (OP_GREATERTHAN, ''OP_GREATERTHAN''),
    (OP_LESSTHANOREQUAL, ''OP_LESSTHANOREQUAL''),
    (OP_GREATERTHANOREQUAL, ''OP_GREATERTHANOREQUAL''),
    (OP_MIN, ''OP_MIN''),
    (OP_MAX, ''OP_MAX''),
    (OP_WITHIN, ''OP_WITHIN''),
    (OP_RIPEMD160, ''OP_RIPEMD160''),
    (OP_SHA1, ''OP_SHA1''),
    (OP_SHA256, ''OP_SHA256''),
    (OP_HASH160, ''OP_HASH160''),
    (OP_HASH256, ''OP_HASH256''),
    (OP_CODESEPARATOR, ''OP_CODESEPARATOR''),
    (OP_CHECKSIG, ''OP_CHECKSIG''),
    (OP_CHECKSIGVERIFY, ''OP_CHECKSIGVERIFY''),
    (OP_CHECKMULTISIG, ''OP_CHECKMULTISIG''),
    (OP_CHECKMULTISIGVERIFY, ''OP_CHECKMULTISIGVERIFY''),
    (OP_NOP1, ''OP_NOP1''),
    (OP_NOP2, ''OP_NOP2''),
    (OP_NOP3, ''OP_NOP3''),
    (OP_NOP4, ''OP_NOP4''),
    (OP_NOP5, ''OP_NOP5''),
    (OP_NOP6, ''OP_NOP6''),
    (OP_NOP7, ''OP_NOP7''),
    (OP_NOP8, ''OP_NOP8''),
    (OP_NOP9, ''OP_NOP9''),
    (OP_NOP10, ''OP_NOP10''),
    (OP_INVALIDOPCODE, ''OP_INVALIDOPCODE'')]"

definition GetOpName :: "opcodetype \<Rightarrow> string" where
  "GetOpName opcode =
     (case map_of op_names opcode of None \<Rightarrow> ''OP_UNKNOWN'' | Some s \<Rightarrow> s)"

section \<open>Script numbers\<close>

text \<open>\<^verbatim>\<open>CScriptNum::serialize\<close>, for values other than the least \<^verbatim>\<open>int64_t\<close>.\<close>

fun le_digits :: "nat \<Rightarrow> valtype" where
  "le_digits n = (if n = 0 then [] else word_of_nat (n mod 256) # le_digits (n div 256))"

declare le_digits.simps [simp del]

definition serialize :: "int \<Rightarrow> valtype" where
  "serialize value =
     (if value = 0 then []
      else
        let neg = value < 0;
            absvalue = nat (if neg then - value else value);
            result = le_digits absvalue
        in if last result AND 0x80 \<noteq> 0 then result @ [if neg then 0x80 else 0]
           else if neg then butlast result @ [last result OR 0x80]
           else result)"

text \<open>The loop of \<^verbatim>\<open>set_vch\<close>: byte \<open>i\<close> is shifted by \<open>8 * i\<close> and or-ed in.\<close>

fun set_vch_or :: "nat \<Rightarrow> valtype \<Rightarrow> uint64" where
  "set_vch_or i [] = 0"
| "set_vch_or i (b # bs) = push_bit (8 * i) (ucast b) OR set_vch_or (Suc i) bs"

definition set_vch :: "valtype \<Rightarrow> int" where
  "set_vch vch =
     (if vch = [] then 0
      else
        let result = set_vch_or 0 vch
        in if last vch AND 0x80 \<noteq> 0
           then - sint (result AND NOT (push_bit (8 * (length vch - 1)) 0x80))
           else sint result)"

abbreviation (input) nDefaultMaxNumSize :: nat where "nDefaultMaxNumSize \<equiv> 4"

text \<open>The constructor from bytes; \<open>None\<close> is the thrown \<^verbatim>\<open>scriptnum_error\<close>.\<close>

definition CScriptNum :: "valtype \<Rightarrow> bool \<Rightarrow> nat \<Rightarrow> int option" where
  "CScriptNum vch fRequireMinimal nMaxNumSize =
     (if nMaxNumSize < length vch then None
      else if fRequireMinimal \<and> vch \<noteq> [] \<and> last vch AND 0x7f = 0 \<and>
              (length vch \<le> 1 \<or> vch ! (length vch - 2) AND 0x80 = 0)
      then None
      else Some (set_vch vch))"

definition num_add :: "int \<Rightarrow> int \<Rightarrow> ('e, int) outcome" where
  "num_add a b = (if in_int64 (a + b) then Ok (a + b) else Abort)"

definition num_sub :: "int \<Rightarrow> int \<Rightarrow> ('e, int) outcome" where
  "num_sub a b = (if in_int64 (a - b) then Ok (a - b) else Abort)"

definition num_neg :: "int \<Rightarrow> ('e, int) outcome" where
  "num_neg a = (if a \<noteq> INT64_MIN then Ok (- a) else Abort)"

definition num_add_assign :: "int \<Rightarrow> int \<Rightarrow> ('e, int) outcome" where
  "num_add_assign a rhs =
     (if rhs = 0 \<or> (0 < rhs \<and> a \<le> INT64_MAX - rhs) \<or> (rhs < 0 \<and> INT64_MIN - rhs \<le> a)
      then Ok (a + rhs) else Abort)"

definition num_sub_assign :: "int \<Rightarrow> int \<Rightarrow> ('e, int) outcome" where
  "num_sub_assign a rhs =
     (if rhs = 0 \<or> (0 < rhs \<and> INT64_MIN + rhs \<le> a) \<or> (rhs < 0 \<and> a \<le> INT64_MAX + rhs)
      then Ok (a - rhs) else Abort)"

definition getint :: "int \<Rightarrow> int" where
  "getint v = (if INT_MAX < v then INT_MAX else if v < INT_MIN then INT_MIN else v)"

section \<open>Building scripts\<close>

definition op_byte :: "opcodetype \<Rightarrow> byte" where
  "op_byte opcode = word_of_nat opcode"

text \<open>\<^verbatim>\<open>operator<<\<close> for an opcode; \<open>None\<close> is the thrown \<^verbatim>\<open>runtime_error\<close>.\<close>

definition script_push_opcode :: "CScript \<Rightarrow> opcodetype \<Rightarrow> CScript option" where
  "script_push_opcode s opcode = (if 0xff < opcode then None else Some (s @ [op_byte opcode]))"

text \<open>\<^verbatim>\<open>operator<<\<close> for a byte vector.\<close>

definition push_data :: "valtype \<Rightarrow> CScript" where
  "push_data b =
     (if length b < OP_PUSHDATA1 then [word_of_nat (length b)]
      else if length b \<le> 0xff then [op_byte OP_PUSHDATA1, word_of_nat (length b)]
      else if length b \<le> 0xffff then op_byte OP_PUSHDATA2 # le_bytes 2 (length b)
      else op_byte OP_PUSHDATA4 # le_bytes 4 (length b)) @ b"

definition script_push_data :: "CScript \<Rightarrow> valtype \<Rightarrow> CScript" where
  "script_push_data s b = s @ push_data b"

definition push_int64 :: "CScript \<Rightarrow> int \<Rightarrow> CScript" where
  "push_int64 s n =
     (if n = - 1 \<or> (1 \<le> n \<and> n \<le> 16) then s @ [word_of_int (n + (int OP_1 - 1))]
      else if n = 0 then s @ [op_byte OP_0]
      else script_push_data s (serialize n))"

section \<open>Reading scripts\<close>

text \<open>
  \<^verbatim>\<open>GetOp2\<close> from a position: the position after the instruction, the opcode and
  the pushed bytes, or \<open>None\<close> when it returns \<^verbatim>\<open>false\<close>.
\<close>

definition read_operand :: "opcodetype \<Rightarrow> nat \<Rightarrow> CScript \<Rightarrow> (CScript \<times> opcodetype \<times> valtype) option" where
  "read_operand opcode nSize pc =
     (if length pc mod 2 ^ 32 < nSize then None
      else Some (drop nSize pc, opcode, take nSize pc))"

definition GetOp2 :: "CScript \<Rightarrow> (CScript \<times> opcodetype \<times> valtype) option" where
  "GetOp2 pc =
     (case pc of
        [] \<Rightarrow> None
      | b # pc1 \<Rightarrow>
          let opcode = unat b in
          if opcode \<le> OP_PUSHDATA4 then
            (if opcode < OP_PUSHDATA1 then read_operand opcode opcode pc1
             else if opcode = OP_PUSHDATA1 then
               (if length pc1 < 1 then None
                else read_operand opcode (le_nat (take 1 pc1)) (drop 1 pc1))
             else if opcode = OP_PUSHDATA2 then
               (if length pc1 < 2 then None
                else read_operand opcode (le_nat (take 2 pc1)) (drop 2 pc1))
             else
               (if length pc1 < 4 then None
                else read_operand opcode (le_nat (take 4 pc1)) (drop 4 pc1)))
          else Some (pc1, opcode, []))"

lemma read_operand_length:
  "read_operand opcode n pc = Some (pc', opcode', v) \<Longrightarrow> length pc' \<le> length pc"
  by (auto simp: read_operand_def split: if_splits)

lemma GetOp2_shorter: "GetOp2 pc = Some (pc', opcode, v) \<Longrightarrow> length pc' < length pc"
  by (fastforce simp: GetOp2_def Let_def dest!: read_operand_length split: list.splits if_splits)

text \<open>\<^verbatim>\<open>DecodeOP_N\<close> and \<^verbatim>\<open>EncodeOP_N\<close>; \<open>None\<close> is the failed assertion.\<close>

definition DecodeOP_N :: "opcodetype \<Rightarrow> nat option" where
  "DecodeOP_N opcode =
     (if opcode = OP_0 then Some 0
      else if OP_1 \<le> opcode \<and> opcode \<le> OP_16 then Some (opcode - (OP_1 - 1))
      else None)"

definition EncodeOP_N :: "int \<Rightarrow> opcodetype option" where
  "EncodeOP_N n =
     (if 0 \<le> n \<and> n \<le> 16 then Some (if n = 0 then OP_0 else OP_1 + nat n - 1) else None)"


section \<open>Classifying scripts\<close>

text \<open>
  The loop of \<^verbatim>\<open>GetSigOpCount(bool)\<close>. A malformed instruction ends the count. The call of
  \<^verbatim>\<open>DecodeOP_N\<close> is guarded by the range its assertion asks for.
\<close>

definition sigop_weight :: "bool \<Rightarrow> opcodetype \<Rightarrow> opcodetype \<Rightarrow> nat" where
  "sigop_weight fAccurate lastOpcode opcode =
     (if opcode = OP_CHECKSIG \<or> opcode = OP_CHECKSIGVERIFY then 1
      else if opcode = OP_CHECKMULTISIG \<or> opcode = OP_CHECKMULTISIGVERIFY then
        (if fAccurate \<and> OP_1 \<le> lastOpcode \<and> lastOpcode \<le> OP_16
         then the (DecodeOP_N lastOpcode) else 20)
      else 0)"

function sigops_loop :: "bool \<Rightarrow> opcodetype \<Rightarrow> CScript \<Rightarrow> nat" where
  "sigops_loop fAccurate lastOpcode pc =
     (case GetOp2 pc of
        None \<Rightarrow> 0
      | Some (pc', opcode, _) \<Rightarrow>
          sigop_weight fAccurate lastOpcode opcode + sigops_loop fAccurate opcode pc')"
  by pat_completeness auto
termination
  by (relation "measure (\<lambda>(fAccurate, lastOpcode, pc). length pc)") (auto dest: GetOp2_shorter)

definition GetSigOpCount :: "CScript \<Rightarrow> bool \<Rightarrow> nat" where
  "GetSigOpCount script fAccurate = sigops_loop fAccurate OP_INVALIDOPCODE script"

definition IsPayToScriptHash :: "CScript \<Rightarrow> bool" where
  "IsPayToScriptHash s \<longleftrightarrow>
     length s = 23 \<and> unat (s ! 0) = OP_HASH160 \<and> s ! 1 = 0x14 \<and> unat (s ! 22) = OP_EQUAL"

text \<open>The last data a push-only script pushes; \<open>None\<close> where the loop returns 0.\<close>

function last_push :: "valtype \<Rightarrow> CScript \<Rightarrow> valtype option" where
  "last_push data pc =
     (if pc = [] then Some data
      else case GetOp2 pc of
        None \<Rightarrow> None
      | Some (pc', opcode, data') \<Rightarrow> if OP_16 < opcode then None else last_push data' pc')"
  by pat_completeness auto
termination
  by (relation "measure (\<lambda>(data, pc). length pc)") (auto dest: GetOp2_shorter)

definition GetSigOpCount_P2SH :: "CScript \<Rightarrow> CScript \<Rightarrow> nat" where
  "GetSigOpCount_P2SH scriptPubKey scriptSig =
     (if \<not> IsPayToScriptHash scriptPubKey then GetSigOpCount scriptPubKey True
      else case last_push [] scriptSig of
        None \<Rightarrow> 0
      | Some data \<Rightarrow> GetSigOpCount data True)"

definition IsPayToWitnessScriptHash :: "CScript \<Rightarrow> bool" where
  "IsPayToWitnessScriptHash s \<longleftrightarrow> length s = 34 \<and> unat (s ! 0) = OP_0 \<and> s ! 1 = 0x20"

definition IsPayToWitnessPubKeyHash :: "CScript \<Rightarrow> bool" where
  "IsPayToWitnessPubKeyHash s \<longleftrightarrow> length s = 22 \<and> unat (s ! 0) = OP_0 \<and> s ! 1 = 0x14"

text \<open>\<open>IsWitnessProgram\<close> returns its two output parameters, \<open>None\<close> for \<^verbatim>\<open>false\<close>.\<close>

definition IsWitnessProgram :: "CScript \<Rightarrow> (nat \<times> valtype) option" where
  "IsWitnessProgram s =
     (if length s < 4 \<or> 42 < length s then None
      else if unat (s ! 0) \<noteq> OP_0 \<and> (unat (s ! 0) < OP_1 \<or> OP_16 < unat (s ! 0)) then None
      else if unat (s ! 1) + 2 = length s
      then map_option (\<lambda>version. (version, drop 2 s)) (DecodeOP_N (unat (s ! 0)))
      else None)"

function IsPushOnly :: "CScript \<Rightarrow> bool" where
  "IsPushOnly pc =
     (if pc = [] then True
      else case GetOp2 pc of
        None \<Rightarrow> False
      | Some (pc', opcode, _) \<Rightarrow> \<not> OP_16 < opcode \<and> IsPushOnly pc')"
  by pat_completeness auto
termination
  by (relation "measure length") (auto dest: GetOp2_shorter)

declare sigops_loop.simps [simp del] last_push.simps [simp del] IsPushOnly.simps [simp del]

definition IsUnspendable :: "CScript \<Rightarrow> bool" where
  "IsUnspendable s \<longleftrightarrow> (0 < length s \<and> unat (s ! 0) = OP_RETURN) \<or> MAX_SCRIPT_SIZE < length s"

section \<open>Script numbers are canonical\<close>

lemma le_nat_le_digits [simp]: "le_nat (le_digits n) = n"
  by (induction n rule: le_digits.induct) (subst le_digits.simps, simp)

lemma le_digits_eq_Nil_iff [simp]: "le_digits n = [] \<longleftrightarrow> n = 0"
  by (subst le_digits.simps) simp

lemma last_le_digits: "n \<noteq> 0 \<Longrightarrow> last (le_digits n) \<noteq> 0"
proof (induction n rule: le_digits.induct)
  case (1 n)
  show ?case
  proof (cases "n div 256 = 0")
    case True
    then have "n mod 256 = n" "n < 256" by (simp_all add: div_eq_0_iff)
    then have "word_of_nat n \<noteq> (0 :: byte)"
      using \<open>n \<noteq> 0\<close> by (simp add: word_of_nat_eq_0_iff nat_dvd_not_less)
    with True \<open>n \<noteq> 0\<close> \<open>n mod 256 = n\<close> show ?thesis
      by (subst le_digits.simps) simp
  next
    case False
    with 1 show ?thesis by (subst le_digits.simps) simp
  qed
qed

lemma length_le_digits: "n < 256 ^ k \<Longrightarrow> length (le_digits n) \<le> k"
proof (induction k arbitrary: n)
  case 0
  then show ?case by (simp add: le_digits.simps)
next
  case (Suc k)
  then have "n div 256 < 256 ^ k" by (simp add: less_mult_imp_div_less mult.commute)
  with Suc.IH [of "n div 256"] show ?case by (subst le_digits.simps) simp
qed

lemma unat_set_vch_or:
  "i + length bs \<le> 8 \<Longrightarrow> unat (set_vch_or i bs) = 256 ^ i * le_nat bs"
proof (induction bs arbitrary: i)
  case Nil
  then show ?case by simp
next
  case (Cons b bs)
  have len: "8 * i + 8 \<le> 64" using Cons.prems by simp
  have p: "(256 :: nat) ^ i = 2 ^ (8 * i)" by (simp add: power_mult)
  have "unat b * 2 ^ (8 * i) < 256 * 2 ^ (8 * i)" by simp
  also have "(256 :: nat) * 2 ^ (8 * i) = 2 ^ (8 * i + 8)" by (simp add: power_add)
  also have "\<dots> \<le> 2 ^ 64" using len by (intro power_increasing) simp_all
  finally have "unat b * 2 ^ (8 * i) < 2 ^ 64" .
  then have "unat (push_bit (8 * i) (ucast b :: uint64)) = push_bit (8 * i) (unat b)"
    using unat_push_bit [of "ucast b :: uint64" "8 * i"] by (simp only: push_bit_eq_mult mult.commute unat_ucast_byte_64 word_size len_of_numeral_defs) simp
  moreover have "unat (set_vch_or (Suc i) bs) = 256 ^ Suc i * le_nat bs"
    using Cons.prems by (intro Cons.IH) simp
  moreover have "256 ^ Suc i * le_nat bs = push_bit (8 * i) (push_bit 8 (le_nat bs))"
    by (simp add: push_bit_eq_mult p)
  ultimately have "unat (set_vch_or i (b # bs)) = push_bit (8 * i) (unat b OR push_bit 8 (le_nat bs))"
    by (simp add: unat_or push_bit_or)
  then show ?case
    using or_push_bit_nat [of "unat b" 8 "le_nat bs"] by (simp add: push_bit_eq_mult p)
qed

lemma set_vch_value:
  assumes "vch \<noteq> []" "length vch \<le> 8"
  shows "set_vch vch =
     (if 128 \<le> unat (last vch) then - int (le_nat vch - 2 ^ (8 * length vch - 1))
      else int (le_nat vch))"
proof -
  let ?n = "8 * length vch - 1"
  have v: "unat (set_vch_or 0 vch) = le_nat vch"
    using unat_set_vch_or [of 0 vch] assms by simp
  have n: "Suc ?n = 8 * length vch" using assms by (cases vch) simp_all
  have lt: "le_nat vch < 2 ^ Suc ?n"
    using le_nat_less [of vch] unfolding n by (simp add: power_mult)
  have n63: "?n \<le> 63" using assms by simp
  then have le63: "(2 :: nat) ^ ?n \<le> 2 ^ 63" by (intro power_increasing) simp_all
  have sh: "push_bit (8 * (length vch - 1)) 0x80 = (push_bit ?n 1 :: uint64)"
  proof -
    have "?n = 8 * (length vch - 1) + 7" using assms by (cases vch) simp_all
    then show ?thesis by (simp add: push_bit_eq_mult power_add)
  qed
  show ?thesis
  proof (cases "128 \<le> unat (last vch)")
    case True
    then have ge: "2 ^ ?n \<le> le_nat vch" using le_nat_top [OF assms(1)] by simp
    have "unat (set_vch_or 0 vch AND NOT (push_bit ?n 1)) = le_nat vch - 2 ^ ?n"
      using unat_clear_top [of ?n "set_vch_or 0 vch"] ge lt by (simp only: v)
    moreover have "le_nat vch - 2 ^ ?n < 2 ^ 63" using lt le63 by simp
    ultimately show ?thesis
      using True assms(1)
      by (simp only: set_vch_def byte_and_80_iff sh Let_def sint_uint64_small if_True if_False simp_thms)
  next
    case False
    then have "le_nat vch < 2 ^ 63" using le_nat_top [OF assms(1)] le63 by simp
    then show ?thesis
      using False assms(1) byte_and_80_iff [of "last vch"]
      by (simp add: set_vch_def v sint_uint64_small)
  qed
qed

lemma serialize_bytes:
  assumes "n \<noteq> 0" "\<bar>n\<bar> < 2 ^ 63"
  obtains "serialize n \<noteq> []" "length (serialize n) \<le> 8"
    "128 \<le> unat (last (serialize n)) \<longleftrightarrow> n < 0"
    "int (le_nat (serialize n)) = \<bar>n\<bar> + (if n < 0 then 2 ^ (8 * length (serialize n) - 1) else 0)"
proof -
  define ds where "ds = le_digits (nat \<bar>n\<bar>)"
  have val: "le_nat ds = nat \<bar>n\<bar>" by (simp add: ds_def)
  have a0: "nat \<bar>n\<bar> \<noteq> 0" using assms by simp
  then have ne: "ds \<noteq> []" by (simp add: ds_def)
  have lt: "nat \<bar>n\<bar> < 2 ^ 63" using assms by (simp add: nat_less_iff)
  then have "length ds \<le> 8" unfolding ds_def by (intro length_le_digits) simp
  have abs: "nat (if n < 0 then - n else n) = nat \<bar>n\<bar>" by simp
  show ?thesis
  proof (cases "128 \<le> unat (last ds)")
    case True
    then have "2 ^ (8 * length ds - 1) \<le> nat \<bar>n\<bar>" using le_nat_top [OF ne] by (simp only: val)
    then have "(2 :: nat) ^ (8 * length ds - 1) < 2 ^ 63" using lt by linarith
    then have "8 * length ds - 1 < 63" by (rule power_less_imp_less_exp [rotated]) simp
    then have len: "length ds \<le> 7" by simp
    have ser: "serialize n = ds @ [if n < 0 then 0x80 else 0]"
      using True assms(1) by (simp only: serialize_def Let_def abs byte_and_80_iff if_True if_False flip: ds_def)
    show ?thesis
    proof
      show "serialize n \<noteq> []" "length (serialize n) \<le> 8" using len by (simp_all add: ser)
      show "128 \<le> unat (last (serialize n)) \<longleftrightarrow> n < 0" by (simp add: ser)
      show "int (le_nat (serialize n)) = \<bar>n\<bar> + (if n < 0 then 2 ^ (8 * length (serialize n) - 1) else 0)"
        by (simp add: ser val le_nat_append power_mult power_add)
    qed
  next
    case False
    obtain k where k: "length ds = Suc k" using ne by (cases ds) auto
    have e: "(2 :: int) ^ (8 * Suc k - 1) = 256 ^ k * 128" by (simp add: power_add power_mult)
    have abs_n: "\<bar>n\<bar> = int (le_nat ds)" by (simp add: val)
    have l7: "unat (last ds OR 0x80) = unat (last ds) + 128"
      using or_push_bit_nat [of "unat (last ds)" 7 1] False by (simp add: unat_or)
    have ser: "serialize n = (if n < 0 then butlast ds @ [last ds OR 0x80] else ds)"
      using False assms(1) by (simp only: serialize_def Let_def abs byte_and_80_iff if_True if_False flip: ds_def)
    show ?thesis
    proof
      show "serialize n \<noteq> []" "length (serialize n) \<le> 8"
        using ne \<open>length ds \<le> 8\<close> by (simp_all add: ser)
      show "128 \<le> unat (last (serialize n)) \<longleftrightarrow> n < 0" using False by (simp add: ser l7)
      show "int (le_nat (serialize n)) = \<bar>n\<bar> + (if n < 0 then 2 ^ (8 * length (serialize n) - 1) else 0)"
        using le_nat_last [OF ne] abs_n e
        by (simp add: ser le_nat_append l7 k distrib_left)
    qed
  qed
qed

lemma set_vch_serialize: "\<bar>n\<bar> < 2 ^ 63 \<Longrightarrow> set_vch (serialize n) = n"
proof (cases "n = 0")
  case True
  then show ?thesis by (simp add: serialize_def set_vch_def)
next
  case False
  assume "\<bar>n\<bar> < 2 ^ 63"
  with False obtain v: "serialize n \<noteq> []" "length (serialize n) \<le> 8"
    "128 \<le> unat (last (serialize n)) \<longleftrightarrow> n < 0"
    "int (le_nat (serialize n)) = \<bar>n\<bar> + (if n < 0 then 2 ^ (8 * length (serialize n) - 1) else 0)"
    by (rule serialize_bytes)
  show ?thesis
  proof (cases "n < 0")
    case True
    then have "int (le_nat (serialize n)) = int (nat (- n) + 2 ^ (8 * length (serialize n) - 1))"
      using v(4) by simp
    then have "le_nat (serialize n) = nat (- n) + 2 ^ (8 * length (serialize n) - 1)"
      by (simp only: of_nat_eq_iff)
    with True v(3) show ?thesis by (simp add: set_vch_value [OF v(1,2)])
  next
    case False
    with v(3,4) show ?thesis by (simp add: set_vch_value [OF v(1,2)])
  qed
qed

lemma le_digits_le_nat: "bs \<noteq> [] \<Longrightarrow> last bs \<noteq> 0 \<Longrightarrow> le_digits (le_nat bs) = bs"
proof (induction bs)
  case Nil
  then show ?case by simp
next
  case (Cons b bs)
  have b: "word_of_nat (unat b) = b" by simp
  have "le_nat (b # bs) \<noteq> 0"
  proof (cases "bs = []")
    case True
    with Cons.prems show ?thesis by (simp add: unat_eq_zero)
  next
    case False
    with Cons have "le_digits (le_nat bs) = bs" by simp
    with False have "le_nat bs \<noteq> 0" by (metis le_digits_eq_Nil_iff)
    then show ?thesis by simp
  qed
  moreover have "le_digits (le_nat bs) = bs"
    using Cons by (cases "bs = []") (auto simp: le_digits.simps)
  ultimately show ?case
    using unat_byte_less [of b] by (subst le_digits.simps) simp
qed

lemma serialize_unfold:
  assumes "n \<noteq> 0" and ds: "ds = le_digits (nat \<bar>n\<bar>)"
  shows "serialize n =
     (if 128 \<le> unat (last ds) then ds @ [if n < 0 then 0x80 else 0]
      else if n < 0 then butlast ds @ [last ds OR 0x80] else ds)"
proof -
  have abs: "nat (if n < 0 then - n else n) = nat \<bar>n\<bar>" by simp
  show ?thesis
    using assms(1)
    by (simp only: serialize_def Let_def abs byte_and_80_iff if_False flip: ds)
qed

lemma length_serialize:
  assumes "\<bar>n\<bar> < 2 ^ (8 * m - 1)"
  shows "length (serialize n) \<le> m"
proof (cases "n = 0")
  case True
  then show ?thesis by (simp add: serialize_def)
next
  case False
  define ds where "ds = le_digits (nat \<bar>n\<bar>)"
  have ne: "ds \<noteq> []" and val: "le_nat ds = nat \<bar>n\<bar>" using False by (simp_all add: ds_def)
  have lt: "nat \<bar>n\<bar> < 2 ^ (8 * m - 1)" using assms by (simp add: nat_less_iff)
  have "(2 :: nat) ^ (8 * m - 1) \<le> 2 ^ (8 * m)" by (intro power_increasing) simp_all
  also have "(2 :: nat) ^ (8 * m) = 256 ^ m" by (simp add: power_mult)
  finally have "nat \<bar>n\<bar> < 256 ^ m" using lt by linarith
  then have len: "length ds \<le> m" unfolding ds_def by (rule length_le_digits)
  show ?thesis
  proof (cases "128 \<le> unat (last ds)")
    case True
    then have "2 ^ (8 * length ds - 1) \<le> nat \<bar>n\<bar>" using le_nat_top [OF ne] by (simp only: val)
    then have "(2 :: nat) ^ (8 * length ds - 1) < 2 ^ (8 * m - 1)" using lt by linarith
    then have "8 * length ds - 1 < 8 * m - 1" by (rule power_less_imp_less_exp [rotated]) simp
    then have "length ds < m" by simp
    then show ?thesis using True by (simp add: serialize_unfold [OF False ds_def])
  next
    case False
    then show ?thesis using len ne by (simp add: serialize_unfold [OF \<open>n \<noteq> 0\<close> ds_def])
  qed
qed

text \<open>What the minimality test of the constructor asks for.\<close>

definition minimal_num :: "valtype \<Rightarrow> bool" where
  "minimal_num vch \<longleftrightarrow>
     vch = [] \<or> unat (last vch) mod 128 \<noteq> 0 \<or> (1 < length vch \<and> 128 \<le> unat (vch ! (length vch - 2)))"

lemma CScriptNum_eq_Some_iff:
  "CScriptNum vch fRequireMinimal m = Some n \<longleftrightarrow>
     length vch \<le> m \<and> (fRequireMinimal \<longrightarrow> minimal_num vch) \<and> n = set_vch vch"
proof -
  have *: "x AND 0x80 = 0 \<longleftrightarrow> \<not> 128 \<le> unat x" for x :: byte using byte_and_80_iff [of x] by blast
  show ?thesis
    by (auto simp: CScriptNum_def minimal_num_def * and_7f_eq_0_iff not_less not_le)
qed

lemma minimal_serialize: "minimal_num (serialize n)"
proof (cases "n = 0")
  case True
  then show ?thesis by (simp add: serialize_def minimal_num_def)
next
  case False
  define ds where "ds = le_digits (nat \<bar>n\<bar>)"
  have ne: "ds \<noteq> []" using False by (simp add: ds_def)
  have l0: "last ds \<noteq> 0" unfolding ds_def by (rule last_le_digits) (use False in simp)
  show ?thesis
  proof (cases "128 \<le> unat (last ds)")
    case True
    then show ?thesis
      using ne by (simp add: serialize_unfold [OF False ds_def] minimal_num_def nth_append last_conv_nth Suc_le_eq)
  next
    case False
    then have l7: "unat (last ds OR 0x80) = unat (last ds) + 128"
      using or_push_bit_nat [of "unat (last ds)" 7 1] by (simp add: unat_or)
    have "unat (last ds) \<noteq> 0" using l0 by (simp add: unat_eq_zero)
    with False l7 show ?thesis
      by (simp add: serialize_unfold [OF \<open>n \<noteq> 0\<close> ds_def] minimal_num_def)
  qed
qed

lemma set_vch_abs_less:
  assumes "length vch \<le> m" "m \<le> 8" "0 < m"
  shows "\<bar>set_vch vch\<bar> < 2 ^ (8 * m - 1)"
proof (cases "vch = []")
  case True
  then show ?thesis by (simp add: set_vch_def)
next
  case False
  let ?k = "8 * length vch - 1"
  have "Suc ?k = 8 * length vch" using False by (cases vch) simp_all
  then have "le_nat vch < 2 ^ Suc ?k"
    using le_nat_less [of vch] by (simp add: power_mult)
  then have "\<not> 128 \<le> unat (last vch) \<Longrightarrow> le_nat vch < 2 ^ ?k"
    "le_nat vch - 2 ^ ?k < 2 ^ ?k"
    using le_nat_top [OF False] by simp_all
  then have "\<bar>set_vch vch\<bar> < int (2 ^ ?k)"
    unfolding set_vch_value [OF False order.trans [OF assms(1,2)]]
    by (cases "128 \<le> unat (last vch)") (simp_all only: of_nat_less_iff abs_minus_cancel abs_of_nat if_True if_False simp_thms)
  also have "\<dots> \<le> 2 ^ (8 * m - 1)"
    using assms by (simp add: power_increasing)
  finally show ?thesis .
qed

lemma serialize_set_vch:
  assumes "minimal_num vch" "length vch \<le> 8"
  shows "serialize (set_vch vch) = vch"
proof (cases "vch = []")
  case True
  then show ?thesis by (simp add: set_vch_def serialize_def)
next
  case False
  define w where "w = butlast vch"
  define L where "L = last vch"
  have v: "vch = w @ [L]" using False by (simp add: w_def L_def)
  have len: "8 * length vch - 1 = 8 * length w + 7" by (simp add: v)
  define n where "n = set_vch vch"
  have n: "n = (if 128 \<le> unat L then - 1 else 1) * int (le_nat (w @ [L AND 0x7f]))"
  proof -
    have p: "(2 :: nat) ^ (8 * length vch - 1) = 128 * 256 ^ length w"
      by (simp add: v power_add power_mult)
    have val: "le_nat vch = le_nat w + 256 ^ length w * unat L" by (simp add: v le_nat_append)
    have sv: "set_vch vch = (if 128 \<le> unat L then - int (le_nat vch - 128 * 256 ^ length w)
        else int (le_nat vch))"
      using set_vch_value [OF False assms(2)] unfolding p L_def [symmetric] .
    show ?thesis
    proof (cases "128 \<le> unat L")
      case True
      then obtain k where k: "unat L = 128 + k" using le_Suc_ex by blast
      then have "unat (L AND 0x7f) = k"
        using unat_byte_less [of L] by (simp add: unat_and_7f)
      then show ?thesis by (simp add: n_def sv val k le_nat_append distrib_left)
    next
      case False
      then have "unat (L AND 0x7f) = unat L" by (simp add: unat_and_7f)
      with False show ?thesis by (simp add: n_def sv val le_nat_append)
    qed
  qed
  show ?thesis
  proof (cases "unat L mod 128 = 0")
    case True
    then have w: "w \<noteq> []" "128 \<le> unat (last w)"
      using assms(1) by (auto simp: minimal_num_def v nth_append last_conv_nth)
    have L: "L = (if 128 \<le> unat L then 0x80 else 0)"
      using True by (auto simp: byte_mod_128 word_unat_eq_iff split: if_splits)
    have "last w \<noteq> 0" using w by auto
    then have d: "le_digits (le_nat w) = w" using w by (intro le_digits_le_nat)
    then have p: "0 < le_nat w" using w by (metis le_digits_eq_Nil_iff neq0_conv)
    have "L AND 0x7f = 0" using True by (simp add: and_7f_eq_0_iff)
    then have n': "n = (if 128 \<le> unat L then - 1 else 1) * int (le_nat w)"
      using n by (simp add: le_nat_append)
    have "serialize n = w @ [if n < 0 then 0x80 else 0]"
      using p w by (subst serialize_unfold [of n w]) (simp_all add: n' d)
    moreover have "n < 0 \<longleftrightarrow> 128 \<le> unat L" using p by (simp add: n')
    ultimately show ?thesis using L by (simp only: v n_def [unfolded v])
  next
    case False
    let ?u = "w @ [L AND 0x7f]"
    have d: "le_digits (le_nat ?u) = ?u"
      using False by (intro le_digits_le_nat) (simp_all add: and_7f_eq_0_iff)
    then have p: "0 < le_nat ?u" by (metis le_digits_eq_Nil_iff neq0_conv snoc_eq_iff_butlast)
    have l: "unat (L AND 0x7f) < 128" by (simp add: unat_and_7f)
    have "(L AND 0x7f) OR 0x80 = L" if "128 \<le> unat L"
    proof -
      have "unat ((L AND 0x7f) OR 0x80) = unat L"
        using or_push_bit_nat [of "unat (L AND 0x7f)" 7 1] that l
        by (simp add: unat_or) (simp add: unat_and_7f byte_mod_128)
      then show ?thesis by (simp add: word_unat_eq_iff)
    qed
    moreover have "L AND 0x7f = L" if "\<not> 128 \<le> unat L"
      using that by (simp add: word_unat_eq_iff unat_and_7f)
    moreover have "serialize n = (if n < 0 then w @ [(L AND 0x7f) OR 0x80] else ?u)"
      using p l by (subst serialize_unfold [of n ?u]) (simp_all add: n d)
    moreover have "n < 0 \<longleftrightarrow> 128 \<le> unat L" using p by (simp add: n)
    ultimately have "serialize n = w @ [L]" by (cases "128 \<le> unat L") simp_all
    then show ?thesis by (simp only: v n_def)
  qed
qed

section \<open>Reading what was pushed\<close>

definition push_opcode_of :: "valtype \<Rightarrow> opcodetype" where
  "push_opcode_of b =
     (if length b < OP_PUSHDATA1 then length b
      else if length b \<le> 0xff then OP_PUSHDATA1
      else if length b \<le> 0xffff then OP_PUSHDATA2 else OP_PUSHDATA4)"

lemma read_operand_append:
  "length pc + length t < 2 ^ 32 \<Longrightarrow> read_operand opcode n pc = Some (pc', opcode', v) \<Longrightarrow>
   read_operand opcode n (pc @ t) = Some (pc' @ t, opcode', v)"
  by (auto simp: read_operand_def split: if_splits)

lemma GetOp2_Nil [simp]: "GetOp2 [] = None"
  by (simp add: GetOp2_def)

lemma GetOp2_append:
  assumes "GetOp2 pc = Some (pc', opcode, v)" "length pc + length t < 2 ^ 32"
  shows "GetOp2 (pc @ t) = Some (pc' @ t, opcode, v)"
proof -
  obtain b pc1 where pc: "pc = b # pc1" using assms(1) by (cases pc) auto
  have k: "take k (pc1 @ t) = take k pc1" "drop k (pc1 @ t) = drop k pc1 @ t"
    "\<not> length (pc1 @ t) < k" if "\<not> length pc1 < k" for k
    using that by simp_all
  have r: "read_operand (unat b) n (drop k pc1 @ t) = Some (pc' @ t, opcode, v)"
    if "read_operand (unat b) n (drop k pc1) = Some (pc', opcode, v)" for n k
    using that assms(2) by (intro read_operand_append) (simp_all add: pc)
  consider "OP_PUSHDATA4 < unat b" | "unat b < OP_PUSHDATA1" | "unat b = OP_PUSHDATA1"
    | "unat b = OP_PUSHDATA2" | "unat b = OP_PUSHDATA4" by linarith
  then show ?thesis
  proof cases
    case 1
    with assms(1) show ?thesis by (simp add: GetOp2_def pc)
  next
    case 2
    with assms(1) r [of _ 0] show ?thesis by (simp add: GetOp2_def pc Let_def)
  next
    case 3
    with assms(1) r [of _ 1] k [of 1] show ?thesis
      by (simp add: GetOp2_def pc split: if_splits del: take_append drop_append)
  next
    case 4
    with assms(1) r [of _ 2] k [of 2] show ?thesis
      by (simp add: GetOp2_def pc split: if_splits del: take_append drop_append)
  next
    case 5
    with assms(1) r [of _ 4] k [of 4] show ?thesis
      by (simp add: GetOp2_def pc split: if_splits del: take_append drop_append)
  qed
qed

lemma read_operand_push:
  "length b + length t < 2 ^ 32 \<Longrightarrow> read_operand opcode (length b) (b @ t) = Some (t, opcode, b)"
  by (simp add: read_operand_def)

lemma GetOp2_push_data:
  assumes "length b + length t < 2 ^ 32"
  shows "GetOp2 (push_data b @ t) = Some (t, push_opcode_of b, b)"
proof -
  have l: "unat (word_of_nat (length b) :: byte) = length b" if "length b < 256"
    using that by (simp add: unat_of_nat)
  have le: "le_nat (le_bytes k (length b)) = length b" if "length b < 256 ^ k" for k
    using that by (rule le_nat_le_bytes)
  show ?thesis
    using assms le [of 2] le [of 4]
    by (auto simp: push_data_def push_opcode_of_def GetOp2_def op_byte_def Let_def l read_operand_push)
qed

lemma GetOp2_opcode:
  assumes "OP_PUSHDATA4 < opcode" "opcode < 256"
  shows "GetOp2 (op_byte opcode # t) = Some (t, opcode, [])"
  using assms by (simp add: GetOp2_def op_byte_def unat_of_nat)

lemma push_data_neq_Nil [simp]: "push_data b \<noteq> []"
  by (simp add: push_data_def)

lemma push_opcode_of_le: "push_opcode_of b \<le> OP_PUSHDATA4"
  by (simp add: push_opcode_of_def)

lemma IsPushOnly_push_data [simp]:
  "length b + length t < 2 ^ 32 \<Longrightarrow> IsPushOnly (push_data b @ t) \<longleftrightarrow> IsPushOnly t"
  using push_opcode_of_le [of b]
  by (subst IsPushOnly.simps) (simp add: GetOp2_push_data)

lemma IsPushOnly_Nil [simp]: "IsPushOnly []"
  by (simp add: IsPushOnly.simps)

lemma last_push_append:
  "IsPushOnly pc \<Longrightarrow> length pc + length t < 2 ^ 32 \<Longrightarrow>
   \<exists>d'. last_push d (pc @ t) = last_push d' t"
proof (induction d pc rule: last_push.induct)
  case (1 data pc)
  show ?case
  proof (cases "pc = []")
    case True
    then show ?thesis by auto
  next
    case False
    with "1.prems" obtain pc' opcode v where g: "GetOp2 pc = Some (pc', opcode, v)"
      "\<not> OP_16 < opcode" "IsPushOnly pc'"
      by (subst (asm) IsPushOnly.simps) (auto split: option.splits)
    then have "GetOp2 (pc @ t) = Some (pc' @ t, opcode, v)"
      using "1.prems" by (intro GetOp2_append) simp_all
    then have "last_push data (pc @ t) = last_push v (pc' @ t)"
      using False g by (subst last_push.simps) simp
    moreover have "\<exists>d'. last_push v (pc' @ t) = last_push d' t"
      using False g "1.prems" GetOp2_shorter [OF g(1)] by (intro "1.IH") simp_all
    ultimately show ?thesis by simp
  qed
qed

lemma last_push_push_data:
  assumes "IsPushOnly pc" "length pc + length (push_data b) < 2 ^ 32"
  shows "last_push d (pc @ push_data b) = Some b"
proof -
  obtain d' where "last_push d (pc @ push_data b) = last_push d' (push_data b)"
    using last_push_append [OF assms] by blast
  also have "\<dots> = last_push b []"
  proof -
    have "length b + length [] < 2 ^ 32" using assms by (simp add: push_data_def split: if_splits)
    from GetOp2_push_data [OF this] show ?thesis
      using push_opcode_of_le [of b] by (subst last_push.simps) simp
  qed
  finally show ?thesis by (simp add: last_push.simps)
qed

section \<open>Signature operation counts\<close>

lemma sigop_weight_le: "sigop_weight fAccurate lastOpcode opcode \<le> 20"
  by (auto simp: sigop_weight_def DecodeOP_N_def)

lemma sigop_weight_accurate_le:
  "sigop_weight True lastOpcode opcode \<le> sigop_weight False lastOpcode' opcode"
  by (auto simp: sigop_weight_def DecodeOP_N_def)

lemma sigops_loop_bound: "sigops_loop fAccurate lastOpcode pc \<le> 20 * length pc"
proof (induction fAccurate lastOpcode pc rule: sigops_loop.induct)
  case (1 fAccurate lastOpcode pc)
  show ?case
  proof (cases "GetOp2 pc")
    case None
    then show ?thesis by (subst sigops_loop.simps) simp
  next
    case (Some r)
    then obtain pc' opcode v where r: "GetOp2 pc = Some (pc', opcode, v)" by (cases r) auto
    have "sigops_loop fAccurate opcode pc' \<le> 20 * length pc'" using r by (intro "1.IH") auto
    moreover have "length pc' < length pc" using r by (rule GetOp2_shorter)
    ultimately show ?thesis
      using sigop_weight_le [of fAccurate lastOpcode opcode] r by (subst sigops_loop.simps) simp
  qed
qed

lemma sigops_loop_accurate_le: "sigops_loop True lastOpcode pc \<le> sigops_loop False lastOpcode' pc"
proof (induction "True" lastOpcode pc arbitrary: lastOpcode' rule: sigops_loop.induct)
  case (1 lastOpcode pc)
  show ?case
    using "1.hyps"
    by (subst (1 2) sigops_loop.simps) (auto split: option.split intro!: add_mono sigop_weight_accurate_le)
qed

lemma sigops_loop_push_only: "IsPushOnly pc \<Longrightarrow> sigops_loop fAccurate lastOpcode pc = 0"
proof (induction fAccurate lastOpcode pc rule: sigops_loop.induct)
  case (1 fAccurate lastOpcode pc)
  show ?case
  proof (cases "GetOp2 pc")
    case None
    then show ?thesis by (subst sigops_loop.simps) simp
  next
    case (Some r)
    then obtain pc' opcode v where r: "GetOp2 pc = Some (pc', opcode, v)" by (cases r) auto
    with "1.prems" have p: "\<not> OP_16 < opcode" "IsPushOnly pc'"
      by (subst (asm) IsPushOnly.simps; auto split: if_splits)+
    moreover have "sigops_loop fAccurate opcode pc' = 0" using r p by (intro "1.IH") auto
    ultimately show ?thesis using r by (subst sigops_loop.simps) (simp add: sigop_weight_def)
  qed
qed

section \<open>Properties\<close>

text \<open>
  C1: the number decoder, asked for minimal encodings, accepts exactly the byte strings that
  \<^verbatim>\<open>serialize\<close> produces, and exactly for the numbers whose magnitude fits the allowed size.
\<close>

theorem CScriptNum_canonical:
  assumes "0 < m" "m \<le> 8"
  shows "CScriptNum vch True m = Some n \<longleftrightarrow> vch = serialize n \<and> \<bar>n\<bar> < 2 ^ (8 * m - 1)"
proof
  assume "CScriptNum vch True m = Some n"
  then show "vch = serialize n \<and> \<bar>n\<bar> < 2 ^ (8 * m - 1)"
    using assms serialize_set_vch [of vch] set_vch_abs_less [of vch m]
    by (simp add: CScriptNum_eq_Some_iff)
next
  assume a: "vch = serialize n \<and> \<bar>n\<bar> < 2 ^ (8 * m - 1)"
  have "(2 :: int) ^ (8 * m - 1) \<le> 2 ^ 63" using assms by (intro power_increasing) simp_all
  with a have "\<bar>n\<bar> < 2 ^ 63" by linarith
  with a show "CScriptNum vch True m = Some n"
    by (simp add: CScriptNum_eq_Some_iff length_serialize minimal_serialize set_vch_serialize)
qed

theorem CScriptNum_canonical_witness:
  "CScriptNum [0xff, 0x80] True 4 = Some (- 255) \<and> serialize (- 255) = [0xff, 0x80]"
proof -
  have "CScriptNum [0xff, 0x80] True 4 = Some (- 255)" by (simp add: CScriptNum_def set_vch_def)
  then show ?thesis using CScriptNum_canonical [of 4 "[0xff, 0x80]" "- 255"] by simp
qed

text \<open>
  C2: a data push is read back as the pushed bytes, whatever follows it in the script, and the
  scanning position ends right behind it. The instruction is a push, so a script of data pushes is
  push-only.
\<close>

theorem script_push_data_roundtrip:
  assumes "length b + length t < 2 ^ 32"
  shows "(\<exists>opcode \<le> OP_PUSHDATA4. GetOp2 (script_push_data [] b @ t) = Some (t, opcode, b))
    \<and> (IsPushOnly (script_push_data [] b @ t) \<longleftrightarrow> IsPushOnly t)"
  using GetOp2_push_data [OF assms] push_opcode_of_le [of b] IsPushOnly_push_data [OF assms]
  by (auto simp: script_push_data_def)

theorem script_push_data_roundtrip_witness:
  "(\<exists>opcode \<le> OP_PUSHDATA4. GetOp2 (script_push_data [] [1, 2, 3] @ [0xac]) =
      Some ([0xac], opcode, [1, 2, 3]))
   \<and> (IsPushOnly (script_push_data [] [1, 2, 3] @ [0xac]) \<longleftrightarrow> IsPushOnly [0xac])"
  using script_push_data_roundtrip [of "[1, 2, 3]" "[0xac]"] by simp

text \<open>
  The signature operations charged to a spend of a pay-to-script-hash output are those of the
  redeem script pushed last, counted accurately. That count never exceeds the legacy count of the
  same script, and neither exceeds 20 per script byte.
\<close>

theorem GetSigOpCount_P2SH_redeem:
  assumes "IsPayToScriptHash scriptPubKey" "IsPushOnly scriptSig"
    "length (script_push_data scriptSig redeem) < 2 ^ 32"
  shows "GetSigOpCount_P2SH scriptPubKey (script_push_data scriptSig redeem) = GetSigOpCount redeem True
    \<and> GetSigOpCount redeem True \<le> GetSigOpCount redeem False
    \<and> GetSigOpCount redeem False \<le> 20 * length redeem"
  using assms sigops_loop_accurate_le sigops_loop_bound
  by (simp add: GetSigOpCount_P2SH_def GetSigOpCount_def script_push_data_def last_push_push_data)

theorem GetSigOpCount_P2SH_redeem_witness:
  "GetSigOpCount_P2SH (0xa9 # 0x14 # replicate 20 0 @ [0x87]) (script_push_data [0x00] [0x51, 0xac])
     = GetSigOpCount [0x51, 0xac] True"
proof -
  have "IsPayToScriptHash (0xa9 # 0x14 # replicate 20 0 @ [0x87])" by code_simp
  moreover have "IsPushOnly [0x00]" by code_simp
  ultimately show ?thesis
    using GetSigOpCount_P2SH_redeem [of "0xa9 # 0x14 # replicate 20 0 @ [0x87]" "[0x00]" "[0x51, 0xac]"]
    by (simp add: script_push_data_def push_data_def)
qed

end
