(* ===== verification/Interpreter.thy ===== *)
theory Interpreter
  imports Script
begin

text \<open>
  The script interpreter, \<^verbatim>\<open>EvalScript\<close> of \<^verbatim>\<open>src/src/script/interpreter.cpp\<close>, with
  the encoding checks it calls. Stacks are lists whose head is the top
  (\<^verbatim>\<open>stacktop(-1)\<close>), and so is \<^verbatim>\<open>vfExec\<close>. The hash functions, the curve's low-S test
  and the signature checker are the operations of two records the interpreter is given. An outcome \<open>Err e\<close>
  is \<^verbatim>\<open>return false\<close> with \<^verbatim>\<open>serror\<close> set to \<open>e\<close>, \<open>Throw\<close> is an exception
  that has not been caught yet and \<open>Abort\<close> a failed assertion or a signed overflow.
\<close>

section \<open>Errors, flags and the interpreter's environment\<close>

datatype ScriptError =
    SCRIPT_ERR_OK
  | SCRIPT_ERR_UNKNOWN_ERROR
  | SCRIPT_ERR_EVAL_FALSE
  | SCRIPT_ERR_OP_RETURN
  | SCRIPT_ERR_SCRIPT_SIZE
  | SCRIPT_ERR_PUSH_SIZE
  | SCRIPT_ERR_OP_COUNT
  | SCRIPT_ERR_STACK_SIZE
  | SCRIPT_ERR_SIG_COUNT
  | SCRIPT_ERR_PUBKEY_COUNT
  | SCRIPT_ERR_VERIFY
  | SCRIPT_ERR_EQUALVERIFY
  | SCRIPT_ERR_CHECKMULTISIGVERIFY
  | SCRIPT_ERR_CHECKSIGVERIFY
  | SCRIPT_ERR_NUMEQUALVERIFY
  | SCRIPT_ERR_BAD_OPCODE
  | SCRIPT_ERR_DISABLED_OPCODE
  | SCRIPT_ERR_INVALID_STACK_OPERATION
  | SCRIPT_ERR_INVALID_ALTSTACK_OPERATION
  | SCRIPT_ERR_UNBALANCED_CONDITIONAL
  | SCRIPT_ERR_NEGATIVE_LOCKTIME
  | SCRIPT_ERR_UNSATISFIED_LOCKTIME
  | SCRIPT_ERR_SIG_HASHTYPE
  | SCRIPT_ERR_SIG_DER
  | SCRIPT_ERR_MINIMALDATA
  | SCRIPT_ERR_SIG_PUSHONLY
  | SCRIPT_ERR_SIG_HIGH_S
  | SCRIPT_ERR_SIG_NULLDUMMY
  | SCRIPT_ERR_PUBKEYTYPE
  | SCRIPT_ERR_CLEANSTACK
  | SCRIPT_ERR_MINIMALIF
  | SCRIPT_ERR_SIG_NULLFAIL
  | SCRIPT_ERR_DISCOURAGE_UPGRADABLE_NOPS
  | SCRIPT_ERR_DISCOURAGE_UPGRADABLE_WITNESS_PROGRAM
  | SCRIPT_ERR_WITNESS_PROGRAM_WRONG_LENGTH
  | SCRIPT_ERR_WITNESS_PROGRAM_WITNESS_EMPTY
  | SCRIPT_ERR_WITNESS_PROGRAM_MISMATCH
  | SCRIPT_ERR_WITNESS_MALLEATED
  | SCRIPT_ERR_WITNESS_MALLEATED_P2SH
  | SCRIPT_ERR_WITNESS_UNEXPECTED
  | SCRIPT_ERR_WITNESS_PUBKEYTYPE
  | SCRIPT_ERR_SEGWIT_LOCKED
  | SCRIPT_ERR_ERROR_COUNT

abbreviation (input) SIGHASH_ALL :: uint32 where "SIGHASH_ALL \<equiv> 0x1"
abbreviation (input) SIGHASH_NONE :: uint32 where "SIGHASH_NONE \<equiv> 0x2"
abbreviation (input) SIGHASH_SINGLE :: uint32 where "SIGHASH_SINGLE \<equiv> 0x3"
abbreviation (input) SIGHASH_FORKID :: uint32 where "SIGHASH_FORKID \<equiv> 0x40"
abbreviation (input) SIGHASH_ANYONECANPAY :: uint32 where "SIGHASH_ANYONECANPAY \<equiv> 0x80"

abbreviation (input) SCRIPT_VERIFY_NONE :: uint32 where "SCRIPT_VERIFY_NONE \<equiv> 0x0"
abbreviation (input) SCRIPT_VERIFY_P2SH :: uint32 where "SCRIPT_VERIFY_P2SH \<equiv> 0x1"
abbreviation (input) SCRIPT_VERIFY_STRICTENC :: uint32 where "SCRIPT_VERIFY_STRICTENC \<equiv> 0x2"
abbreviation (input) SCRIPT_VERIFY_LOW_S :: uint32 where "SCRIPT_VERIFY_LOW_S \<equiv> 0x8"
abbreviation (input) SCRIPT_VERIFY_NULLDUMMY :: uint32 where "SCRIPT_VERIFY_NULLDUMMY \<equiv> 0x10"
abbreviation (input) SCRIPT_VERIFY_SIGPUSHONLY :: uint32 where "SCRIPT_VERIFY_SIGPUSHONLY \<equiv> 0x20"
abbreviation (input) SCRIPT_VERIFY_MINIMALDATA :: uint32 where "SCRIPT_VERIFY_MINIMALDATA \<equiv> 0x40"
abbreviation (input) SCRIPT_VERIFY_DISCOURAGE_UPGRADABLE_NOPS :: uint32 where "SCRIPT_VERIFY_DISCOURAGE_UPGRADABLE_NOPS \<equiv> 0x80"
abbreviation (input) SCRIPT_VERIFY_CLEANSTACK :: uint32 where "SCRIPT_VERIFY_CLEANSTACK \<equiv> 0x100"
abbreviation (input) SCRIPT_VERIFY_CHECKLOCKTIMEVERIFY :: uint32 where "SCRIPT_VERIFY_CHECKLOCKTIMEVERIFY \<equiv> 0x200"
abbreviation (input) SCRIPT_VERIFY_CHECKSEQUENCEVERIFY :: uint32 where "SCRIPT_VERIFY_CHECKSEQUENCEVERIFY \<equiv> 0x400"
abbreviation (input) SCRIPT_VERIFY_WITNESS :: uint32 where "SCRIPT_VERIFY_WITNESS \<equiv> 0x800"
abbreviation (input) SCRIPT_VERIFY_DISCOURAGE_UPGRADABLE_WITNESS_PROGRAM :: uint32 where "SCRIPT_VERIFY_DISCOURAGE_UPGRADABLE_WITNESS_PROGRAM \<equiv> 0x1000"
abbreviation (input) SCRIPT_VERIFY_MINIMALIF :: uint32 where "SCRIPT_VERIFY_MINIMALIF \<equiv> 0x2000"
abbreviation (input) SCRIPT_VERIFY_NULLFAIL :: uint32 where "SCRIPT_VERIFY_NULLFAIL \<equiv> 0x4000"
abbreviation (input) SCRIPT_VERIFY_WITNESS_PUBKEYTYPE :: uint32 where "SCRIPT_VERIFY_WITNESS_PUBKEYTYPE \<equiv> 0x8000"
abbreviation (input) SCRIPT_VERIFY_FORKID :: uint32 where "SCRIPT_VERIFY_FORKID \<equiv> 0x10000"

definition has_flag :: "uint32 \<Rightarrow> uint32 \<Rightarrow> bool" where
  "has_flag flags f \<longleftrightarrow> flags AND f \<noteq> 0"

text \<open>The virtual methods of \<^verbatim>\<open>BaseSignatureChecker\<close>.\<close>

record sig_checker =
  CheckSig :: "valtype \<Rightarrow> valtype \<Rightarrow> CScript \<Rightarrow> uint32 \<Rightarrow> bool"
  CheckLockTime :: "int \<Rightarrow> bool"

definition BaseSignatureChecker :: sig_checker where
  "BaseSignatureChecker = \<lparr> CheckSig = \<lambda>_ _ _ _. False, CheckLockTime = \<lambda>_. False \<rparr>"

text \<open>The hash functions and the curve operation the interpreter calls.\<close>

record crypto_env =
  RIPEMD160 :: "valtype \<Rightarrow> valtype"
  SHA1 :: "valtype \<Rightarrow> valtype"
  SHA256 :: "valtype \<Rightarrow> valtype"
  CheckLowS :: "valtype \<Rightarrow> bool"

definition CHash160 :: "crypto_env \<Rightarrow> valtype \<Rightarrow> valtype" where
  "CHash160 env v = RIPEMD160 env (SHA256 env v)"

definition CHash256 :: "crypto_env \<Rightarrow> valtype \<Rightarrow> valtype" where
  "CHash256 env v = SHA256 env (SHA256 env v)"

section \<open>Encodings\<close>

fun CastToBool :: "valtype \<Rightarrow> bool" where
  "CastToBool [] = False"
| "CastToBool (b # bs) =
     (if b \<noteq> 0 then \<not> (bs = [] \<and> b = 0x80) else CastToBool bs)"

definition IsCompressedOrUncompressedPubKey :: "valtype \<Rightarrow> bool" where
  "IsCompressedOrUncompressedPubKey vchPubKey =
     (if length vchPubKey < 33 then False
      else if vchPubKey ! 0 = 0x04 then length vchPubKey = 65
      else if vchPubKey ! 0 = 0x02 \<or> vchPubKey ! 0 = 0x03 then length vchPubKey = 33
      else False)"

definition IsValidSignatureEncoding :: "valtype \<Rightarrow> bool" where
  "IsValidSignatureEncoding sig =
     (if length sig < 9 then False
      else if 73 < length sig then False
      else if sig ! 0 \<noteq> 0x30 then False
      else if unat (sig ! 1) \<noteq> length sig - 3 then False
      else let lenR = unat (sig ! 3) in
        if length sig \<le> 5 + lenR then False
        else let lenS = unat (sig ! (5 + lenR)) in
          if lenR + lenS + 7 \<noteq> length sig then False
          else if sig ! 2 \<noteq> 0x02 then False
          else if lenR = 0 then False
          else if sig ! 4 AND 0x80 \<noteq> 0 then False
          else if 1 < lenR \<and> sig ! 4 = 0 \<and> \<not> sig ! 5 AND 0x80 \<noteq> 0 then False
          else if sig ! (lenR + 4) \<noteq> 0x02 then False
          else if lenS = 0 then False
          else if sig ! (lenR + 6) AND 0x80 \<noteq> 0 then False
          else if 1 < lenS \<and> sig ! (lenR + 6) = 0 \<and> \<not> sig ! (lenR + 7) AND 0x80 \<noteq> 0 then False
          else True)"

definition GetHashType :: "valtype \<Rightarrow> uint32" where
  "GetHashType vchSig = (if length vchSig = 0 then 0 else ucast (last vchSig))"

text \<open>
  The checks that may write \<^verbatim>\<open>serror\<close> return the boolean with the value
  \<^verbatim>\<open>*serror\<close> has afterwards; a false \<^verbatim>\<open>CheckLowS\<close> leaves it as it was.
\<close>

definition IsLowDERSignature :: "crypto_env \<Rightarrow> valtype \<Rightarrow> ScriptError \<Rightarrow> bool \<times> ScriptError" where
  "IsLowDERSignature env vchSig serror =
     (if \<not> IsValidSignatureEncoding vchSig then (False, SCRIPT_ERR_SIG_DER)
      else (CheckLowS env (butlast vchSig), serror))"

definition IsDefinedHashtypeSignature :: "valtype \<Rightarrow> bool" where
  "IsDefinedHashtypeSignature vchSig =
     (if length vchSig = 0 then False
      else let nHashType = ucast (GetHashType vchSig AND NOT (SIGHASH_ANYONECANPAY OR SIGHASH_FORKID)) :: byte
        in if nHashType < 1 \<or> 3 < nHashType then False else True)"

definition UsesForkId_type :: "uint32 \<Rightarrow> bool" where
  "UsesForkId_type nHashType \<longleftrightarrow> nHashType AND SIGHASH_FORKID \<noteq> 0"

definition UsesForkId :: "valtype \<Rightarrow> bool" where
  "UsesForkId vchSig = UsesForkId_type (GetHashType vchSig)"

definition CheckSignatureEncoding ::
  "crypto_env \<Rightarrow> valtype \<Rightarrow> uint32 \<Rightarrow> ScriptError \<Rightarrow> bool \<times> ScriptError" where
  "CheckSignatureEncoding env vchSig flags serror =
     (if length vchSig = 0 then (True, serror)
      else if \<not> IsValidSignatureEncoding vchSig then (False, SCRIPT_ERR_SIG_DER)
      else if has_flag flags SCRIPT_VERIFY_LOW_S \<and> \<not> fst (IsLowDERSignature env vchSig serror)
        then (False, snd (IsLowDERSignature env vchSig serror))
      else if has_flag flags SCRIPT_VERIFY_STRICTENC \<and> \<not> IsDefinedHashtypeSignature vchSig
        then (False, SCRIPT_ERR_SIG_HASHTYPE)
      else if has_flag flags SCRIPT_VERIFY_FORKID \<and> \<not> UsesForkId vchSig
        then (False, SCRIPT_ERR_SIG_HASHTYPE)
      else (True, serror))"

definition CheckPubKeyEncoding :: "valtype \<Rightarrow> uint32 \<Rightarrow> ScriptError \<Rightarrow> bool \<times> ScriptError" where
  "CheckPubKeyEncoding vchPubKey flags serror =
     (if has_flag flags SCRIPT_VERIFY_STRICTENC \<and> \<not> IsCompressedOrUncompressedPubKey vchPubKey
      then (False, SCRIPT_ERR_PUBKEYTYPE) else (True, serror))"

definition CheckMinimalPush :: "valtype \<Rightarrow> opcodetype \<Rightarrow> bool" where
  "CheckMinimalPush data opcode =
     (if length data = 0 then opcode = OP_0
      else if length data = 1 \<and> 1 \<le> data ! 0 \<and> data ! 0 \<le> 16 then opcode = OP_1 + (unat (data ! 0) - 1)
      else if length data = 1 \<and> data ! 0 = 0x81 then opcode = OP_1NEGATE
      else if length data \<le> 75 then opcode = length data
      else if length data \<le> 255 then opcode = OP_PUSHDATA1
      else if length data \<le> 65535 then opcode = OP_PUSHDATA2
      else True)"

text \<open>The encoding checks in front of every \<^verbatim>\<open>CheckSig\<close> call: \<open>Err\<close> when one returns false.\<close>

definition check_encodings ::
  "crypto_env \<Rightarrow> uint32 \<Rightarrow> valtype \<Rightarrow> valtype \<Rightarrow> (ScriptError, unit) outcome" where
  "check_encodings env flags vchSig vchPubKey =
     (let (sigOk, serror) = CheckSignatureEncoding env vchSig flags SCRIPT_ERR_UNKNOWN_ERROR in
      if \<not> sigOk then Err serror
      else let (keyOk, serror') = CheckPubKeyEncoding vchPubKey flags serror in
        if \<not> keyOk then Err serror' else Ok ())"

section \<open>The machine\<close>

record eval_state =
  stack :: "valtype list"
  altstack :: "valtype list"
  vfExec :: "bool list"
  nOpCount :: nat

type_synonym eval_result = "(ScriptError, eval_state) outcome"

abbreviation (input) vchFalse :: valtype where "vchFalse \<equiv> []"
abbreviation (input) vchTrue :: valtype where "vchTrue \<equiv> [1]"

definition bool_vch :: "bool \<Rightarrow> valtype" where
  "bool_vch b = (if b then vchTrue else vchFalse)"

definition bad_stack :: eval_result where
  "bad_stack = Err SCRIPT_ERR_INVALID_STACK_OPERATION"

definition push :: "valtype \<Rightarrow> eval_state \<Rightarrow> eval_state" where
  "push v s = s\<lparr>stack := v # stack s\<rparr>"

definition requires_minimal :: "uint32 \<Rightarrow> bool" where
  "requires_minimal flags = has_flag flags SCRIPT_VERIFY_MINIMALDATA"

text \<open>\<^verbatim>\<open>CScriptNum bn(vch, fRequireMinimal)\<close>, with the default size.\<close>

definition num_of :: "uint32 \<Rightarrow> valtype \<Rightarrow> ('e, int) outcome" where
  "num_of flags vch = or_throw (CScriptNum vch (requires_minimal flags) nDefaultMaxNumSize)"

subsection \<open>Push value and control\<close>

definition exec_push_num :: "opcodetype \<Rightarrow> eval_state \<Rightarrow> eval_result" where
  "exec_push_num opcode s = Ok (push (serialize (int opcode - (int OP_1 - 1))) s)"

definition discourage_nops :: "uint32 \<Rightarrow> eval_state \<Rightarrow> eval_result" where
  "discourage_nops flags s =
     (if has_flag flags SCRIPT_VERIFY_DISCOURAGE_UPGRADABLE_NOPS
      then Err SCRIPT_ERR_DISCOURAGE_UPGRADABLE_NOPS else Ok s)"

definition exec_CHECKLOCKTIMEVERIFY :: "sig_checker \<Rightarrow> uint32 \<Rightarrow> eval_state \<Rightarrow> eval_result" where
  "exec_CHECKLOCKTIMEVERIFY chk flags s =
     (if \<not> has_flag flags SCRIPT_VERIFY_CHECKLOCKTIMEVERIFY then discourage_nops flags s
      else case stack s of
        [] \<Rightarrow> bad_stack
      | vch # _ \<Rightarrow>
          rbind (or_throw (CScriptNum vch (requires_minimal flags) 5)) (\<lambda>nLockTime.
          if nLockTime < 0 then Err SCRIPT_ERR_NEGATIVE_LOCKTIME
          else if \<not> CheckLockTime chk nLockTime then Err SCRIPT_ERR_UNSATISFIED_LOCKTIME
          else Ok s))"

definition exec_NOP5 :: "uint32 \<Rightarrow> eval_state \<Rightarrow> eval_result" where
  "exec_NOP5 flags s =
     (if length (stack s) = 2 then Ok (s\<lparr>stack := drop 2 (stack s)\<rparr>)
      else discourage_nops flags s)"

definition exec_IF :: "bool \<Rightarrow> opcodetype \<Rightarrow> eval_state \<Rightarrow> eval_result" where
  "exec_IF fExec opcode s =
     (if fExec then
        (case stack s of
           [] \<Rightarrow> Err SCRIPT_ERR_UNBALANCED_CONDITIONAL
         | vch # st \<Rightarrow>
             let fValue = CastToBool vch;
                 fValue' = (if opcode = OP_NOTIF then \<not> fValue else fValue)
             in Ok (s\<lparr>stack := st, vfExec := fValue' # vfExec s\<rparr>))
      else Ok (s\<lparr>vfExec := False # vfExec s\<rparr>))"

definition exec_ELSE :: "eval_state \<Rightarrow> eval_result" where
  "exec_ELSE s =
     (case vfExec s of
        [] \<Rightarrow> Err SCRIPT_ERR_UNBALANCED_CONDITIONAL
      | b # bs \<Rightarrow> Ok (s\<lparr>vfExec := (\<not> b) # bs\<rparr>))"

definition exec_ENDIF :: "eval_state \<Rightarrow> eval_result" where
  "exec_ENDIF s =
     (case vfExec s of
        [] \<Rightarrow> Err SCRIPT_ERR_UNBALANCED_CONDITIONAL
      | b # bs \<Rightarrow> Ok (s\<lparr>vfExec := bs\<rparr>))"

definition exec_VERIFY :: "eval_state \<Rightarrow> eval_result" where
  "exec_VERIFY s =
     (case stack s of
        [] \<Rightarrow> bad_stack
      | vch # st \<Rightarrow> if CastToBool vch then Ok (s\<lparr>stack := st\<rparr>) else Err SCRIPT_ERR_VERIFY)"

subsection \<open>Stack operations\<close>

definition exec_TOALTSTACK :: "eval_state \<Rightarrow> eval_result" where
  "exec_TOALTSTACK s =
     (case stack s of
        [] \<Rightarrow> bad_stack
      | x # st \<Rightarrow> Ok (s\<lparr>stack := st, altstack := x # altstack s\<rparr>))"

definition exec_FROMALTSTACK :: "eval_state \<Rightarrow> eval_result" where
  "exec_FROMALTSTACK s =
     (case altstack s of
        [] \<Rightarrow> Err SCRIPT_ERR_INVALID_ALTSTACK_OPERATION
      | x # ast \<Rightarrow> Ok (s\<lparr>stack := x # stack s, altstack := ast\<rparr>))"

text \<open>The operations that only rearrange the main stack.\<close>

definition exec_2DROP :: "eval_state \<Rightarrow> eval_result" where
  "exec_2DROP s =
     (case stack s of
        x2 # x1 # st \<Rightarrow> Ok (s\<lparr>stack := st\<rparr>)
      | _ \<Rightarrow> bad_stack)"

definition exec_2DUP :: "eval_state \<Rightarrow> eval_result" where
  "exec_2DUP s =
     (case stack s of
        x2 # x1 # st \<Rightarrow> Ok (s\<lparr>stack := x2 # x1 # x2 # x1 # st\<rparr>)
      | _ \<Rightarrow> bad_stack)"

definition exec_3DUP :: "eval_state \<Rightarrow> eval_result" where
  "exec_3DUP s =
     (case stack s of
        x3 # x2 # x1 # st \<Rightarrow> Ok (s\<lparr>stack := x3 # x2 # x1 # x3 # x2 # x1 # st\<rparr>)
      | _ \<Rightarrow> bad_stack)"

definition exec_2OVER :: "eval_state \<Rightarrow> eval_result" where
  "exec_2OVER s =
     (case stack s of
        x4 # x3 # x2 # x1 # st \<Rightarrow> Ok (s\<lparr>stack := x2 # x1 # x4 # x3 # x2 # x1 # st\<rparr>)
      | _ \<Rightarrow> bad_stack)"

definition exec_2ROT :: "eval_state \<Rightarrow> eval_result" where
  "exec_2ROT s =
     (case stack s of
        x6 # x5 # x4 # x3 # x2 # x1 # st \<Rightarrow> Ok (s\<lparr>stack := x2 # x1 # x6 # x5 # x4 # x3 # st\<rparr>)
      | _ \<Rightarrow> bad_stack)"

definition exec_2SWAP :: "eval_state \<Rightarrow> eval_result" where
  "exec_2SWAP s =
     (case stack s of
        x4 # x3 # x2 # x1 # st \<Rightarrow> Ok (s\<lparr>stack := x2 # x1 # x4 # x3 # st\<rparr>)
      | _ \<Rightarrow> bad_stack)"

definition exec_IFDUP :: "eval_state \<Rightarrow> eval_result" where
  "exec_IFDUP s =
     (case stack s of
        x # st \<Rightarrow> Ok (if CastToBool x then push x s else s)
      | _ \<Rightarrow> bad_stack)"

definition exec_DROP :: "eval_state \<Rightarrow> eval_result" where
  "exec_DROP s =
     (case stack s of
        x # st \<Rightarrow> Ok (s\<lparr>stack := st\<rparr>)
      | _ \<Rightarrow> bad_stack)"

definition exec_DUP :: "eval_state \<Rightarrow> eval_result" where
  "exec_DUP s =
     (case stack s of
        x # st \<Rightarrow> Ok (s\<lparr>stack := x # x # st\<rparr>)
      | _ \<Rightarrow> bad_stack)"

definition exec_NIP :: "eval_state \<Rightarrow> eval_result" where
  "exec_NIP s =
     (case stack s of
        x2 # x1 # st \<Rightarrow> Ok (s\<lparr>stack := x2 # st\<rparr>)
      | _ \<Rightarrow> bad_stack)"

definition exec_OVER :: "eval_state \<Rightarrow> eval_result" where
  "exec_OVER s =
     (case stack s of
        x2 # x1 # st \<Rightarrow> Ok (s\<lparr>stack := x1 # x2 # x1 # st\<rparr>)
      | _ \<Rightarrow> bad_stack)"

definition exec_ROT :: "eval_state \<Rightarrow> eval_result" where
  "exec_ROT s =
     (case stack s of
        x3 # x2 # x1 # st \<Rightarrow> Ok (s\<lparr>stack := x1 # x3 # x2 # st\<rparr>)
      | _ \<Rightarrow> bad_stack)"

definition exec_SWAP :: "eval_state \<Rightarrow> eval_result" where
  "exec_SWAP s =
     (case stack s of
        x2 # x1 # st \<Rightarrow> Ok (s\<lparr>stack := x1 # x2 # st\<rparr>)
      | _ \<Rightarrow> bad_stack)"

definition exec_TUCK :: "eval_state \<Rightarrow> eval_result" where
  "exec_TUCK s =
     (case stack s of
        x2 # x1 # st \<Rightarrow> Ok (s\<lparr>stack := x2 # x1 # x2 # st\<rparr>)
      | _ \<Rightarrow> bad_stack)"

definition exec_DEPTH :: "eval_state \<Rightarrow> eval_result" where
  "exec_DEPTH s = Ok (push (serialize (int (length (stack s)))) s)"

definition exec_PICK :: "uint32 \<Rightarrow> opcodetype \<Rightarrow> eval_state \<Rightarrow> eval_result" where
  "exec_PICK flags opcode s =
     (if length (stack s) < 2 then bad_stack
      else rbind (num_of flags (hd (stack s))) (\<lambda>bn.
        let n = getint bn;
            st = tl (stack s)
        in if n < 0 \<or> int (length st) \<le> n then bad_stack
           else let vch = st ! nat n;
                    st' = (if opcode = OP_ROLL then take (nat n) st @ drop (Suc (nat n)) st else st)
             in Ok (s\<lparr>stack := vch # st'\<rparr>)))"

definition exec_SIZE :: "eval_state \<Rightarrow> eval_result" where
  "exec_SIZE s =
     (case stack s of
        [] \<Rightarrow> bad_stack
      | x # _ \<Rightarrow> Ok (push (serialize (int (length x))) s))"

subsection \<open>Comparison and numbers\<close>

definition exec_EQUAL :: "opcodetype \<Rightarrow> eval_state \<Rightarrow> eval_result" where
  "exec_EQUAL opcode s =
     (case stack s of
        x2 # x1 # st \<Rightarrow>
          if opcode = OP_EQUALVERIFY then
            (if x1 = x2 then Ok (s\<lparr>stack := st\<rparr>) else Err SCRIPT_ERR_EQUALVERIFY)
          else Ok (s\<lparr>stack := bool_vch (x1 = x2) # st\<rparr>)
      | _ \<Rightarrow> bad_stack)"

definition unary_result :: "opcodetype \<Rightarrow> int \<Rightarrow> ('e, int) outcome" where
  "unary_result opcode bn =
     (if opcode = OP_1ADD then num_add_assign bn 1
      else if opcode = OP_1SUB then num_sub_assign bn 1
      else if opcode = OP_NEGATE then num_neg bn
      else if opcode = OP_ABS then (if bn < 0 then num_neg bn else Ok bn)
      else if opcode = OP_NOT then Ok (of_bool (bn = 0))
      else if opcode = OP_0NOTEQUAL then Ok (of_bool (bn \<noteq> 0))
      else Abort)"

definition exec_unary :: "uint32 \<Rightarrow> opcodetype \<Rightarrow> eval_state \<Rightarrow> eval_result" where
  "exec_unary flags opcode s =
     (case stack s of
        [] \<Rightarrow> bad_stack
      | x # st \<Rightarrow>
          rbind (num_of flags x) (\<lambda>bn.
          rbind (unary_result opcode bn) (\<lambda>r.
          Ok (s\<lparr>stack := serialize r # st\<rparr>))))"

definition binary_result :: "opcodetype \<Rightarrow> int \<Rightarrow> int \<Rightarrow> ('e, int) outcome" where
  "binary_result opcode bn1 bn2 =
     (if opcode = OP_ADD then num_add bn1 bn2
      else if opcode = OP_SUB then num_sub bn1 bn2
      else if opcode = OP_BOOLAND then Ok (of_bool (bn1 \<noteq> 0 \<and> bn2 \<noteq> 0))
      else if opcode = OP_BOOLOR then Ok (of_bool (bn1 \<noteq> 0 \<or> bn2 \<noteq> 0))
      else if opcode = OP_NUMEQUAL then Ok (of_bool (bn1 = bn2))
      else if opcode = OP_NUMEQUALVERIFY then Ok (of_bool (bn1 = bn2))
      else if opcode = OP_NUMNOTEQUAL then Ok (of_bool (bn1 \<noteq> bn2))
      else if opcode = OP_LESSTHAN then Ok (of_bool (bn1 < bn2))
      else if opcode = OP_GREATERTHAN then Ok (of_bool (bn1 > bn2))
      else if opcode = OP_LESSTHANOREQUAL then Ok (of_bool (bn1 \<le> bn2))
      else if opcode = OP_GREATERTHANOREQUAL then Ok (of_bool (bn1 \<ge> bn2))
      else if opcode = OP_MIN then Ok (if bn1 < bn2 then bn1 else bn2)
      else if opcode = OP_MAX then Ok (if bn1 > bn2 then bn1 else bn2)
      else Abort)"

definition exec_binary :: "uint32 \<Rightarrow> opcodetype \<Rightarrow> eval_state \<Rightarrow> eval_result" where
  "exec_binary flags opcode s =
     (case stack s of
        x2 # x1 # st \<Rightarrow>
          rbind (num_of flags x1) (\<lambda>bn1.
          rbind (num_of flags x2) (\<lambda>bn2.
          rbind (binary_result opcode bn1 bn2) (\<lambda>bn.
          if opcode = OP_NUMEQUALVERIFY then
            (if CastToBool (serialize bn) then Ok (s\<lparr>stack := st\<rparr>)
             else Err SCRIPT_ERR_NUMEQUALVERIFY)
          else Ok (s\<lparr>stack := serialize bn # st\<rparr>))))
      | _ \<Rightarrow> bad_stack)"

definition exec_WITHIN :: "uint32 \<Rightarrow> eval_state \<Rightarrow> eval_result" where
  "exec_WITHIN flags s =
     (case stack s of
        x3 # x2 # x1 # st \<Rightarrow>
          rbind (num_of flags x1) (\<lambda>bn1.
          rbind (num_of flags x2) (\<lambda>bn2.
          rbind (num_of flags x3) (\<lambda>bn3.
          Ok (s\<lparr>stack := bool_vch (bn2 \<le> bn1 \<and> bn1 < bn3) # st\<rparr>))))
      | _ \<Rightarrow> bad_stack)"

subsection \<open>Crypto\<close>

definition exec_HASH :: "crypto_env \<Rightarrow> opcodetype \<Rightarrow> eval_state \<Rightarrow> eval_result" where
  "exec_HASH env opcode s =
     (case stack s of
        [] \<Rightarrow> bad_stack
      | vch # st \<Rightarrow>
          Ok (s\<lparr>stack :=
            (if opcode = OP_RIPEMD160 then RIPEMD160 env vch
             else if opcode = OP_SHA1 then SHA1 env vch
             else if opcode = OP_SHA256 then SHA256 env vch
             else if opcode = OP_HASH160 then CHash160 env vch
             else CHash256 env vch) # st\<rparr>))"

definition exec_CHECKSIG ::
  "crypto_env \<Rightarrow> sig_checker \<Rightarrow> uint32 \<Rightarrow> CScript \<Rightarrow> opcodetype \<Rightarrow> eval_state \<Rightarrow> eval_result" where
  "exec_CHECKSIG env chk flags script opcode s =
     (case stack s of
        vchPubKey # vchSig # st \<Rightarrow>
          rbind (check_encodings env flags vchSig vchPubKey) (\<lambda>_.
          let fSuccess = CheckSig chk vchSig vchPubKey script flags in
          if \<not> fSuccess \<and> has_flag flags SCRIPT_VERIFY_NULLFAIL \<and> length vchSig \<noteq> 0
          then Err SCRIPT_ERR_SIG_NULLFAIL
          else if opcode = OP_CHECKSIGVERIFY then
            (if fSuccess then Ok (s\<lparr>stack := st\<rparr>) else Err SCRIPT_ERR_CHECKSIGVERIFY)
          else Ok (s\<lparr>stack := bool_vch fSuccess # st\<rparr>))
      | _ \<Rightarrow> bad_stack)"

text \<open>
  The signature loop of \<^verbatim>\<open>OP_CHECKMULTISIG\<close>: \<open>sigs\<close> are the signatures from
  \<^verbatim>\<open>isig\<close> on, \<open>keys\<close> the keys from \<^verbatim>\<open>ikey\<close> on. The loop ends as soon as more
  signatures than keys are left, so it never meets a signature without a key.
\<close>

fun multisig_loop ::
  "crypto_env \<Rightarrow> sig_checker \<Rightarrow> uint32 \<Rightarrow> CScript \<Rightarrow> valtype list \<Rightarrow> valtype list \<Rightarrow>
   (ScriptError, bool) outcome" where
  "multisig_loop env chk flags script [] keys = Ok True"
| "multisig_loop env chk flags script (vchSig # sigs) [] = Ok False"
| "multisig_loop env chk flags script (vchSig # sigs) (vchPubKey # keys) =
     rbind (check_encodings env flags vchSig vchPubKey) (\<lambda>_.
     let fOk = CheckSig chk vchSig vchPubKey script flags;
         sigs' = (if fOk then sigs else vchSig # sigs)
     in if length keys < length sigs' then Ok False
        else multisig_loop env chk flags script sigs' keys)"

text \<open>The clean-up loop: \<open>n\<close> is the number of rounds left.\<close>

fun multisig_cleanup ::
  "uint32 \<Rightarrow> bool \<Rightarrow> nat \<Rightarrow> nat \<Rightarrow> valtype list \<Rightarrow> (ScriptError, valtype list) outcome" where
  "multisig_cleanup flags fSuccess 0 ikey2 st = Ok st"
| "multisig_cleanup flags fSuccess (Suc n) ikey2 [] = Throw"
| "multisig_cleanup flags fSuccess (Suc n) ikey2 (x # st) =
     (if \<not> fSuccess \<and> has_flag flags SCRIPT_VERIFY_NULLFAIL \<and> ikey2 = 0 \<and> length x \<noteq> 0
      then Err SCRIPT_ERR_SIG_NULLFAIL
      else multisig_cleanup flags fSuccess n (ikey2 - 1) st)"

lemma multisig_cleanup_code [code]:
  "multisig_cleanup flags fSuccess n ikey2 st =
     (if n = 0 then Ok st
      else case st of
        [] \<Rightarrow> Throw
      | x # st' \<Rightarrow>
          if \<not> fSuccess \<and> has_flag flags SCRIPT_VERIFY_NULLFAIL \<and> ikey2 = 0 \<and> length x \<noteq> 0
          then Err SCRIPT_ERR_SIG_NULLFAIL
          else multisig_cleanup flags fSuccess (n - 1) (ikey2 - 1) st')"
  by (cases n; cases st) simp_all

definition multisig_finish ::
  "uint32 \<Rightarrow> opcodetype \<Rightarrow> bool \<Rightarrow> eval_state \<Rightarrow> valtype list \<Rightarrow> eval_result" where
  "multisig_finish flags opcode fSuccess s st =
     (case st of
        [] \<Rightarrow> bad_stack
      | dummy # st' \<Rightarrow>
          if has_flag flags SCRIPT_VERIFY_NULLDUMMY \<and> length dummy \<noteq> 0
          then Err SCRIPT_ERR_SIG_NULLDUMMY
          else if opcode = OP_CHECKMULTISIGVERIFY then
            (if fSuccess then Ok (s\<lparr>stack := st'\<rparr>) else Err SCRIPT_ERR_CHECKMULTISIGVERIFY)
          else Ok (s\<lparr>stack := bool_vch fSuccess # st'\<rparr>))"

definition exec_CHECKMULTISIG ::
  "crypto_env \<Rightarrow> sig_checker \<Rightarrow> uint32 \<Rightarrow> CScript \<Rightarrow> opcodetype \<Rightarrow> eval_state \<Rightarrow> eval_result" where
  "exec_CHECKMULTISIG env chk flags script opcode s =
     (let st = stack s in
      if length st < 1 then bad_stack
      else rbind (num_of flags (st ! 0)) (\<lambda>bnKeys.
        let nKeysCount = getint bnKeys in
        if nKeysCount < 0 \<or> 20 < nKeysCount then Err SCRIPT_ERR_PUBKEY_COUNT
        else
          let nKeys = nat nKeysCount;
              s1 = s\<lparr>nOpCount := nOpCount s + nKeys\<rparr>
          in if 201 < nOpCount s1 then Err SCRIPT_ERR_OP_COUNT
          else if length st < 2 + nKeys then bad_stack
          else rbind (num_of flags (st ! (1 + nKeys))) (\<lambda>bnSigs.
            let nSigsCount = getint bnSigs in
            if nSigsCount < 0 \<or> nKeysCount < nSigsCount then Err SCRIPT_ERR_SIG_COUNT
            else
              let nSigs = nat nSigsCount in
              if length st < 3 + nKeys + nSigs then bad_stack
              else rbind (multisig_loop env chk flags script
                            (take nSigs (drop (2 + nKeys) st)) (take nKeys (drop 1 st))) (\<lambda>fSuccess.
                rbind (multisig_cleanup flags fSuccess (2 + nKeys + nSigs) (nKeys + 2) st) (\<lambda>st'.
                multisig_finish flags opcode fSuccess s1 st')))))"

subsection \<open>The switch\<close>

text \<open>
  The switch, in the groups its comments name. A group answers \<open>None\<close> for an opcode it has no
  case for.
\<close>

definition exec_control ::
  "sig_checker \<Rightarrow> uint32 \<Rightarrow> bool \<Rightarrow> opcodetype \<Rightarrow> eval_state \<Rightarrow> eval_result option" where
  "exec_control chk flags fExec opcode s =
     (if opcode = OP_1NEGATE \<or> (OP_1 \<le> opcode \<and> opcode \<le> OP_16) then Some (exec_push_num opcode s)
      else if opcode = OP_NOP then Some (Ok s)
      else if opcode = OP_NOP2 then Some (exec_CHECKLOCKTIMEVERIFY chk flags s)
      else if opcode = OP_NOP5 then Some (exec_NOP5 flags s)
      else if opcode = OP_NOP1 \<or> opcode = OP_NOP3 \<or> opcode = OP_NOP4 \<or> opcode = OP_NOP6 \<or>
              opcode = OP_NOP7 \<or> opcode = OP_NOP8 \<or> opcode = OP_NOP9 \<or> opcode = OP_NOP10
      then Some (discourage_nops flags s)
      else if opcode = OP_IF \<or> opcode = OP_NOTIF then Some (exec_IF fExec opcode s)
      else if opcode = OP_ELSE then Some (exec_ELSE s)
      else if opcode = OP_ENDIF then Some (exec_ENDIF s)
      else if opcode = OP_VERIFY then Some (exec_VERIFY s)
      else if opcode = OP_RETURN then Some (Err SCRIPT_ERR_OP_RETURN)
      else None)"

definition exec_stack_op :: "uint32 \<Rightarrow> opcodetype \<Rightarrow> eval_state \<Rightarrow> eval_result option" where
  "exec_stack_op flags opcode s =
     (if opcode = OP_TOALTSTACK then Some (exec_TOALTSTACK s)
      else if opcode = OP_FROMALTSTACK then Some (exec_FROMALTSTACK s)
      else if opcode = OP_2DROP then Some (exec_2DROP s)
      else if opcode = OP_2DUP then Some (exec_2DUP s)
      else if opcode = OP_3DUP then Some (exec_3DUP s)
      else if opcode = OP_2OVER then Some (exec_2OVER s)
      else if opcode = OP_2ROT then Some (exec_2ROT s)
      else if opcode = OP_2SWAP then Some (exec_2SWAP s)
      else if opcode = OP_IFDUP then Some (exec_IFDUP s)
      else if opcode = OP_DEPTH then Some (exec_DEPTH s)
      else if opcode = OP_DROP then Some (exec_DROP s)
      else if opcode = OP_DUP then Some (exec_DUP s)
      else if opcode = OP_NIP then Some (exec_NIP s)
      else if opcode = OP_OVER then Some (exec_OVER s)
      else if opcode = OP_PICK \<or> opcode = OP_ROLL then Some (exec_PICK flags opcode s)
      else if opcode = OP_ROT then Some (exec_ROT s)
      else if opcode = OP_SWAP then Some (exec_SWAP s)
      else if opcode = OP_TUCK then Some (exec_TUCK s)
      else if opcode = OP_SIZE then Some (exec_SIZE s)
      else None)"

definition exec_numeric :: "uint32 \<Rightarrow> opcodetype \<Rightarrow> eval_state \<Rightarrow> eval_result option" where
  "exec_numeric flags opcode s =
     (if opcode = OP_EQUAL \<or> opcode = OP_EQUALVERIFY then Some (exec_EQUAL opcode s)
      else if opcode = OP_1ADD \<or> opcode = OP_1SUB \<or> opcode = OP_NEGATE \<or> opcode = OP_ABS \<or>
              opcode = OP_NOT \<or> opcode = OP_0NOTEQUAL
      then Some (exec_unary flags opcode s)
      else if opcode = OP_ADD \<or> opcode = OP_SUB \<or> opcode = OP_BOOLAND \<or> opcode = OP_BOOLOR \<or>
              opcode = OP_NUMEQUAL \<or> opcode = OP_NUMEQUALVERIFY \<or> opcode = OP_NUMNOTEQUAL \<or>
              opcode = OP_LESSTHAN \<or> opcode = OP_GREATERTHAN \<or> opcode = OP_LESSTHANOREQUAL \<or>
              opcode = OP_GREATERTHANOREQUAL \<or> opcode = OP_MIN \<or> opcode = OP_MAX
      then Some (exec_binary flags opcode s)
      else if opcode = OP_WITHIN then Some (exec_WITHIN flags s)
      else None)"

definition exec_crypto ::
  "crypto_env \<Rightarrow> sig_checker \<Rightarrow> uint32 \<Rightarrow> CScript \<Rightarrow> opcodetype \<Rightarrow> eval_state \<Rightarrow> eval_result option" where
  "exec_crypto env chk flags script opcode s =
     (if opcode = OP_RIPEMD160 \<or> opcode = OP_SHA1 \<or> opcode = OP_SHA256 \<or>
         opcode = OP_HASH160 \<or> opcode = OP_HASH256
      then Some (exec_HASH env opcode s)
      else if opcode = OP_CHECKSIG \<or> opcode = OP_CHECKSIGVERIFY
      then Some (exec_CHECKSIG env chk flags script opcode s)
      else if opcode = OP_CHECKMULTISIG \<or> opcode = OP_CHECKMULTISIGVERIFY
      then Some (exec_CHECKMULTISIG env chk flags script opcode s)
      else None)"

definition exec_opcode ::
  "crypto_env \<Rightarrow> sig_checker \<Rightarrow> uint32 \<Rightarrow> CScript \<Rightarrow> bool \<Rightarrow> opcodetype \<Rightarrow> eval_state \<Rightarrow> eval_result" where
  "exec_opcode env chk flags script fExec opcode s =
     (case exec_control chk flags fExec opcode s of Some r \<Rightarrow> r | None \<Rightarrow>
      case exec_stack_op flags opcode s of Some r \<Rightarrow> r | None \<Rightarrow>
      case exec_numeric flags opcode s of Some r \<Rightarrow> r | None \<Rightarrow>
      case exec_crypto env chk flags script opcode s of Some r \<Rightarrow> r | None \<Rightarrow>
      Err SCRIPT_ERR_BAD_OPCODE)"

section \<open>Evaluation\<close>

definition is_disabled :: "opcodetype \<Rightarrow> bool" where
  "is_disabled opcode \<longleftrightarrow>
     opcode = OP_CAT \<or> opcode = OP_SUBSTR \<or> opcode = OP_LEFT \<or> opcode = OP_RIGHT \<or>
     opcode = OP_INVERT \<or> opcode = OP_AND \<or> opcode = OP_OR \<or> opcode = OP_XOR \<or>
     opcode = OP_2MUL \<or> opcode = OP_2DIV \<or> opcode = OP_MUL \<or> opcode = OP_DIV \<or>
     opcode = OP_MOD \<or> opcode = OP_LSHIFT \<or> opcode = OP_RSHIFT \<or> opcode = OP_CODESEPARATOR"

text \<open>
  One round of the loop on the instruction read: the checks in front of the switch, the push or
  the switch, and the size limit behind it.
\<close>

definition exec_instruction ::
  "crypto_env \<Rightarrow> sig_checker \<Rightarrow> uint32 \<Rightarrow> CScript \<Rightarrow> opcodetype \<Rightarrow> valtype \<Rightarrow> eval_state \<Rightarrow> eval_result" where
  "exec_instruction env chk flags script opcode vchPushValue s =
     (let fExec = (False \<notin> set (vfExec s)) in
      if MAX_SCRIPT_ELEMENT_SIZE < length vchPushValue then Err SCRIPT_ERR_PUSH_SIZE
      else
        let s1 = (if OP_16 < opcode then s\<lparr>nOpCount := nOpCount s + 1\<rparr> else s) in
        if OP_16 < opcode \<and> 201 < nOpCount s1 then Err SCRIPT_ERR_OP_COUNT
        else if is_disabled opcode then Err SCRIPT_ERR_DISABLED_OPCODE
        else if fExec \<and> opcode \<le> OP_PUSHDATA4 then
          (if requires_minimal flags \<and> \<not> CheckMinimalPush vchPushValue opcode
           then Err SCRIPT_ERR_MINIMALDATA else Ok (push vchPushValue s1))
        else if fExec \<or> (OP_IF \<le> opcode \<and> opcode \<le> OP_ENDIF)
        then exec_opcode env chk flags script fExec opcode s1
        else Ok s1)"

definition check_size :: "eval_state \<Rightarrow> eval_result" where
  "check_size s =
     (if 1000 < length (stack s) + length (altstack s) then Err SCRIPT_ERR_STACK_SIZE else Ok s)"

definition eval_step ::
  "crypto_env \<Rightarrow> sig_checker \<Rightarrow> uint32 \<Rightarrow> CScript \<Rightarrow> CScript \<Rightarrow> eval_state \<Rightarrow>
   (ScriptError, CScript \<times> eval_state) outcome" where
  "eval_step env chk flags script pc s =
     (case GetOp2 pc of
        None \<Rightarrow> Err SCRIPT_ERR_BAD_OPCODE
      | Some (pc', opcode, vchPushValue) \<Rightarrow>
          rbind (exec_instruction env chk flags script opcode vchPushValue s) (\<lambda>s1.
          rbind (check_size s1) (\<lambda>s2. Ok (pc', s2))))"

lemma rbind_cong [fundef_cong]:
  "m = m' \<Longrightarrow> (\<And>x. m' = Ok x \<Longrightarrow> f x = g x) \<Longrightarrow> rbind m f = rbind m' g"
  by (cases m') auto

lemma eval_step_shorter: "eval_step env chk flags script pc s = Ok (pc', s') \<Longrightarrow> length pc' < length pc"
  by (auto simp: eval_step_def outcome_simps split: option.splits prod.splits dest: GetOp2_shorter)

function eval_loop ::
  "crypto_env \<Rightarrow> sig_checker \<Rightarrow> uint32 \<Rightarrow> CScript \<Rightarrow> CScript \<Rightarrow> eval_state \<Rightarrow> eval_result" where
  "eval_loop env chk flags script pc s =
     (if pc = [] then Ok s
      else rbind (eval_step env chk flags script pc s) (\<lambda>(pc', s').
        eval_loop env chk flags script pc' s'))"
  by pat_completeness auto
termination
  by (relation "measure (\<lambda>(env, chk, flags, script, pc, s). length pc)") (auto dest: eval_step_shorter)

declare eval_loop.simps [simp del]

definition EvalScript ::
  "crypto_env \<Rightarrow> sig_checker \<Rightarrow> uint32 \<Rightarrow> valtype list \<Rightarrow> CScript \<Rightarrow>
   (ScriptError, valtype list) outcome" where
  "EvalScript env chk flags st script =
     (if MAX_SCRIPT_SIZE < length script then Err SCRIPT_ERR_SCRIPT_SIZE
      else case eval_loop env chk flags script script
                  \<lparr>stack = st, altstack = [], vfExec = [], nOpCount = 0\<rparr> of
        Ok s \<Rightarrow> if vfExec s \<noteq> [] then Err SCRIPT_ERR_UNBALANCED_CONDITIONAL else Ok (stack s)
      | Err e \<Rightarrow> Err e
      | Throw \<Rightarrow> Err SCRIPT_ERR_UNKNOWN_ERROR
      | Abort \<Rightarrow> Abort)"

end
