(* ===== verification/Interpreter_Safety.thy ===== *)
theory Interpreter_Safety
  imports Interpreter
begin

text \<open>
  Resource bounds and totality of \<^verbatim>\<open>EvalScript\<close>: the contract every case of the switch meets, the
  configurations the evaluation loop reaches, and the invariant they keep. A script that succeeds
  has a static form: it parses, its conditionals are balanced, it has no disabled opcode and no more
  than 201 counted ones, whichever branches were taken.
\<close>

section \<open>Numbers on the stack\<close>

lemma num_of_abs_less: "num_of flags v = Ok n \<Longrightarrow> \<bar>n\<bar> < 2 ^ 31"
  using set_vch_abs_less [of v 4] by (auto simp: num_of_def CScriptNum_eq_Some_iff)

lemma num_of_neq [simp]: "num_of flags v \<noteq> Abort" "num_of flags v \<noteq> Err e"
  by (simp_all add: num_of_def)

lemma unary_result_safe:
  assumes "\<bar>n\<bar> < 2 ^ 31"
    and "opcode = OP_1ADD \<or> opcode = OP_1SUB \<or> opcode = OP_NEGATE \<or> opcode = OP_ABS \<or>
         opcode = OP_NOT \<or> opcode = OP_0NOTEQUAL"
  shows "\<exists>r. unary_result opcode n = Ok r \<and> \<bar>r\<bar> < 2 ^ 39"
  using assms(2,1)
  by (elim disjE)
     (auto simp: unary_result_def num_add_assign_def num_sub_assign_def num_neg_def abs_less_iff)

lemma binary_result_safe:
  assumes "\<bar>m\<bar> < 2 ^ 31" "\<bar>n\<bar> < 2 ^ 31"
    and "opcode = OP_ADD \<or> opcode = OP_SUB \<or> opcode = OP_BOOLAND \<or> opcode = OP_BOOLOR \<or>
         opcode = OP_NUMEQUAL \<or> opcode = OP_NUMEQUALVERIFY \<or> opcode = OP_NUMNOTEQUAL \<or>
         opcode = OP_LESSTHAN \<or> opcode = OP_GREATERTHAN \<or> opcode = OP_LESSTHANOREQUAL \<or>
         opcode = OP_GREATERTHANOREQUAL \<or> opcode = OP_MIN \<or> opcode = OP_MAX"
  shows "\<exists>r. binary_result opcode m n = Ok r \<and> \<bar>r\<bar> < 2 ^ 39"
  using assms(3,1,2)
  by (elim disjE) (auto simp: binary_result_def num_add_def num_sub_def in_int64_def abs_less_iff)

section \<open>What one operation may do\<close>

text \<open>
  The contract every case of the switch meets: it does not abort, and when it succeeds every stack
  element is an old one or at most \<open>M\<close> bytes long, and the operation count stays within its limit.
\<close>

definition elems :: "eval_state \<Rightarrow> valtype set" where
  "elems s = set (stack s) \<union> set (altstack s)"

definition op_safe :: "nat \<Rightarrow> eval_state \<Rightarrow> eval_result \<Rightarrow> bool" where
  "op_safe M s r \<longleftrightarrow> r \<noteq> Abort \<and>
     (\<forall>s'. r = Ok s' \<longrightarrow>
        (\<forall>x \<in> elems s'. x \<in> elems s \<or> length x \<le> M) \<and>
        nOpCount s \<le> nOpCount s' \<and> (nOpCount s \<le> 201 \<longrightarrow> nOpCount s' \<le> 201))"

lemma op_safe_Err [simp]: "op_safe M s (Err e)" "op_safe M s Throw" "op_safe M s bad_stack"
  by (simp_all add: op_safe_def bad_stack_def)

lemma op_safe_rbind:
  "m \<noteq> Abort \<Longrightarrow> (\<And>x. m = Ok x \<Longrightarrow> op_safe M s (f x)) \<Longrightarrow> op_safe M s (rbind m f)"
  by (cases m) auto

lemma op_safe_Ok:
  "op_safe M s (Ok s') \<longleftrightarrow> (\<forall>x \<in> elems s'. x \<in> elems s \<or> length x \<le> M) \<and>
     nOpCount s \<le> nOpCount s' \<and> (nOpCount s \<le> 201 \<longrightarrow> nOpCount s' \<le> 201)"
  by (simp add: op_safe_def)

lemma op_safe_stack:
  "set st \<subseteq> set (stack s) \<union> {x. length x \<le> M} \<Longrightarrow> op_safe M s (Ok (s\<lparr>stack := st\<rparr>))"
  by (auto simp: op_safe_def elems_def)

lemma stack_ops_safe:
  "op_safe M s (exec_TOALTSTACK s)" "op_safe M s (exec_FROMALTSTACK s)"
  "op_safe M s (exec_2DROP s)" "op_safe M s (exec_2DUP s)" "op_safe M s (exec_3DUP s)"
  "op_safe M s (exec_2OVER s)" "op_safe M s (exec_2ROT s)" "op_safe M s (exec_2SWAP s)"
  "op_safe M s (exec_IFDUP s)" "op_safe M s (exec_DROP s)" "op_safe M s (exec_DUP s)"
  "op_safe M s (exec_NIP s)" "op_safe M s (exec_OVER s)" "op_safe M s (exec_ROT s)"
  "op_safe M s (exec_SWAP s)" "op_safe M s (exec_TUCK s)"
  by (auto simp: exec_TOALTSTACK_def exec_FROMALTSTACK_def exec_2DROP_def exec_2DUP_def
    exec_3DUP_def exec_2OVER_def exec_2ROT_def exec_2SWAP_def exec_IFDUP_def exec_DROP_def
    exec_DUP_def exec_NIP_def exec_OVER_def exec_ROT_def exec_SWAP_def exec_TUCK_def push_def
    op_safe_Ok elems_def split: list.split)

lemma exec_PICK_safe: "op_safe M s (exec_PICK flags opcode s)"
proof (cases "stack s")
  case Nil
  then show ?thesis by (simp add: exec_PICK_def)
next
  case (Cons x st)
  then show ?thesis
    by (auto simp: exec_PICK_def Let_def intro!: op_safe_rbind op_safe_stack dest!: in_set_takeD in_set_dropD)
qed

lemma exec_unary_safe:
  assumes "opcode = OP_1ADD \<or> opcode = OP_1SUB \<or> opcode = OP_NEGATE \<or> opcode = OP_ABS \<or>
         opcode = OP_NOT \<or> opcode = OP_0NOTEQUAL" "5 \<le> M"
  shows "op_safe M s (exec_unary flags opcode s)"
proof (cases "stack s")
  case Nil
  then show ?thesis by (simp add: exec_unary_def)
next
  case (Cons x st)
  have key: "op_safe M s (rbind (unary_result opcode n) (\<lambda>r. Ok (s\<lparr>stack := serialize r # st\<rparr>)))"
    if n: "num_of flags x = Ok n" for n
  proof -
    obtain r where "(unary_result opcode n :: (ScriptError, int) outcome) = Ok r" "\<bar>r\<bar> < 2 ^ 39"
      using unary_result_safe [OF num_of_abs_less [OF n] assms(1)] by blast
    then show ?thesis using length_serialize [of r 5] Cons assms(2) by (auto intro!: op_safe_stack)
  qed
  show ?thesis by (simp add: exec_unary_def Cons) (rule op_safe_rbind, simp, rule key)
qed

lemma exec_binary_safe:
  assumes "opcode = OP_ADD \<or> opcode = OP_SUB \<or> opcode = OP_BOOLAND \<or> opcode = OP_BOOLOR \<or>
         opcode = OP_NUMEQUAL \<or> opcode = OP_NUMEQUALVERIFY \<or> opcode = OP_NUMNOTEQUAL \<or>
         opcode = OP_LESSTHAN \<or> opcode = OP_GREATERTHAN \<or> opcode = OP_LESSTHANOREQUAL \<or>
         opcode = OP_GREATERTHANOREQUAL \<or> opcode = OP_MIN \<or> opcode = OP_MAX" "5 \<le> M"
  shows "op_safe M s (exec_binary flags opcode s)"
proof (cases "length (stack s) < 2")
  case True
  then show ?thesis by (auto simp: exec_binary_def split: list.split)
next
  case False
  then obtain x2 x1 st where st: "stack s = x2 # x1 # st"
    by (metis One_nat_def length_0_conv length_Suc_conv less_2_cases_iff neq_Nil_conv)
  have key: "op_safe M s (rbind (binary_result opcode m n) (\<lambda>bn.
          if opcode = OP_NUMEQUALVERIFY then
            (if CastToBool (serialize bn) then Ok (s\<lparr>stack := st\<rparr>) else Err SCRIPT_ERR_NUMEQUALVERIFY)
          else Ok (s\<lparr>stack := serialize bn # st\<rparr>)))"
    if mn: "num_of flags x1 = Ok m" "num_of flags x2 = Ok n" for m n
  proof -
    obtain r where "(binary_result opcode m n :: (ScriptError, int) outcome) = Ok r" "\<bar>r\<bar> < 2 ^ 39"
      using binary_result_safe [OF num_of_abs_less [OF mn(1)] num_of_abs_less [OF mn(2)] assms(1)] by blast
    then show ?thesis using length_serialize [of r 5] st assms(2) by (auto intro!: op_safe_stack)
  qed
  show ?thesis
    unfolding exec_binary_def st list.case
    by (rule op_safe_rbind, simp, rule op_safe_rbind, simp, rule key)
qed


lemma length_bool_vch [simp]: "length (bool_vch b) \<le> Suc 0"
  by (simp add: bool_vch_def)

lemma exec_WITHIN_safe: "5 \<le> M \<Longrightarrow> op_safe M s (exec_WITHIN flags s)"
  using order.trans [OF length_bool_vch, of M]
  by (auto simp: exec_WITHIN_def intro!: op_safe_rbind op_safe_stack split: list.split)

lemma exec_EQUAL_safe: "5 \<le> M \<Longrightarrow> op_safe M s (exec_EQUAL opcode s)"
  using order.trans [OF length_bool_vch, of M]
  by (auto simp: exec_EQUAL_def intro!: op_safe_stack split: list.split)

lemma exec_numeric_safe:
  "5 \<le> M \<Longrightarrow> exec_numeric flags opcode s = Some r \<Longrightarrow> op_safe M s r"
  by (auto simp: exec_numeric_def exec_EQUAL_safe exec_unary_safe exec_binary_safe exec_WITHIN_safe
      split: if_splits)

lemma exec_SIZE_safe:
  assumes "\<forall>x \<in> elems s. length x < 2 ^ 39" "5 \<le> M"
  shows "op_safe M s (exec_SIZE s)"
proof (cases "stack s")
  case Nil
  then show ?thesis by (simp add: exec_SIZE_def)
next
  case (Cons x st)
  then have "int (length x) < 2 ^ 39" using assms(1) by (auto simp: elems_def)
  then show ?thesis
    using length_serialize [of "int (length x)" 5] Cons assms(2)
    by (auto simp: exec_SIZE_def push_def intro!: op_safe_stack)
qed

lemma exec_DEPTH_safe:
  assumes "length (stack s) < 2 ^ 39" "5 \<le> M"
  shows "op_safe M s (exec_DEPTH s)"
  using length_serialize [of "int (length (stack s))" 5] assms
  by (auto simp: exec_DEPTH_def push_def intro!: op_safe_stack)

definition small_state :: "eval_state \<Rightarrow> bool" where
  "small_state s \<longleftrightarrow> (\<forall>x \<in> elems s. length x < 2 ^ 39) \<and> length (stack s) < 2 ^ 39"

lemma exec_stack_op_safe:
  "small_state s \<Longrightarrow> 5 \<le> M \<Longrightarrow> exec_stack_op flags opcode s = Some r \<Longrightarrow> op_safe M s r"
  by (auto simp: exec_stack_op_def small_state_def stack_ops_safe exec_PICK_safe exec_SIZE_safe
      exec_DEPTH_safe split: if_splits)

lemma control_ops_safe:
  "op_safe M s (discourage_nops flags s)" "op_safe M s (exec_CHECKLOCKTIMEVERIFY chk flags s)"
  "op_safe M s (exec_NOP5 flags s)" "op_safe M s (exec_IF fExec opcode s)"
  "op_safe M s (exec_ELSE s)" "op_safe M s (exec_ENDIF s)" "op_safe M s (exec_VERIFY s)"
  by (auto simp: discourage_nops_def exec_CHECKLOCKTIMEVERIFY_def exec_NOP5_def exec_IF_def
      exec_ELSE_def exec_ENDIF_def exec_VERIFY_def op_safe_Ok elems_def Let_def
      intro!: op_safe_rbind split: list.split dest: in_set_dropD)

lemma exec_push_num_safe:
  assumes "opcode = OP_1NEGATE \<or> (OP_1 \<le> opcode \<and> opcode \<le> OP_16)" "5 \<le> M"
  shows "op_safe M s (exec_push_num opcode s)"
proof -
  have "\<bar>int opcode - 80\<bar> < 2 ^ 39" using assms(1) by auto
  then show ?thesis
    using length_serialize [of "int opcode - 80" 5] assms(2)
    by (auto simp: exec_push_num_def push_def intro!: op_safe_stack)
qed

lemma exec_control_safe:
  "5 \<le> M \<Longrightarrow> exec_control chk flags fExec opcode s = Some r \<Longrightarrow> op_safe M s r"
  by (auto simp: exec_control_def control_ops_safe op_safe_Ok intro: exec_push_num_safe split: if_splits)

text \<open>The digests of the interpreter's hash functions are no longer than a stack element may be.\<close>

definition short_digests :: "nat \<Rightarrow> crypto_env \<Rightarrow> bool" where
  "short_digests M env \<longleftrightarrow>
     (\<forall>v. length (RIPEMD160 env v) \<le> M \<and> length (SHA1 env v) \<le> M \<and> length (SHA256 env v) \<le> M)"

lemma exec_HASH_safe: "short_digests M env \<Longrightarrow> op_safe M s (exec_HASH env opcode s)"
  by (auto simp: exec_HASH_def short_digests_def CHash160_def CHash256_def
      intro!: op_safe_stack split: list.split)

lemma check_encodings_neq [simp]: "check_encodings env flags sig key \<noteq> Abort"
  by (auto simp: check_encodings_def Let_def split: prod.splits)

lemma exec_CHECKSIG_safe: "5 \<le> M \<Longrightarrow> op_safe M s (exec_CHECKSIG env chk flags script opcode s)"
  using order.trans [OF length_bool_vch, of M]
  by (auto simp: exec_CHECKSIG_def Let_def intro!: op_safe_rbind op_safe_stack split: list.split)

lemma multisig_loop_neq [simp]: "multisig_loop env chk flags script sigs keys \<noteq> Abort"
  by (induction keys arbitrary: sigs; case_tac sigs) (auto simp: outcome_simps Let_def)

lemma multisig_cleanup_neq [simp]: "multisig_cleanup flags fS n ikey2 st \<noteq> Abort"
  by (induction flags fS n ikey2 st rule: multisig_cleanup.induct) auto

lemma multisig_cleanup_drop: "multisig_cleanup flags fS n ikey2 st = Ok st' \<Longrightarrow> st' = drop n st"
  by (induction flags fS n ikey2 st rule: multisig_cleanup.induct) (auto split: if_splits)

lemma multisig_finish_safe:
  assumes "n \<le> 201" "nOpCount s \<le> n" "set st \<subseteq> set (stack s)" "5 \<le> M"
  shows "op_safe M s (multisig_finish flags opcode fS (s\<lparr>nOpCount := n\<rparr>) st)"
  using assms order.trans [OF length_bool_vch, of M]
  by (auto simp: multisig_finish_def op_safe_Ok elems_def split: list.split)

lemma exec_CHECKMULTISIG_safe:
  assumes "5 \<le> M"
  shows "op_safe M s (exec_CHECKMULTISIG env chk flags script opcode s)"
  unfolding exec_CHECKMULTISIG_def Let_def
  using assms
  by (auto intro!: op_safe_rbind multisig_finish_safe
      set_drop_subset dest!: multisig_cleanup_drop)

lemma exec_crypto_safe:
  "short_digests M env \<Longrightarrow> 5 \<le> M \<Longrightarrow> exec_crypto env chk flags script opcode s = Some r \<Longrightarrow> op_safe M s r"
  by (auto simp: exec_crypto_def exec_HASH_safe exec_CHECKSIG_safe exec_CHECKMULTISIG_safe split: if_splits)

lemma exec_opcode_safe:
  assumes "short_digests M env" "5 \<le> M" "small_state s"
  shows "op_safe M s (exec_opcode env chk flags script fExec opcode s)"
  using assms
  by (auto simp: exec_opcode_def intro: exec_control_safe exec_stack_op_safe exec_numeric_safe
      exec_crypto_safe split: option.split)

lemma op_safe_from:
  assumes "op_safe M s1 r" "elems s1 = elems s" "nOpCount s \<le> nOpCount s1"
    and "nOpCount s \<le> 201 \<Longrightarrow> nOpCount s1 \<le> 201"
  shows "op_safe M s r"
  using assms by (auto simp: op_safe_def intro: order.trans)

lemma exec_instruction_safe:
  assumes "short_digests MAX_SCRIPT_ELEMENT_SIZE env" "small_state s"
  shows "op_safe MAX_SCRIPT_ELEMENT_SIZE s (exec_instruction env chk flags script opcode v s)"
proof -
  define s1 where "s1 = (if OP_16 < opcode then s\<lparr>nOpCount := nOpCount s + 1\<rparr> else s)"
  have s1: "elems s1 = elems s" "nOpCount s \<le> nOpCount s1" "small_state s1"
    using assms(2) by (simp_all add: s1_def elems_def small_state_def)
  let ?over = "OP_16 < opcode \<and> 201 < nOpCount s1"
  have n1: "\<not> ?over \<Longrightarrow> nOpCount s \<le> 201 \<Longrightarrow> nOpCount s1 \<le> 201"
    by (auto simp: s1_def split: if_splits)
  have "op_safe MAX_SCRIPT_ELEMENT_SIZE s1 (exec_opcode env chk flags script fExec opcode s1)" for fExec
    using assms(1) s1 by (intro exec_opcode_safe) simp_all
  then have ex: "\<not> ?over \<Longrightarrow>
      op_safe MAX_SCRIPT_ELEMENT_SIZE s (exec_opcode env chk flags script fExec opcode s1)" for fExec
    by (rule op_safe_from [OF _ s1(1,2) n1])
  have sk: "\<not> ?over \<Longrightarrow> op_safe MAX_SCRIPT_ELEMENT_SIZE s (Ok s1)"
    using s1 n1 by (simp add: op_safe_Ok)
  have pu: "\<not> ?over \<Longrightarrow> \<not> MAX_SCRIPT_ELEMENT_SIZE < length v \<Longrightarrow>
      op_safe MAX_SCRIPT_ELEMENT_SIZE s (Ok (push v s1))"
    using s1 n1 by (auto simp: op_safe_Ok push_def elems_def)
  show ?thesis
    unfolding exec_instruction_def s1_def [symmetric] Let_def
    using ex sk pu by (simp split: if_split)
qed

section \<open>Reachable machine states\<close>

text \<open>
  The configurations the loop of \<^verbatim>\<open>EvalScript\<close> passes through: the unread part of the script and
  the machine state, at the head of the loop.
\<close>

inductive reach ::
  "crypto_env \<Rightarrow> sig_checker \<Rightarrow> uint32 \<Rightarrow> CScript \<Rightarrow> valtype list \<Rightarrow> CScript \<Rightarrow> eval_state \<Rightarrow> bool"
  for env chk flags script st where
  reach_init: "reach env chk flags script st script \<lparr>stack = st, altstack = [], vfExec = [], nOpCount = 0\<rparr>"
| reach_step: "reach env chk flags script st pc s \<Longrightarrow> pc \<noteq> [] \<Longrightarrow>
    eval_step env chk flags script pc s = Ok (pc', s') \<Longrightarrow> reach env chk flags script st pc' s'"

definition machine_inv :: "eval_state \<Rightarrow> bool" where
  "machine_inv s \<longleftrightarrow> (\<forall>x \<in> elems s. length x \<le> MAX_SCRIPT_ELEMENT_SIZE) \<and>
     length (stack s) + length (altstack s) \<le> 1000 \<and> nOpCount s \<le> 201"

lemma machine_inv_small: "machine_inv s \<Longrightarrow> small_state s"
  by (force simp: machine_inv_def small_state_def)

lemma eval_step_inv:
  assumes "short_digests MAX_SCRIPT_ELEMENT_SIZE env" "machine_inv s"
    and "eval_step env chk flags script pc s = Ok (pc', s')"
  shows "machine_inv s'"
proof -
  from assms(3) obtain opcode v where ok: "exec_instruction env chk flags script opcode v s = Ok s'"
    and sz: "check_size s' = Ok s'"
    by (auto simp: eval_step_def check_size_def outcome_simps split: option.splits if_splits)
  then show ?thesis
    using assms(2) exec_instruction_safe [OF assms(1) machine_inv_small [OF assms(2)], of chk flags script opcode v]
    by (auto simp: op_safe_def machine_inv_def check_size_def split: if_splits)
qed

lemma eval_step_neq_Abort:
  assumes "short_digests MAX_SCRIPT_ELEMENT_SIZE env" "machine_inv s"
  shows "eval_step env chk flags script pc s \<noteq> Abort"
  using exec_instruction_safe [OF assms(1) machine_inv_small [OF assms(2)]]
  by (auto simp: eval_step_def check_size_def op_safe_def outcome_simps split: option.splits)

lemma reach_inv:
  assumes "short_digests MAX_SCRIPT_ELEMENT_SIZE env"
    and "length st \<le> 1000" "\<forall>x \<in> set st. length x \<le> MAX_SCRIPT_ELEMENT_SIZE"
    and "reach env chk flags script st pc s"
  shows "machine_inv s"
  using assms(4)
proof induction
  case reach_init
  show ?case using assms(2,3) by (simp add: machine_inv_def elems_def)
next
  case (reach_step pc s pc' s')
  then show ?case using eval_step_inv [OF assms(1)] by blast
qed

lemma reach_loop:
  "reach env chk flags script st pc s \<Longrightarrow> eval_loop env chk flags script pc s = Ok s' \<Longrightarrow>
   reach env chk flags script st [] s'"
proof (induction env chk flags script pc s rule: eval_loop.induct)
  case (1 env chk flags script pc s)
  show ?case
  proof (cases "pc = []")
    case True
    with "1.prems" show ?thesis by (simp add: eval_loop.simps)
  next
    case False
    with "1.prems"(2) obtain pc1 s1 where "eval_step env chk flags script pc s = Ok (pc1, s1)"
      "eval_loop env chk flags script pc1 s1 = Ok s'"
      by (subst (asm) eval_loop.simps) (auto simp: outcome_simps)
    with False "1.prems"(1) show ?thesis by (intro "1.IH") (auto intro: reach_step)
  qed
qed

lemma reach_loop_neq_Abort:
  assumes "short_digests MAX_SCRIPT_ELEMENT_SIZE env" "machine_inv s"
  shows "eval_loop env chk flags script pc s \<noteq> Abort"
  using assms
proof (induction env chk flags script pc s rule: eval_loop.induct)
  case (1 env chk flags script pc s)
  then show ?case
    using eval_step_neq_Abort [OF "1.prems", of chk flags script pc] eval_step_inv [OF "1.prems", of chk flags script pc]
    by (subst eval_loop.simps) (auto simp: outcome_simps)
qed

lemma EvalScript_bounds:
  assumes "short_digests MAX_SCRIPT_ELEMENT_SIZE env"
    and "length st \<le> 1000" "\<forall>x \<in> set st. length x \<le> MAX_SCRIPT_ELEMENT_SIZE"
    and "EvalScript env chk flags st script = Ok st'"
  shows "length st' \<le> 1000" "\<forall>x \<in> set st'. length x \<le> MAX_SCRIPT_ELEMENT_SIZE"
proof -
  from assms(4) obtain s where s: "eval_loop env chk flags script script
      \<lparr>stack = st, altstack = [], vfExec = [], nOpCount = 0\<rparr> = Ok s" "st' = stack s"
    by (auto simp: EvalScript_def split: outcome.splits if_splits)
  have "machine_inv s"
    using reach_inv [OF assms(1-3)] reach_loop [OF reach_init s(1)] by blast
  then show "length st' \<le> 1000" "\<forall>x \<in> set st'. length x \<le> MAX_SCRIPT_ELEMENT_SIZE"
    by (auto simp: machine_inv_def elems_def s(2))
qed

lemma EvalScript_total:
  assumes "short_digests MAX_SCRIPT_ELEMENT_SIZE env"
    and "length st \<le> 1000" "\<forall>x \<in> set st. length x \<le> MAX_SCRIPT_ELEMENT_SIZE"
  shows "(\<exists>st'. EvalScript env chk flags st script = Ok st') \<or> (\<exists>e. EvalScript env chk flags st script = Err e)"
proof -
  have "machine_inv \<lparr>stack = st, altstack = [], vfExec = [], nOpCount = 0\<rparr>"
    using assms(2,3) by (simp add: machine_inv_def elems_def)
  from reach_loop_neq_Abort [OF assms(1) this] show ?thesis
    by (auto simp: EvalScript_def split: outcome.splits)
qed

section \<open>Conditionals\<close>

lemma stack_op_keeps_vfExec: "exec_stack_op flags opcode s = Some (Ok s') \<Longrightarrow> vfExec s' = vfExec s"
  by (auto simp: exec_stack_op_def exec_TOALTSTACK_def exec_FROMALTSTACK_def exec_2DROP_def exec_2DUP_def
    exec_3DUP_def exec_2OVER_def exec_2ROT_def exec_2SWAP_def exec_IFDUP_def exec_DROP_def exec_DUP_def
    exec_NIP_def exec_OVER_def exec_ROT_def exec_SWAP_def exec_TUCK_def exec_DEPTH_def exec_PICK_def
    exec_SIZE_def bad_stack_def push_def outcome_simps Let_def split: if_splits list.splits)

lemma numeric_keeps_vfExec: "exec_numeric flags opcode s = Some (Ok s') \<Longrightarrow> vfExec s' = vfExec s"
  by (auto simp: exec_numeric_def exec_EQUAL_def exec_unary_def exec_binary_def exec_WITHIN_def
    bad_stack_def outcome_simps Let_def split: if_splits list.splits)

lemma multisig_finish_frame: "multisig_finish flags opcode fS s st = Ok s' \<Longrightarrow> vfExec s' = vfExec s"
  by (auto simp: multisig_finish_def bad_stack_def split: if_splits list.splits)

lemma CHECKMULTISIG_keeps_vfExec:
  "exec_CHECKMULTISIG env chk flags script opcode s = Ok s' \<Longrightarrow> vfExec s' = vfExec s"
  by (auto simp: exec_CHECKMULTISIG_def bad_stack_def outcome_simps Let_def
      dest!: multisig_finish_frame split: if_splits)

lemma crypto_keeps_vfExec: "exec_crypto env chk flags script opcode s = Some (Ok s') \<Longrightarrow> vfExec s' = vfExec s"
  by (auto simp: exec_crypto_def exec_HASH_def exec_CHECKSIG_def bad_stack_def
    outcome_simps Let_def CHECKMULTISIG_keeps_vfExec split: if_splits list.splits)

definition depth_after :: "opcodetype \<Rightarrow> nat \<Rightarrow> nat option" where
  "depth_after opcode d =
     (if opcode = OP_IF \<or> opcode = OP_NOTIF then Some (Suc d)
      else if opcode = OP_VERIF \<or> opcode = OP_VERNOTIF then None
      else if opcode = OP_ELSE then (if d = 0 then None else Some d)
      else if opcode = OP_ENDIF then (if d = 0 then None else Some (d - 1))
      else Some d)"

lemma control_depth:
  assumes "exec_control chk flags fExec opcode s = Some (Ok s')"
  shows "depth_after opcode (length (vfExec s)) = Some (length (vfExec s'))"
proof -
  have k: "discourage_nops flags s = Ok s' \<Longrightarrow> vfExec s' = vfExec s"
    "exec_push_num opcode s = Ok s' \<Longrightarrow> vfExec s' = vfExec s"
    "exec_CHECKLOCKTIMEVERIFY chk flags s = Ok s' \<Longrightarrow> vfExec s' = vfExec s"
    "exec_NOP5 flags s = Ok s' \<Longrightarrow> vfExec s' = vfExec s"
    "exec_VERIFY s = Ok s' \<Longrightarrow> vfExec s' = vfExec s"
    by (auto simp: discourage_nops_def exec_push_num_def exec_CHECKLOCKTIMEVERIFY_def exec_NOP5_def
        exec_VERIFY_def bad_stack_def push_def outcome_simps split: if_splits list.splits)
  have d: "exec_IF fExec opcode s = Ok s' \<Longrightarrow> length (vfExec s') = Suc (length (vfExec s))"
    "exec_ELSE s = Ok s' \<Longrightarrow> length (vfExec s') = length (vfExec s) \<and> vfExec s \<noteq> []"
    "exec_ENDIF s = Ok s' \<Longrightarrow> length (vfExec s) = Suc (length (vfExec s'))"
    by (auto simp: exec_IF_def exec_ELSE_def exec_ENDIF_def Let_def split: if_splits list.splits)
  show ?thesis
    using assms k d unfolding exec_control_def by (elim if_eqE; auto simp: depth_after_def)
qed

lemma exec_opcode_depth:
  assumes "exec_opcode env chk flags script fExec opcode s = Ok s'"
  shows "depth_after opcode (length (vfExec s)) = Some (length (vfExec s'))"
proof -
  have n: "vfExec s' = vfExec s \<and> opcode \<notin> {OP_IF, OP_NOTIF, OP_VERIF, OP_VERNOTIF, OP_ELSE, OP_ENDIF} \<Longrightarrow> ?thesis"
    by (simp add: depth_after_def)
  consider "exec_control chk flags fExec opcode s = Some (Ok s')"
    | "exec_stack_op flags opcode s = Some (Ok s')" | "exec_numeric flags opcode s = Some (Ok s')"
    | "exec_crypto env chk flags script opcode s = Some (Ok s')"
    using assms by (auto simp: exec_opcode_def split: option.splits)
  then show ?thesis
  proof cases
    case 1
    then show ?thesis by (rule control_depth)
  next
    case 2
    then show ?thesis
      using stack_op_keeps_vfExec [OF 2] by (intro n) (auto simp: exec_stack_op_def)
  next
    case 3
    then show ?thesis
      using numeric_keeps_vfExec [OF 3] by (intro n) (auto simp: exec_numeric_def)
  next
    case 4
    then show ?thesis
      using crypto_keeps_vfExec [OF 4] by (intro n) (auto simp: exec_crypto_def)
  qed
qed

section \<open>Static form of a script that can succeed\<close>

function parse_script :: "CScript \<Rightarrow> (opcodetype \<times> valtype) list option" where
  "parse_script pc =
     (if pc = [] then Some []
      else case GetOp2 pc of
        None \<Rightarrow> None
      | Some (pc', opcode, v) \<Rightarrow> map_option (Cons (opcode, v)) (parse_script pc'))"
  by pat_completeness auto
termination
  by (relation "measure length") (auto dest: GetOp2_shorter)

declare parse_script.simps [simp del]

fun well_formed_ops :: "nat \<Rightarrow> (opcodetype \<times> valtype) list \<Rightarrow> bool" where
  "well_formed_ops d [] \<longleftrightarrow> d = 0"
| "well_formed_ops d ((opcode, v) # ops) \<longleftrightarrow>
     length v \<le> MAX_SCRIPT_ELEMENT_SIZE \<and> \<not> is_disabled opcode \<and>
     (case depth_after opcode d of None \<Rightarrow> False | Some d' \<Rightarrow> well_formed_ops d' ops)"

definition counted_ops :: "(opcodetype \<times> valtype) list \<Rightarrow> nat" where
  "counted_ops ops = length (filter (\<lambda>(opcode, v). OP_16 < opcode) ops)"

lemma exec_instruction_static:
  assumes "exec_instruction env chk flags script opcode v s = Ok s'"
  shows "length v \<le> MAX_SCRIPT_ELEMENT_SIZE" "\<not> is_disabled opcode"
    "depth_after opcode (length (vfExec s)) = Some (length (vfExec s'))"
proof -
  show "length v \<le> MAX_SCRIPT_ELEMENT_SIZE" "\<not> is_disabled opcode"
    using assms by (auto simp: exec_instruction_def Let_def split: if_splits)
  have sk: "depth_after opcode d = Some d" if "\<not> (OP_IF \<le> opcode \<and> opcode \<le> OP_ENDIF)" for d
    using that by (auto simp: depth_after_def)
  have "depth_after opcode (length (vfExec s1)) = Some (length (vfExec s'))"
    if "exec_opcode env chk flags script fExec opcode s1 = Ok s'" for fExec s1
    using exec_opcode_depth [OF that] .
  then show "depth_after opcode (length (vfExec s)) = Some (length (vfExec s'))"
    using assms sk [of "length (vfExec s)"]
    by (fastforce simp: exec_instruction_def Let_def push_def split: if_splits)
qed

lemma exec_instruction_count:
  assumes "short_digests MAX_SCRIPT_ELEMENT_SIZE env" "machine_inv s"
    and "exec_instruction env chk flags script opcode v s = Ok s'"
  shows "nOpCount s + of_bool (OP_16 < opcode) \<le> nOpCount s'"
proof (cases "OP_16 < opcode")
  case False
  then show ?thesis
    using exec_instruction_safe [OF assms(1) machine_inv_small [OF assms(2)], of chk flags script opcode v] assms(3)
    by (auto simp: op_safe_def)
next
  case True
  let ?s1 = "s\<lparr>nOpCount := nOpCount s + 1\<rparr>"
  have "small_state ?s1" using machine_inv_small [OF assms(2)] by (simp add: small_state_def elems_def)
  then have "op_safe MAX_SCRIPT_ELEMENT_SIZE ?s1 (exec_opcode env chk flags script fExec opcode ?s1)" for fExec
    using assms(1) by (intro exec_opcode_safe) simp_all
  then have "exec_opcode env chk flags script fExec opcode ?s1 = Ok s' \<Longrightarrow> nOpCount s + 1 \<le> nOpCount s'" for fExec
    by (simp add: op_safe_def)
  with True assms(3) show ?thesis
    by (auto simp: exec_instruction_def Let_def split: if_splits)
qed

lemma eval_loop_static:
  assumes "short_digests MAX_SCRIPT_ELEMENT_SIZE env" "machine_inv s"
    and "eval_loop env chk flags script pc s = Ok s'" "vfExec s' = []"
  shows "\<exists>ops. parse_script pc = Some ops \<and> well_formed_ops (length (vfExec s)) ops \<and>
     nOpCount s + counted_ops ops \<le> 201"
  using assms
proof (induction env chk flags script pc s rule: eval_loop.induct)
  case (1 env chk flags script pc s)
  show ?case
  proof (cases "pc = []")
    case True
    with "1.prems" show ?thesis
      by (simp add: eval_loop.simps [of _ _ _ _ "[]"] parse_script.simps [of "[]"] counted_ops_def machine_inv_def)
  next
    case False
    with "1.prems"(3) obtain pc1 s1 where st: "eval_step env chk flags script pc s = Ok (pc1, s1)"
      and lp: "eval_loop env chk flags script pc1 s1 = Ok s'"
      by (subst (asm) eval_loop.simps) (auto simp: outcome_simps)
    from st obtain opcode v where g: "GetOp2 pc = Some (pc1, opcode, v)"
      and ex: "exec_instruction env chk flags script opcode v s = Ok s1"
      by (auto simp: eval_step_def check_size_def outcome_simps split: option.splits if_splits)
    have "machine_inv s1" by (rule eval_step_inv [OF "1.prems"(1,2) st])
    then obtain ops where ops: "parse_script pc1 = Some ops" "well_formed_ops (length (vfExec s1)) ops"
      "nOpCount s1 + counted_ops ops \<le> 201"
      using "1.IH" [OF False st refl "1.prems"(1)] lp "1.prems"(4) by blast
    have "parse_script pc = Some ((opcode, v) # ops)"
      using False g ops(1) by (subst parse_script.simps) simp
    moreover have "nOpCount s + counted_ops ((opcode, v) # ops) \<le> 201"
      using exec_instruction_count [OF "1.prems"(1,2) ex] ops(3)
      by (cases "OP_16 < opcode") (simp_all add: counted_ops_def)
    ultimately show ?thesis
      using exec_instruction_static [OF ex] ops(2) by simp
  qed
qed

lemma EvalScript_static:
  assumes "short_digests MAX_SCRIPT_ELEMENT_SIZE env"
    and "length st \<le> 1000" "\<forall>x \<in> set st. length x \<le> MAX_SCRIPT_ELEMENT_SIZE"
    and "EvalScript env chk flags st script = Ok st'"
  shows "length script \<le> MAX_SCRIPT_SIZE \<and>
    (\<exists>ops. parse_script script = Some ops \<and> well_formed_ops 0 ops \<and> counted_ops ops \<le> 201)"
proof -
  let ?s0 = "\<lparr>stack = st, altstack = [], vfExec = [], nOpCount = 0\<rparr>"
  from assms(4) obtain s where s: "eval_loop env chk flags script script ?s0 = Ok s"
    "vfExec s = []" "\<not> MAX_SCRIPT_SIZE < length script"
    by (auto simp: EvalScript_def split: outcome.splits if_splits)
  have "machine_inv ?s0" using assms(2,3) by (simp add: machine_inv_def elems_def)
  from eval_loop_static [OF assms(1) this s(1,2)] s(3) show ?thesis by simp
qed

section \<open>Unspendable scripts\<close>

lemma EvalScript_unspendable:
  assumes "IsUnspendable script"
  shows "\<exists>e. EvalScript env chk flags st script = Err e"
proof (cases "MAX_SCRIPT_SIZE < length script")
  case True
  then show ?thesis by (simp add: EvalScript_def)
next
  case False
  with assms obtain b pc where sc: "script = b # pc" "unat b = OP_RETURN"
    by (cases script) (auto simp: IsUnspendable_def)
  then have "GetOp2 script = Some (pc, OP_RETURN, [])" by (simp add: GetOp2_def)
  then have "eval_step env chk flags script script \<lparr>stack = st, altstack = [], vfExec = [], nOpCount = 0\<rparr>
      = Err SCRIPT_ERR_OP_RETURN"
    by (simp add: eval_step_def exec_instruction_def is_disabled_def exec_opcode_def exec_control_def)
  with False show ?thesis
    using sc(1) by (simp add: EvalScript_def eval_loop.simps)
qed

section \<open>Properties\<close>

text \<open>An instance of the environment, for concrete runs: truncations in place of the digests.\<close>

definition sample_env :: crypto_env where
  "sample_env = \<lparr> RIPEMD160 = take 20, SHA1 = take 20, SHA256 = take 32, CheckLowS = \<lambda>_. True \<rparr>"

lemma sample_env_short [simp]: "short_digests MAX_SCRIPT_ELEMENT_SIZE sample_env"
  by (simp add: short_digests_def sample_env_def min_le_iff_disj)

text \<open>
  C3: at the head of every round of the evaluation loop the stacks hold at most 1000 elements together,
  no element is longer than 520 bytes and at most 201 operations have been counted.
\<close>

theorem EvalScript_resource_bounds:
  assumes "short_digests MAX_SCRIPT_ELEMENT_SIZE env"
    and "length st \<le> 1000" "\<forall>x \<in> set st. length x \<le> MAX_SCRIPT_ELEMENT_SIZE"
    and "reach env chk flags script st pc s"
  shows "length (stack s) + length (altstack s) \<le> 1000 \<and>
    (\<forall>x \<in> set (stack s) \<union> set (altstack s). length x \<le> MAX_SCRIPT_ELEMENT_SIZE) \<and> nOpCount s \<le> 201"
  using reach_inv [OF assms] by (simp add: machine_inv_def elems_def)

theorem EvalScript_resource_bounds_witness:
  "let s = \<lparr>stack = [[7], [7]], altstack = [], vfExec = [], nOpCount = 1\<rparr> in
   length (stack s) + length (altstack s) \<le> 1000 \<and>
   (\<forall>x \<in> set (stack s) \<union> set (altstack s). length x \<le> MAX_SCRIPT_ELEMENT_SIZE) \<and> nOpCount s \<le> 201"
proof -
  have "eval_step sample_env BaseSignatureChecker 0 [0x76] [0x76]
      \<lparr>stack = [[7]], altstack = [], vfExec = [], nOpCount = 0\<rparr> =
      Ok ([], \<lparr>stack = [[7], [7]], altstack = [], vfExec = [], nOpCount = 1\<rparr>)"
    by (simp add: eval_step_def GetOp2_def exec_instruction_def is_disabled_def exec_opcode_def
        exec_control_def exec_stack_op_def exec_DUP_def check_size_def)
  then have "reach sample_env BaseSignatureChecker 0 [0x76] [[7]] []
      \<lparr>stack = [[7], [7]], altstack = [], vfExec = [], nOpCount = 1\<rparr>"
    by (intro reach_step [OF reach_init]) simp_all
  from EvalScript_resource_bounds [OF sample_env_short _ _ this] show ?thesis by simp
qed

text \<open>
  C4: evaluation always returns, with a stack or with an error. No assertion of the interpreter or of
  the script numbers fails and no signed arithmetic overflows.
\<close>

theorem EvalScript_returns:
  assumes "short_digests MAX_SCRIPT_ELEMENT_SIZE env"
    and "length st \<le> 1000" "\<forall>x \<in> set st. length x \<le> MAX_SCRIPT_ELEMENT_SIZE"
  shows "(\<exists>st'. EvalScript env chk flags st script = Ok st' \<and> length st' \<le> 1000 \<and>
            (\<forall>x \<in> set st'. length x \<le> MAX_SCRIPT_ELEMENT_SIZE)) \<or>
         (\<exists>e. EvalScript env chk flags st script = Err e)"
  using EvalScript_total [OF assms, of chk flags script] EvalScript_bounds [OF assms, of chk flags script]
  by blast

theorem EvalScript_returns_witness:
  "(\<exists>st'. EvalScript sample_env BaseSignatureChecker 0 [] [0x51, 0x93] = Ok st' \<and> length st' \<le> 1000 \<and>
      (\<forall>x \<in> set st'. length x \<le> MAX_SCRIPT_ELEMENT_SIZE)) \<or>
   (\<exists>e. EvalScript sample_env BaseSignatureChecker 0 [] [0x51, 0x93] = Err e)"
  using EvalScript_returns [OF sample_env_short, of "[]" BaseSignatureChecker 0 "[0x51, 0x93]"] by simp

text \<open>
  C5: a script that succeeds has at most 10000 bytes, parses to its end, contains no push above 520
  bytes and no disabled opcode even in branches not taken, has balanced conditionals, and no more than
  201 opcodes above \<^verbatim>\<open>OP_16\<close>.
\<close>

theorem EvalScript_static_form:
  assumes "short_digests MAX_SCRIPT_ELEMENT_SIZE env"
    and "length st \<le> 1000" "\<forall>x \<in> set st. length x \<le> MAX_SCRIPT_ELEMENT_SIZE"
    and "EvalScript env chk flags st script = Ok st'"
  shows "length script \<le> MAX_SCRIPT_SIZE \<and>
    (\<exists>ops. parse_script script = Some ops \<and> well_formed_ops 0 ops \<and> counted_ops ops \<le> 201)"
  using assms by (rule EvalScript_static)

theorem EvalScript_static_form_witness:
  "\<exists>ops. parse_script [0x51, 0x63, 0x52, 0x68] = Some ops \<and> well_formed_ops 0 ops \<and> counted_ops ops \<le> 201"
proof -
  have "EvalScript sample_env BaseSignatureChecker 0 [] [0x51, 0x63, 0x52, 0x68] = Ok [[2]]"
    by code_simp
  from EvalScript_static_form [OF sample_env_short _ _ this] show ?thesis by simp
qed

end
