(* ===== verification/Script_Flags.thy ===== *)
theory Script_Flags
  imports Interpreter
begin

text \<open>
  The comments in \<^verbatim>\<open>src/src/script/interpreter.h\<close> call most verification flags softfork safe: a flag
  may only make a script fail. The locale states when one set of flags asks for at least what another
  asks for, and shows that success under the stricter set is success with the same stack under the
  other.
\<close>

section \<open>Stricter flags accept fewer scripts\<close>

lemma rbind_mono:
  "rbind m' f' = Ok y \<Longrightarrow> (\<And>x. m' = Ok x \<Longrightarrow> m = Ok x) \<Longrightarrow> (\<And>x. f' x = Ok y \<Longrightarrow> f x = Ok y) \<Longrightarrow>
   rbind m f = Ok y"
  by (cases m') auto

definition demands :: "uint32 \<Rightarrow> uint32 \<Rightarrow> bool" where
  "demands flags flags' \<longleftrightarrow>
     (\<forall>f \<in> {SCRIPT_VERIFY_STRICTENC, SCRIPT_VERIFY_LOW_S, SCRIPT_VERIFY_NULLDUMMY,
            SCRIPT_VERIFY_MINIMALDATA, SCRIPT_VERIFY_DISCOURAGE_UPGRADABLE_NOPS,
            SCRIPT_VERIFY_CHECKLOCKTIMEVERIFY, SCRIPT_VERIFY_NULLFAIL, SCRIPT_VERIFY_FORKID}.
        has_flag flags f \<longrightarrow> has_flag flags' f) \<and>
     (has_flag flags' SCRIPT_VERIFY_CHECKLOCKTIMEVERIFY \<longrightarrow>
        has_flag flags SCRIPT_VERIFY_CHECKLOCKTIMEVERIFY \<or>
        \<not> has_flag flags SCRIPT_VERIFY_DISCOURAGE_UPGRADABLE_NOPS)"

locale flag_restriction =
  fixes chk :: sig_checker and flags flags' :: uint32
  assumes demands: "demands flags flags'"
    and same_sig: "CheckSig chk sig key script flags = CheckSig chk sig key script flags'"
begin

lemma flag_mono:
  "has_flag flags SCRIPT_VERIFY_STRICTENC \<Longrightarrow> has_flag flags' SCRIPT_VERIFY_STRICTENC"
  "has_flag flags SCRIPT_VERIFY_LOW_S \<Longrightarrow> has_flag flags' SCRIPT_VERIFY_LOW_S"
  "has_flag flags SCRIPT_VERIFY_NULLDUMMY \<Longrightarrow> has_flag flags' SCRIPT_VERIFY_NULLDUMMY"
  "has_flag flags SCRIPT_VERIFY_MINIMALDATA \<Longrightarrow> has_flag flags' SCRIPT_VERIFY_MINIMALDATA"
  "has_flag flags SCRIPT_VERIFY_DISCOURAGE_UPGRADABLE_NOPS \<Longrightarrow>
   has_flag flags' SCRIPT_VERIFY_DISCOURAGE_UPGRADABLE_NOPS"
  "has_flag flags SCRIPT_VERIFY_NULLFAIL \<Longrightarrow> has_flag flags' SCRIPT_VERIFY_NULLFAIL"
  "has_flag flags SCRIPT_VERIFY_FORKID \<Longrightarrow> has_flag flags' SCRIPT_VERIFY_FORKID"
  using demands by (simp_all add: demands_def)

lemma num_of_mono: "num_of flags' v = Ok n \<Longrightarrow> num_of flags v = Ok n"
  using demands by (auto simp: num_of_def CScriptNum_eq_Some_iff requires_minimal_def demands_def)

lemma check_encodings_mono: "check_encodings env flags' sig key = Ok () \<Longrightarrow> check_encodings env flags sig key = Ok ()"
  using demands
  by (auto simp: check_encodings_def CheckSignatureEncoding_def CheckPubKeyEncoding_def Let_def
      demands_def split: if_splits prod.splits)

lemma discourage_mono: "discourage_nops flags' s = Ok s' \<Longrightarrow> discourage_nops flags s = Ok s'"
  using demands by (auto simp: discourage_nops_def demands_def split: if_splits)

lemma CLTV_mono:
  "exec_CHECKLOCKTIMEVERIFY chk flags' s = Ok s' \<Longrightarrow> exec_CHECKLOCKTIMEVERIFY chk flags s = Ok s'"
  using demands
  by (auto simp: exec_CHECKLOCKTIMEVERIFY_def discourage_nops_def demands_def outcome_simps bad_stack_def
      CScriptNum_eq_Some_iff requires_minimal_def split: if_splits list.splits)

lemma control_mono:
  "exec_control chk flags' fExec opcode s = Some (Ok s') \<Longrightarrow> exec_control chk flags fExec opcode s = Some (Ok s')"
  using discourage_mono [of s s'] CLTV_mono [of s s']
  unfolding exec_control_def exec_NOP5_def by (elim if_mono; simp split: if_splits)

lemma PICK_mono: "exec_PICK flags' opcode s = Ok s' \<Longrightarrow> exec_PICK flags opcode s = Ok s'"
  by (auto simp: exec_PICK_def bad_stack_def outcome_simps Let_def dest!: num_of_mono split: if_splits)

lemma stack_op_mono:
  "exec_stack_op flags' opcode s = Some (Ok s') \<Longrightarrow> exec_stack_op flags opcode s = Some (Ok s')"
proof (cases "opcode = OP_PICK \<or> opcode = OP_ROLL")
  case True
  moreover assume "exec_stack_op flags' opcode s = Some (Ok s')"
  ultimately show ?thesis by (auto simp: exec_stack_op_def PICK_mono)
next
  case False
  then have "exec_stack_op flags opcode s = exec_stack_op flags' opcode s"
    by (simp only: exec_stack_op_def if_False)
  moreover assume "exec_stack_op flags' opcode s = Some (Ok s')"
  ultimately show ?thesis by simp
qed

lemma numeric_mono:
  "exec_numeric flags' opcode s = Some (Ok s') \<Longrightarrow> exec_numeric flags opcode s = Some (Ok s')"
proof -
  have "exec_unary flags' opcode s = Ok s' \<Longrightarrow> exec_unary flags opcode s = Ok s'"
    "exec_WITHIN flags' s = Ok s' \<Longrightarrow> exec_WITHIN flags s = Ok s'"
    by (auto simp: exec_unary_def exec_WITHIN_def bad_stack_def outcome_simps dest!: num_of_mono split: list.splits)
  moreover have "exec_binary flags' opcode s = Ok s' \<Longrightarrow> exec_binary flags opcode s = Ok s'"
    by (auto simp: exec_binary_def bad_stack_def outcome_simps dest!: num_of_mono split: list.splits if_splits)
  ultimately show "exec_numeric flags' opcode s = Some (Ok s') \<Longrightarrow> ?thesis"
    unfolding exec_numeric_def by (elim if_mono; simp)
qed

lemma CHECKSIG_mono:
  "exec_CHECKSIG env chk flags' script opcode s = Ok s' \<Longrightarrow> exec_CHECKSIG env chk flags script opcode s = Ok s'"
  using flag_mono(6)
  by (auto simp: exec_CHECKSIG_def bad_stack_def rbind_eq_Ok_iff Let_def same_sig check_encodings_mono
      split: list.splits if_splits)

lemma multisig_loop_mono:
  "multisig_loop env chk flags' script sigs keys = Ok b \<Longrightarrow> multisig_loop env chk flags script sigs keys = Ok b"
proof (induction keys arbitrary: sigs)
  case Nil
  then show ?case by (cases sigs) simp_all
next
  case (Cons key keys)
  then show ?case
    by (cases sigs) (auto simp: rbind_eq_Ok_iff Let_def same_sig check_encodings_mono split: if_splits)
qed

lemma multisig_cleanup_mono:
  "multisig_cleanup flags' fS n ikey2 st = Ok st' \<Longrightarrow> multisig_cleanup flags fS n ikey2 st = Ok st'"
proof (induction n arbitrary: ikey2 st)
  case (Suc n)
  then show ?case using flag_mono(6) by (cases st) (auto split: if_splits)
qed simp

lemma multisig_finish_mono:
  "multisig_finish flags' opcode fS s st = Ok s' \<Longrightarrow> multisig_finish flags opcode fS s st = Ok s'"
  using flag_mono(3) by (auto simp: multisig_finish_def split: list.splits if_splits)


lemma CHECKMULTISIG_mono:
  "exec_CHECKMULTISIG env chk flags' script opcode s = Ok s' \<Longrightarrow>
   exec_CHECKMULTISIG env chk flags script opcode s = Ok s'"
  unfolding exec_CHECKMULTISIG_def Let_def
  by (erule if_mono rbind_mono num_of_mono multisig_loop_mono multisig_cleanup_mono multisig_finish_mono
      | assumption)+

lemma crypto_mono:
  "exec_crypto env chk flags' script opcode s = Some (Ok s') \<Longrightarrow>
   exec_crypto env chk flags script opcode s = Some (Ok s')"
  by (auto simp: exec_crypto_def CHECKSIG_mono CHECKMULTISIG_mono split: if_splits)

lemma exec_opcode_mono:
  assumes "exec_opcode env chk flags' script fExec opcode s = Ok s'"
  shows "exec_opcode env chk flags script fExec opcode s = Ok s'"
proof -
  have "(exec_control chk flags' fExec opcode s = None) = (exec_control chk flags fExec opcode s = None)"
    "(exec_stack_op flags' opcode s = None) = (exec_stack_op flags opcode s = None)"
    "(exec_numeric flags' opcode s = None) = (exec_numeric flags opcode s = None)"
    by (simp_all add: exec_control_def exec_stack_op_def exec_numeric_def)
  with assms show ?thesis
    by (auto simp: exec_opcode_def dest: control_mono stack_op_mono numeric_mono crypto_mono split: option.splits)
qed

lemma minimal_push_mono:
  "(if requires_minimal flags' \<and> c then Err e else Ok x) = Ok y \<Longrightarrow>
   (if requires_minimal flags \<and> c then Err e else Ok x) = Ok y"
  using flag_mono(4) by (auto simp: requires_minimal_def split: if_splits)

lemma exec_instruction_mono:
  "exec_instruction env chk flags' script opcode v s = Ok s' \<Longrightarrow>
   exec_instruction env chk flags script opcode v s = Ok s'"
  unfolding exec_instruction_def Let_def
  by (erule if_mono minimal_push_mono exec_opcode_mono | assumption)+

lemma eval_step_mono:
  "eval_step env chk flags' script pc s = Ok r \<Longrightarrow> eval_step env chk flags script pc s = Ok r"
  by (auto simp: eval_step_def split: option.splits elim!: rbind_mono exec_instruction_mono)

lemma eval_loop_mono:
  "eval_loop env chk flags' script pc s = Ok s' \<Longrightarrow> eval_loop env chk flags script pc s = Ok s'"
proof (induction "length pc" arbitrary: pc s rule: less_induct)
  case less
  show ?case
  proof (cases "pc = []")
    case True
    with less.prems show ?thesis by (simp add: eval_loop.simps [of _ _ _ _ "[]"])
  next
    case False
    with less.prems obtain pc1 s1 where st: "eval_step env chk flags' script pc s = Ok (pc1, s1)"
      and lp: "eval_loop env chk flags' script pc1 s1 = Ok s'"
      by (subst (asm) eval_loop.simps) (auto simp: rbind_eq_Ok_iff)
    have "eval_loop env chk flags script pc1 s1 = Ok s'"
      using eval_step_shorter [OF st] lp by (rule less.hyps)
    with False eval_step_mono [OF st] show ?thesis by (subst eval_loop.simps) simp
  qed
qed

lemma EvalScript_mono:
  "EvalScript env chk flags' st script = Ok st' \<Longrightarrow> EvalScript env chk flags st script = Ok st'"
  by (auto simp: EvalScript_def dest!: eval_loop_mono split: if_splits outcome.splits)
end

section \<open>Properties\<close>



end
