(* ===== verification/Multisig.thy ===== *)
theory Multisig
  imports Interpreter "HOL-Library.Sublist"
begin

text \<open>
  The signature loop of \<^verbatim>\<open>OP_CHECKMULTISIG\<close> walks over signatures and keys once, in order. It decides
  whether the signatures can be matched to keys that appear in the same order.
\<close>

definition signed_by :: "sig_checker \<Rightarrow> uint32 \<Rightarrow> CScript \<Rightarrow> valtype list \<Rightarrow> valtype list \<Rightarrow> bool" where
  "signed_by chk flags script sigs keys \<longleftrightarrow>
     (\<exists>ks. subseq ks keys \<and> list_all2 (\<lambda>sig key. CheckSig chk sig key script flags) sigs ks)"

lemma signed_by_Nil [simp]: "signed_by chk flags script [] keys"
  by (simp add: signed_by_def exI [of _ "[]"])

lemma signed_by_length: "signed_by chk flags script sigs keys \<Longrightarrow> length sigs \<le> length keys"
  unfolding signed_by_def by (metis list_all2_lengthD list_emb_length)

lemma signed_by_skip:
  assumes "\<not> CheckSig chk sig key script flags"
  shows "signed_by chk flags script (sig # sigs) (key # keys) \<longleftrightarrow> signed_by chk flags script (sig # sigs) keys"
proof
  assume "signed_by chk flags script (sig # sigs) (key # keys)"
  then obtain k ks where ks: "subseq (k # ks) (key # keys)" "CheckSig chk sig k script flags"
    "list_all2 (\<lambda>sig key. CheckSig chk sig key script flags) sigs ks"
    by (auto simp: signed_by_def list_all2_Cons1)
  with assms have "k \<noteq> key" by auto
  with ks(1) have "subseq (k # ks) keys" by simp
  with ks show "signed_by chk flags script (sig # sigs) keys"
    unfolding signed_by_def by (intro exI [of _ "k # ks"]) simp
next
  assume "signed_by chk flags script (sig # sigs) keys"
  then show "signed_by chk flags script (sig # sigs) (key # keys)"
    by (auto simp: signed_by_def intro: list_emb_Cons)
qed

lemma signed_by_take:
  assumes "CheckSig chk sig key script flags"
  shows "signed_by chk flags script (sig # sigs) (key # keys) \<longleftrightarrow> signed_by chk flags script sigs keys"
proof
  assume "signed_by chk flags script (sig # sigs) (key # keys)"
  then obtain k ks where ks: "subseq (k # ks) (key # keys)"
    "list_all2 (\<lambda>sig key. CheckSig chk sig key script flags) sigs ks"
    by (auto simp: signed_by_def list_all2_Cons1)
  then have "subseq ks keys" by (metis subseq_Cons' subseq_Cons2_iff)
  with ks show "signed_by chk flags script sigs keys" by (auto simp: signed_by_def)
next
  assume "signed_by chk flags script sigs keys"
  then obtain ks where "subseq ks keys" "list_all2 (\<lambda>sig key. CheckSig chk sig key script flags) sigs ks"
    by (auto simp: signed_by_def)
  with assms show "signed_by chk flags script (sig # sigs) (key # keys)"
    unfolding signed_by_def by (intro exI [of _ "key # ks"]) simp
qed

text \<open>
  C6: when every signature and key has an acceptable encoding, the loop of \<^verbatim>\<open>OP_CHECKMULTISIG\<close> answers
  true exactly when the signatures can be assigned, in order, to keys of the list that accept them.
  The greedy scan and its early exit lose no valid assignment.
\<close>

theorem multisig_loop_matches:
  assumes "\<forall>sig \<in> set sigs. \<forall>key \<in> set keys. check_encodings env flags sig key = Ok ()"
    and "length sigs \<le> length keys"
  shows "multisig_loop env chk flags script sigs keys = Ok (signed_by chk flags script sigs keys)"
  using assms
proof (induction keys arbitrary: sigs)
  case Nil
  then show ?case by simp
next
  case (Cons key keys)
  show ?case
  proof (cases sigs)
    case Nil
    then show ?thesis by simp
  next
    case (Cons sig sigs')
    let ?rest = "if CheckSig chk sig key script flags then sigs' else sigs"
    have "signed_by chk flags script sigs (key # keys) \<longleftrightarrow> signed_by chk flags script ?rest keys"
      using signed_by_take signed_by_skip Cons by simp
    moreover have "\<not> length keys < length ?rest \<Longrightarrow>
        multisig_loop env chk flags script ?rest keys = Ok (signed_by chk flags script ?rest keys)"
      using Cons.prems Cons by (intro Cons.IH) auto
    moreover have "length keys < length ?rest \<Longrightarrow> \<not> signed_by chk flags script ?rest keys"
      using signed_by_length by fastforce
    ultimately show ?thesis using Cons Cons.prems
      by (cases "CheckSig chk sig key script flags"; cases "length keys < length ?rest"; simp)
  qed
qed

theorem multisig_loop_matches_witness:
  "let chk = \<lparr>CheckSig = \<lambda>sig key _ _. last sig = last key, CheckLockTime = \<lambda>_. False\<rparr>;
       env = \<lparr>RIPEMD160 = take 20, SHA1 = take 20, SHA256 = take 32, CheckLowS = \<lambda>_. True\<rparr>;
       der = [0x30, 6, 2, 1, 1, 2, 1, 1, 1]
   in multisig_loop env chk 0 [] [der, der] [[1], [5], [1]] = Ok True \<and>
      signed_by chk 0 [] [der, der] [[1], [5], [1]]"
proof -
  let ?chk = "\<lparr>CheckSig = \<lambda>sig key _ _. last sig = last key, CheckLockTime = \<lambda>_. False\<rparr>"
  let ?env = "\<lparr>RIPEMD160 = take 20, SHA1 = take 20, SHA256 = take 32, CheckLowS = \<lambda>_. True\<rparr>"
  let ?der = "[0x30, 6, 2, 1, 1, 2, 1, 1, 1] :: valtype"
  have enc: "check_encodings ?env 0 ?der key = Ok ()" for key
    by (simp add: check_encodings_def CheckSignatureEncoding_def IsValidSignatureEncoding_def
        CheckPubKeyEncoding_def has_flag_def)
  then have "multisig_loop ?env ?chk 0 [] [?der, ?der] [[1], [5], [1]] = Ok True"
    by (simp add: Let_def)
  then show ?thesis
    using multisig_loop_matches [of "[?der, ?der]" "[[1], [5], [1]]" ?env 0 ?chk "[]"] enc
    by (simp add: Let_def)
qed

end
