(* ===== verification/VerifyScript.thy ===== *)
theory VerifyScript
  imports Interpreter_Safety Script_Flags Multisig
begin

text \<open>
  \<^verbatim>\<open>VerifyWitnessProgram\<close> and \<^verbatim>\<open>VerifyScript\<close> of \<^verbatim>\<open>src/src/script/interpreter.cpp\<close>, and what a successful
  verification means for the kinds of output scripts: pay to script hash, pay to public key hash,
  unspendable outputs, and the standard flags against the mandatory ones.
\<close>

section \<open>Verification of an input\<close>

definition p2pkh_script :: "valtype \<Rightarrow> CScript" where
  "p2pkh_script h =
     [op_byte OP_DUP, op_byte OP_HASH160] @ push_data h @ [op_byte OP_EQUALVERIFY, op_byte OP_CHECKSIG]"

definition witness_run ::
  "crypto_env \<Rightarrow> sig_checker \<Rightarrow> uint32 \<Rightarrow> valtype list \<Rightarrow> CScript \<Rightarrow> (ScriptError, unit) outcome" where
  "witness_run env chk flags st script =
     (if \<exists>x \<in> set st. MAX_SCRIPT_ELEMENT_SIZE < length x then Err SCRIPT_ERR_PUSH_SIZE
      else rbind (EvalScript env chk flags st script) (\<lambda>st'.
        if length st' \<noteq> 1 then Err SCRIPT_ERR_EVAL_FALSE
        else if \<not> CastToBool (hd st') then Err SCRIPT_ERR_EVAL_FALSE
        else Ok ()))"

definition VerifyWitnessProgram ::
  "crypto_env \<Rightarrow> sig_checker \<Rightarrow> uint32 \<Rightarrow> valtype list \<Rightarrow> nat \<Rightarrow> valtype \<Rightarrow> (ScriptError, unit) outcome" where
  "VerifyWitnessProgram env chk flags stackIn witversion program =
     (if witversion = 0 then
        (if length program = 32 then
           (case stackIn of
              [] \<Rightarrow> Err SCRIPT_ERR_WITNESS_PROGRAM_WITNESS_EMPTY
            | script # st \<Rightarrow>
                if SHA256 env script \<noteq> program then Err SCRIPT_ERR_WITNESS_PROGRAM_MISMATCH
                else witness_run env chk flags st script)
         else if length program = 20 then
           (if length stackIn \<noteq> 2 then Err SCRIPT_ERR_WITNESS_PROGRAM_MISMATCH
            else witness_run env chk flags stackIn (p2pkh_script program))
         else Err SCRIPT_ERR_WITNESS_PROGRAM_WRONG_LENGTH)
      else if has_flag flags SCRIPT_VERIFY_DISCOURAGE_UPGRADABLE_WITNESS_PROGRAM
      then Err SCRIPT_ERR_DISCOURAGE_UPGRADABLE_WITNESS_PROGRAM
      else Ok ())"

definition check_top :: "valtype list \<Rightarrow> (ScriptError, unit) outcome" where
  "check_top st =
     (case st of
        [] \<Rightarrow> Err SCRIPT_ERR_EVAL_FALSE
      | x # _ \<Rightarrow> if CastToBool x then Ok () else Err SCRIPT_ERR_EVAL_FALSE)"

text \<open>
  The witness block after an evaluation of \<open>script\<close> that left \<open>st\<close>, with \<open>witStack\<close> the stack before
  it. \<^verbatim>\<open>stack.resize(1)\<close> keeps the bottom element.
\<close>

definition verify_witness ::
  "crypto_env \<Rightarrow> sig_checker \<Rightarrow> uint32 \<Rightarrow> CScript \<Rightarrow> valtype list \<Rightarrow> valtype list \<Rightarrow>
   (ScriptError, valtype list) outcome" where
  "verify_witness env chk flags script witStack st =
     (if has_flag flags SCRIPT_VERIFY_WITNESS then
        (case IsWitnessProgram script of
           None \<Rightarrow> Ok st
         | Some (version, program) \<Rightarrow>
             rbind (VerifyWitnessProgram env chk flags witStack version program) (\<lambda>_. Ok [last st]))
      else Ok st)"

definition verify_p2sh ::
  "crypto_env \<Rightarrow> sig_checker \<Rightarrow> uint32 \<Rightarrow> CScript \<Rightarrow> CScript \<Rightarrow> valtype list \<Rightarrow> valtype list \<Rightarrow>
   (ScriptError, valtype list) outcome" where
  "verify_p2sh env chk flags scriptSig scriptPubKey stackCopy st =
     (if has_flag flags SCRIPT_VERIFY_P2SH \<and> IsPayToScriptHash scriptPubKey then
        (if \<not> IsPushOnly scriptSig then Err SCRIPT_ERR_SIG_PUSHONLY
         else case stackCopy of
           [] \<Rightarrow> Abort
         | pubKey2 # st1 \<Rightarrow>
             rbind (EvalScript env chk flags st1 pubKey2) (\<lambda>st2.
             rbind (check_top st2) (\<lambda>_.
             verify_witness env chk flags pubKey2 st1 st2)))
      else Ok st)"

definition verify_final :: "uint32 \<Rightarrow> valtype list \<Rightarrow> (ScriptError, unit) outcome" where
  "verify_final flags st =
     (let p2sh = has_flag flags SCRIPT_VERIFY_P2SH;
          witness = (if has_flag flags SCRIPT_VERIFY_WITNESS \<and> \<not> p2sh then Abort else Ok ())
      in if has_flag flags SCRIPT_VERIFY_CLEANSTACK then
           (if \<not> p2sh then Abort
            else if length st \<noteq> 1 then Err SCRIPT_ERR_CLEANSTACK
            else witness)
         else witness)"

definition VerifyScript ::
  "crypto_env \<Rightarrow> sig_checker \<Rightarrow> uint32 \<Rightarrow> CScript \<Rightarrow> CScript \<Rightarrow> (ScriptError, unit) outcome" where
  "VerifyScript env chk flags scriptSig scriptPubKey =
     (if has_flag flags SCRIPT_VERIFY_SIGPUSHONLY \<and> \<not> IsPushOnly scriptSig
      then Err SCRIPT_ERR_SIG_PUSHONLY
      else rbind (EvalScript env chk flags [] scriptSig) (\<lambda>stackCopy.
        rbind (EvalScript env chk flags stackCopy scriptPubKey) (\<lambda>st.
        rbind (check_top st) (\<lambda>_.
        rbind (verify_witness env chk flags scriptPubKey stackCopy st) (\<lambda>st'.
        rbind (verify_p2sh env chk flags scriptSig scriptPubKey stackCopy st') (\<lambda>st''.
        verify_final flags st''))))))"

section \<open>Evaluating given scripts\<close>

lemma eval_loop_Nil [simp]: "eval_loop env chk flags script [] s = Ok s"
  by (simp add: eval_loop.simps)

lemma eval_loop_op:
  assumes "OP_PUSHDATA4 < opcode" "opcode < 256"
  shows "eval_loop env chk flags script (op_byte opcode # pc) s =
    rbind (exec_instruction env chk flags script opcode [] s) (\<lambda>s1.
    rbind (check_size s1) (eval_loop env chk flags script pc))"
  by (subst eval_loop.simps) (simp add: eval_step_def GetOp2_opcode [OF assms] rbind_assoc)

lemma eval_loop_push_data:
  assumes "length v + length pc < 2 ^ 32"
  shows "eval_loop env chk flags script (push_data v @ pc) s =
    rbind (exec_instruction env chk flags script (push_opcode_of v) v s) (\<lambda>s1.
    rbind (check_size s1) (eval_loop env chk flags script pc))"
  by (subst eval_loop.simps) (simp add: eval_step_def GetOp2_push_data [OF assms] rbind_assoc)

lemma not_disabled_push: "opcode \<le> OP_16 \<Longrightarrow> \<not> is_disabled opcode"
  by (auto simp: is_disabled_def)

lemma exec_push_data:
  assumes "False \<notin> set (vfExec s)" "length v \<le> MAX_SCRIPT_ELEMENT_SIZE"
    "requires_minimal flags \<Longrightarrow> CheckMinimalPush v (push_opcode_of v)"
  shows "exec_instruction env chk flags script (push_opcode_of v) v s = Ok (push v s)"
  using assms push_opcode_of_le [of v]
  by (simp add: exec_instruction_def not_disabled_push)

lemma minimal_push_opcode: "2 \<le> length v \<Longrightarrow> CheckMinimalPush v (push_opcode_of v)"
  by (auto simp: CheckMinimalPush_def push_opcode_of_def)

lemma op_byte_unat: "op_byte (unat (b :: byte)) = b"
  by (simp add: op_byte_def)

section \<open>Pay to script hash\<close>

lemma list_23:
  assumes "length s = 23"
  shows "s = s ! 0 # s ! 1 # take 20 (drop 2 s) @ [s ! 22]"
proof -
  have "drop 0 s = s ! 0 # drop 1 s" "drop 1 s = s ! 1 # drop 2 s" "drop 22 s = s ! 22 # drop 23 s"
    using assms Cons_nth_drop_Suc [of 0 s] Cons_nth_drop_Suc [of 1 s] Cons_nth_drop_Suc [of 22 s]
    by (simp_all add: numeral_2_eq_2)
  moreover have "drop 2 s = take 20 (drop 2 s) @ drop 22 s"
    using append_take_drop_id [of 20 "drop 2 s"] by simp
  ultimately show ?thesis using assms by simp
qed

lemma IsPayToScriptHash_form:
  assumes "IsPayToScriptHash s"
  obtains h where "length h = 20" "s = op_byte OP_HASH160 # push_data h @ [op_byte OP_EQUAL]"
    "h = take 20 (drop 2 s)"
proof (rule that [of "take 20 (drop 2 s)"])
  show "length (take 20 (drop 2 s)) = 20" using assms by (simp add: IsPayToScriptHash_def)
  have b: "s ! 0 = op_byte OP_HASH160" "s ! 22 = op_byte OP_EQUAL"
    using assms op_byte_unat [of "s ! 0"] op_byte_unat [of "s ! 22"]
    by (simp_all add: IsPayToScriptHash_def)
  have p: "push_data (take 20 (drop 2 s)) = s ! 1 # take 20 (drop 2 s)" and len: "length s = 23"
    using assms by (simp_all add: IsPayToScriptHash_def push_data_def)
  have "s = s ! 0 # s ! 1 # take 20 (drop 2 s) @ [s ! 22]" by (rule list_23 [OF len])
  also have "\<dots> = op_byte OP_HASH160 # push_data (take 20 (drop 2 s)) @ [op_byte OP_EQUAL]"
    by (simp only: b p append_Cons)
  finally show "s = op_byte OP_HASH160 # push_data (take 20 (drop 2 s)) @ [op_byte OP_EQUAL]" .
qed (rule refl)

lemma exec_HASH160:
  "vfExec s = [] \<Longrightarrow> exec_instruction env chk flags script OP_HASH160 [] s =
    (if 201 < Suc (nOpCount s) then Err SCRIPT_ERR_OP_COUNT
     else exec_HASH env OP_HASH160 (s\<lparr>nOpCount := nOpCount s + 1\<rparr>))"
  by (simp add: exec_instruction_def is_disabled_def exec_opcode_def exec_control_def exec_stack_op_def
      exec_numeric_def exec_crypto_def)

lemma exec_EQUAL_op:
  "vfExec s = [] \<Longrightarrow> exec_instruction env chk flags script OP_EQUAL [] s =
    (if 201 < Suc (nOpCount s) then Err SCRIPT_ERR_OP_COUNT
     else exec_EQUAL OP_EQUAL (s\<lparr>nOpCount := nOpCount s + 1\<rparr>))"
  by (simp add: exec_instruction_def is_disabled_def exec_opcode_def exec_control_def exec_stack_op_def
      exec_numeric_def)

lemma EvalScript_p2sh:
  assumes "IsPayToScriptHash s" "EvalScript env chk flags st s = Ok st'"
  obtains x rest where "st = x # rest" "st' = bool_vch (CHash160 env x = take 20 (drop 2 s)) # rest"
proof -
  from assms(1) obtain h where h: "length h = 20" "s = op_byte OP_HASH160 # push_data h @ [op_byte OP_EQUAL]"
    "h = take 20 (drop 2 s)"
    by (rule IsPayToScriptHash_form)
  let ?s0 = "\<lparr>stack = st, altstack = [], vfExec = [], nOpCount = 0\<rparr>"
  have l: "length h + length [op_byte OP_EQUAL] < 2 ^ 32" using h(1) by simp
  have pu: "exec_instruction env chk flags s (push_opcode_of h) h s1 = Ok (push h s1)"
    if "vfExec s1 = []" for s1
    using that h(1) minimal_push_opcode [of h] by (intro exec_push_data) simp_all
  obtain s' where lp: "eval_loop env chk flags s s ?s0 = Ok s'" "st' = stack s'"
    using assms(2) by (auto simp: EvalScript_def split: outcome.splits if_splits)
  from lp(1) have "eval_loop env chk flags s (op_byte OP_HASH160 # push_data h @ [op_byte OP_EQUAL]) ?s0 = Ok s'"
    using h(2) by simp
  then obtain x rest where "st = x # rest" "st' = bool_vch (CHash160 env x = h) # rest"
    using lp(2)
    by (cases st)
       (auto simp: eval_loop_op eval_loop_push_data [OF l] exec_HASH160 exec_HASH_def bad_stack_def check_size_def
        pu push_def exec_EQUAL_op exec_EQUAL_def split: if_splits)
  with that h(3) show thesis by simp
qed

lemma VerifyScript_Ok_iff:
  "VerifyScript env chk flags scriptSig scriptPubKey = Ok () \<longleftrightarrow>
     (has_flag flags SCRIPT_VERIFY_SIGPUSHONLY \<longrightarrow> IsPushOnly scriptSig) \<and>
     (\<exists>st0 st1 st2 st3. EvalScript env chk flags [] scriptSig = Ok st0 \<and>
        EvalScript env chk flags st0 scriptPubKey = Ok st1 \<and> check_top st1 = Ok () \<and>
        verify_witness env chk flags scriptPubKey st0 st1 = Ok st2 \<and>
        verify_p2sh env chk flags scriptSig scriptPubKey st0 st2 = Ok st3 \<and>
        verify_final flags st3 = Ok ())"
  by (auto simp: VerifyScript_def rbind_eq_Ok_iff)

lemma VerifyScript_p2sh:
  assumes "IsPayToScriptHash scriptPubKey" "has_flag flags SCRIPT_VERIFY_P2SH"
    and "VerifyScript env chk flags scriptSig scriptPubKey = Ok ()"
  obtains redeem st st' where "IsPushOnly scriptSig"
    "EvalScript env chk flags [] scriptSig = Ok (redeem # st)"
    "CHash160 env redeem = take 20 (drop 2 scriptPubKey)"
    "EvalScript env chk flags st redeem = Ok st'" "check_top st' = Ok ()"
proof -
  from assms(3) obtain st0 st1 st2 st3 where
    e0: "EvalScript env chk flags [] scriptSig = Ok st0"
    and e1: "EvalScript env chk flags st0 scriptPubKey = Ok st1" and t: "check_top st1 = Ok ()"
    and p: "verify_p2sh env chk flags scriptSig scriptPubKey st0 st2 = Ok st3"
    by (auto simp: VerifyScript_Ok_iff)
  from e1 obtain redeem st where st: "st0 = redeem # st"
    "st1 = bool_vch (CHash160 env redeem = take 20 (drop 2 scriptPubKey)) # st"
    by (rule EvalScript_p2sh [OF assms(1)])
  have "CHash160 env redeem = take 20 (drop 2 scriptPubKey)"
    using t by (auto simp: st(2) check_top_def bool_vch_def split: if_splits)
  moreover from p assms(1,2) st(1) obtain st' where "IsPushOnly scriptSig"
    "EvalScript env chk flags st redeem = Ok st'" "check_top st' = Ok ()"
    by (auto simp: verify_p2sh_def rbind_eq_Ok_iff split: if_splits)
  ultimately show thesis using that e0 st(1) by blast
qed

section \<open>Totality\<close>

lemma check_top_neq [simp]: "check_top st \<noteq> Abort" "check_top st \<noteq> Throw"
  by (auto simp: check_top_def split: list.split)

definition good_stack :: "valtype list \<Rightarrow> bool" where
  "good_stack st \<longleftrightarrow> length st \<le> 1000 \<and> (\<forall>x \<in> set st. length x \<le> MAX_SCRIPT_ELEMENT_SIZE)"

lemma good_stack_Nil [simp]: "good_stack []"
  by (simp add: good_stack_def)

lemma good_stack_tl: "good_stack (x # st) \<Longrightarrow> good_stack st"
  by (simp add: good_stack_def)

lemma EvalScript_good:
  assumes "short_digests MAX_SCRIPT_ELEMENT_SIZE env" "good_stack st"
  shows "EvalScript env chk flags st script \<noteq> Abort" "EvalScript env chk flags st script \<noteq> Throw"
    "EvalScript env chk flags st script = Ok st' \<Longrightarrow> good_stack st'"
proof -
  have st: "length st \<le> 1000" "\<forall>x \<in> set st. length x \<le> MAX_SCRIPT_ELEMENT_SIZE"
    using assms(2) by (simp_all add: good_stack_def)
  show "EvalScript env chk flags st script \<noteq> Abort" "EvalScript env chk flags st script \<noteq> Throw"
    using EvalScript_total [OF assms(1) st, of chk flags script] by auto
  show "EvalScript env chk flags st script = Ok st' \<Longrightarrow> good_stack st'"
    using EvalScript_bounds [OF assms(1) st] unfolding good_stack_def by blast
qed

lemma witness_run_total:
  assumes "short_digests MAX_SCRIPT_ELEMENT_SIZE env" "good_stack st"
  shows "witness_run env chk flags st script \<noteq> Abort" "witness_run env chk flags st script \<noteq> Throw"
  using EvalScript_good(1,2) [OF assms]
  by (auto simp: witness_run_def rbind_eq_Abort_iff rbind_eq_Throw_iff split: if_splits)

lemma VerifyWitnessProgram_total:
  assumes "short_digests MAX_SCRIPT_ELEMENT_SIZE env" "good_stack st"
  shows "VerifyWitnessProgram env chk flags st version program \<noteq> Abort"
    "VerifyWitnessProgram env chk flags st version program \<noteq> Throw"
  using witness_run_total [OF assms] witness_run_total [OF assms(1) good_stack_tl [of "hd st" "tl st"]] assms(2)
  by (cases st; simp add: VerifyWitnessProgram_def)+

lemma verify_witness_total:
  assumes "short_digests MAX_SCRIPT_ELEMENT_SIZE env" "good_stack witStack"
  shows "verify_witness env chk flags script witStack st \<noteq> Abort"
    "verify_witness env chk flags script witStack st \<noteq> Throw"
  using VerifyWitnessProgram_total [OF assms]
  by (auto simp: verify_witness_def rbind_eq_Abort_iff rbind_eq_Throw_iff split: option.splits)

lemma verify_p2sh_total:
  assumes "short_digests MAX_SCRIPT_ELEMENT_SIZE env" "good_stack st0"
    and "EvalScript env chk flags st0 scriptPubKey = Ok st1"
  shows "verify_p2sh env chk flags scriptSig scriptPubKey st0 st \<noteq> Abort"
    "verify_p2sh env chk flags scriptSig scriptPubKey st0 st \<noteq> Throw"
proof -
  have "st0 \<noteq> []" if "IsPayToScriptHash scriptPubKey"
    using EvalScript_p2sh [OF that assms(3)] by blast
  then show "verify_p2sh env chk flags scriptSig scriptPubKey st0 st \<noteq> Abort"
    "verify_p2sh env chk flags scriptSig scriptPubKey st0 st \<noteq> Throw"
    using EvalScript_good(1,2) [OF assms(1) good_stack_tl] verify_witness_total [OF assms(1) good_stack_tl] assms(2)
    by (auto simp: verify_p2sh_def rbind_eq_Abort_iff rbind_eq_Throw_iff split: list.splits)
qed

lemma VerifyScript_total:
  assumes "short_digests MAX_SCRIPT_ELEMENT_SIZE env"
    and "has_flag flags SCRIPT_VERIFY_CLEANSTACK \<or> has_flag flags SCRIPT_VERIFY_WITNESS \<Longrightarrow>
         has_flag flags SCRIPT_VERIFY_P2SH"
  shows "VerifyScript env chk flags scriptSig scriptPubKey \<noteq> Abort"
    "VerifyScript env chk flags scriptSig scriptPubKey \<noteq> Throw"
proof -
  have f: "verify_final flags st \<noteq> Abort" "verify_final flags st \<noteq> Throw" for st
    using assms(2) by (auto simp: verify_final_def Let_def)
  have g: "EvalScript env chk flags [] scriptSig = Ok st \<Longrightarrow> good_stack st" for st
    by (rule EvalScript_good(3) [OF assms(1) good_stack_Nil])
  note e = EvalScript_good(1,2) [OF assms(1)]
  note w = verify_witness_total [OF assms(1)] and p = verify_p2sh_total [OF assms(1)]
  show "VerifyScript env chk flags scriptSig scriptPubKey \<noteq> Abort"
    by (auto simp: VerifyScript_def rbind_eq_Abort_iff f e w p dest!: g)
  show "VerifyScript env chk flags scriptSig scriptPubKey \<noteq> Throw"
    by (auto simp: VerifyScript_def rbind_eq_Throw_iff f e w p dest!: g)
qed

lemma VerifyScript_unspendable:
  assumes "IsUnspendable scriptPubKey"
  shows "VerifyScript env chk flags scriptSig scriptPubKey \<noteq> Ok ()"
proof -
  have "EvalScript env chk flags st scriptPubKey \<noteq> Ok st'" for st st'
    using EvalScript_unspendable [OF assms, of env chk flags st] by auto
  then show ?thesis by (simp add: VerifyScript_Ok_iff)
qed

section \<open>Pay to public key hash\<close>

lemma exec_DUP_op:
  "vfExec s = [] \<Longrightarrow> exec_instruction env chk flags script OP_DUP [] s =
    (if 201 < Suc (nOpCount s) then Err SCRIPT_ERR_OP_COUNT
     else exec_DUP (s\<lparr>nOpCount := nOpCount s + 1\<rparr>))"
  by (simp add: exec_instruction_def is_disabled_def exec_opcode_def exec_control_def exec_stack_op_def)

lemma exec_EQUALVERIFY_op:
  "vfExec s = [] \<Longrightarrow> exec_instruction env chk flags script OP_EQUALVERIFY [] s =
    (if 201 < Suc (nOpCount s) then Err SCRIPT_ERR_OP_COUNT
     else exec_EQUAL OP_EQUALVERIFY (s\<lparr>nOpCount := nOpCount s + 1\<rparr>))"
  by (simp add: exec_instruction_def is_disabled_def exec_opcode_def exec_control_def exec_stack_op_def
      exec_numeric_def)

lemma exec_CHECKSIG_op:
  "vfExec s = [] \<Longrightarrow> exec_instruction env chk flags script OP_CHECKSIG [] s =
    (if 201 < Suc (nOpCount s) then Err SCRIPT_ERR_OP_COUNT
     else exec_CHECKSIG env chk flags script OP_CHECKSIG (s\<lparr>nOpCount := nOpCount s + 1\<rparr>))"
  by (simp add: exec_instruction_def is_disabled_def exec_opcode_def exec_control_def exec_stack_op_def
      exec_numeric_def exec_crypto_def)

lemma length_push_data: "length (push_data v) \<le> length v + 5"
  by (simp add: push_data_def)

lemma EvalScript_two_pushes:
  assumes "2 \<le> length sig" "length sig \<le> MAX_SCRIPT_ELEMENT_SIZE"
    "2 \<le> length key" "length key \<le> MAX_SCRIPT_ELEMENT_SIZE"
  shows "EvalScript env chk flags [] (push_data sig @ push_data key) = Ok [key, sig]"
proof -
  have l: "length sig + length (push_data key) < 2 ^ 32" "length key + length [] < 2 ^ 32"
    using assms length_push_data [of key] by simp_all
  have "length (push_data sig @ push_data key) \<le> MAX_SCRIPT_SIZE"
    using assms length_push_data [of key] length_push_data [of sig] by simp
  moreover have pu: "exec_instruction env chk flags script (push_opcode_of v) v s1 = Ok (push v s1)"
    if "vfExec s1 = []" "v \<in> {sig, key}" for s1 v script
    using that assms minimal_push_opcode [of v] by (intro exec_push_data) auto
  ultimately show ?thesis
    using eval_loop_push_data [OF l(2)]
    by (simp add: EvalScript_def eval_loop_push_data [OF l(1)] pu check_size_def push_def)
qed

lemma EvalScript_p2pkh:
  assumes "length h = 20"
  shows "EvalScript env chk flags [key, sig] (p2pkh_script h) =
    (if CHash160 env key \<noteq> h then Err SCRIPT_ERR_EQUALVERIFY
     else rbind (check_encodings env flags sig key) (\<lambda>_.
       let fSuccess = CheckSig chk sig key (p2pkh_script h) flags in
       if \<not> fSuccess \<and> has_flag flags SCRIPT_VERIFY_NULLFAIL \<and> length sig \<noteq> 0
       then Err SCRIPT_ERR_SIG_NULLFAIL else Ok [bool_vch fSuccess]))"
proof -
  have l: "length h + length [op_byte OP_EQUALVERIFY, op_byte OP_CHECKSIG] < 2 ^ 32" using assms by simp
  have pu: "exec_instruction env chk flags script (push_opcode_of h) h s1 = Ok (push h s1)"
    if "vfExec s1 = []" for s1 script
    using that assms minimal_push_opcode [of h] by (intro exec_push_data) simp_all
  have sz: "length (p2pkh_script h) \<le> MAX_SCRIPT_SIZE"
    using assms length_push_data [of h] by (simp add: p2pkh_script_def)
  have n: "check_encodings env flags sig key \<noteq> Throw" "check_encodings env flags sig key \<noteq> Abort"
    by (auto simp: check_encodings_def Let_def split: prod.split)
  define script where "script = p2pkh_script h"
  have "eval_loop env chk flags script (p2pkh_script h) \<lparr>stack = [key, sig], altstack = [], vfExec = [], nOpCount = 0\<rparr> =
    (if CHash160 env key \<noteq> h then Err SCRIPT_ERR_EQUALVERIFY
     else rbind (check_encodings env flags sig key) (\<lambda>_.
       let fSuccess = CheckSig chk sig key script flags in
       if \<not> fSuccess \<and> has_flag flags SCRIPT_VERIFY_NULLFAIL \<and> length sig \<noteq> 0
       then Err SCRIPT_ERR_SIG_NULLFAIL
       else Ok \<lparr>stack = [bool_vch fSuccess], altstack = [], vfExec = [], nOpCount = 4\<rparr>))"
    by (cases "check_encodings env flags sig key")
      (simp_all add: p2pkh_script_def eval_loop_op exec_DUP_op exec_DUP_def exec_HASH160 exec_HASH_def check_size_def
        eval_loop_push_data [OF l, simplified] pu push_def exec_EQUALVERIFY_op exec_EQUAL_def exec_CHECKSIG_op exec_CHECKSIG_def Let_def)
  then show ?thesis
    using sz n
    by (cases "check_encodings env flags sig key") (simp_all add: EvalScript_def script_def Let_def)
qed

lemma p2pkh_script_bytes:
  "length h = 20 \<Longrightarrow> p2pkh_script h = 118 # 169 # 20 # h @ [136, 172]"
  by (simp add: p2pkh_script_def op_byte_def push_data_def)

lemma p2pkh_not_special:
  assumes "length h = 20"
  shows "\<not> IsPayToScriptHash (p2pkh_script h)" "IsWitnessProgram (p2pkh_script h) = None"
  using assms by (simp_all add: p2pkh_script_bytes IsPayToScriptHash_def IsWitnessProgram_def)

lemma VerifyScript_p2pkh_iff:
  assumes "length h = 20" "2 \<le> length sig" "length sig \<le> MAX_SCRIPT_ELEMENT_SIZE"
    "2 \<le> length key" "length key \<le> MAX_SCRIPT_ELEMENT_SIZE"
    and flags: "has_flag flags SCRIPT_VERIFY_CLEANSTACK \<or> has_flag flags SCRIPT_VERIFY_WITNESS \<Longrightarrow>
         has_flag flags SCRIPT_VERIFY_P2SH"
  shows "VerifyScript env chk flags (push_data sig @ push_data key) (p2pkh_script h) = Ok () \<longleftrightarrow>
    CHash160 env key = h \<and> check_encodings env flags sig key = Ok () \<and>
    CheckSig chk sig key (p2pkh_script h) flags"
proof -
  have push: "IsPushOnly (push_data sig @ push_data key)"
  proof -
    have "length sig + length (push_data key) < 2 ^ 32" "length key + length [] < 2 ^ 32"
      using assms length_push_data [of key] by simp_all
    then show ?thesis using IsPushOnly_push_data [of key "[]"] by simp
  qed
  have final: "verify_final flags [x] = Ok ()" for x using flags by (auto simp: verify_final_def Let_def)
  have "verify_witness env chk flags (p2pkh_script h) st0 st = Ok st"
    "verify_p2sh env chk flags ss (p2pkh_script h) st0 st = Ok st" for st0 st ss
    using p2pkh_not_special [OF assms(1)] by (simp_all add: verify_witness_def verify_p2sh_def)
  then have "VerifyScript env chk flags (push_data sig @ push_data key) (p2pkh_script h) = Ok () \<longleftrightarrow>
      (\<exists>st. EvalScript env chk flags [key, sig] (p2pkh_script h) = Ok st \<and> check_top st = Ok () \<and>
        verify_final flags st = Ok ())"
    using push EvalScript_two_pushes [OF assms(2-5), of env chk flags] by (simp add: VerifyScript_Ok_iff)
  also have "\<dots> \<longleftrightarrow> CHash160 env key = h \<and> check_encodings env flags sig key = Ok () \<and>
    CheckSig chk sig key (p2pkh_script h) flags"
    by (auto simp: EvalScript_p2pkh [OF assms(1)] rbind_eq_Ok_iff Let_def bool_vch_def check_top_def final
        split: if_splits)
  finally show ?thesis .
qed

section \<open>Stricter flags\<close>

locale verify_restriction = flag_restriction +
  assumes verify_flags:
    "has_flag flags SCRIPT_VERIFY_P2SH \<Longrightarrow> has_flag flags' SCRIPT_VERIFY_P2SH"
    "has_flag flags SCRIPT_VERIFY_SIGPUSHONLY \<Longrightarrow> has_flag flags' SCRIPT_VERIFY_SIGPUSHONLY"
    "has_flag flags SCRIPT_VERIFY_CLEANSTACK \<Longrightarrow> has_flag flags' SCRIPT_VERIFY_CLEANSTACK"
    "has_flag flags SCRIPT_VERIFY_WITNESS \<Longrightarrow> has_flag flags' SCRIPT_VERIFY_WITNESS"
    "has_flag flags SCRIPT_VERIFY_DISCOURAGE_UPGRADABLE_WITNESS_PROGRAM \<Longrightarrow>
     has_flag flags' SCRIPT_VERIFY_DISCOURAGE_UPGRADABLE_WITNESS_PROGRAM"
    and clean_witness: "has_flag flags SCRIPT_VERIFY_CLEANSTACK \<Longrightarrow>
      has_flag flags SCRIPT_VERIFY_WITNESS \<longleftrightarrow> has_flag flags' SCRIPT_VERIFY_WITNESS"
    and needs_p2sh: "has_flag flags SCRIPT_VERIFY_CLEANSTACK \<or> has_flag flags SCRIPT_VERIFY_WITNESS \<Longrightarrow>
      has_flag flags SCRIPT_VERIFY_P2SH"
begin

lemma witness_run_mono: "witness_run env chk flags' st script = Ok () \<Longrightarrow> witness_run env chk flags st script = Ok ()"
  by (auto simp: witness_run_def rbind_eq_Ok_iff dest!: EvalScript_mono split: if_splits)

lemma VerifyWitnessProgram_mono:
  "VerifyWitnessProgram env chk flags' st version program = Ok () \<Longrightarrow>
   VerifyWitnessProgram env chk flags st version program = Ok ()"
  using verify_flags(5)
  by (auto simp: VerifyWitnessProgram_def witness_run_mono split: list.splits if_splits)

lemma verify_witness_mono:
  assumes "verify_witness env chk flags' script witStack st = Ok st'"
  shows "verify_witness env chk flags script witStack st =
    Ok (if has_flag flags SCRIPT_VERIFY_WITNESS \<longleftrightarrow> has_flag flags' SCRIPT_VERIFY_WITNESS then st' else st)"
  using assms verify_flags(4) VerifyWitnessProgram_mono
  by (auto simp: verify_witness_def rbind_eq_Ok_iff split: option.splits if_splits)

lemma verify_p2sh_mono:
  assumes "verify_p2sh env chk flags' scriptSig scriptPubKey stackCopy st = Ok st'"
  obtains st'' where "verify_p2sh env chk flags scriptSig scriptPubKey stackCopy st1 = Ok st''"
    "has_flag flags SCRIPT_VERIFY_CLEANSTACK \<Longrightarrow> st1 = st \<Longrightarrow> st'' = st'"
proof (cases "has_flag flags SCRIPT_VERIFY_P2SH \<and> IsPayToScriptHash scriptPubKey")
  case True
  with assms verify_flags(1) obtain pubKey2 st0 st2 where c: "IsPushOnly scriptSig" "stackCopy = pubKey2 # st0"
    "EvalScript env chk flags' st0 pubKey2 = Ok st2" "check_top st2 = Ok ()"
    "verify_witness env chk flags' pubKey2 st0 st2 = Ok st'"
    by (auto simp: verify_p2sh_def rbind_eq_Ok_iff split: if_splits list.splits)
  show thesis
    by (rule that [of "if has_flag flags SCRIPT_VERIFY_WITNESS \<longleftrightarrow> has_flag flags' SCRIPT_VERIFY_WITNESS then st' else st2"])
       (use True c(1,2,4) EvalScript_mono [OF c(3)] verify_witness_mono [OF c(5)] clean_witness
      in \<open>simp_all add: verify_p2sh_def\<close>)
next
  case False
  then have a: "verify_p2sh env chk flags scriptSig scriptPubKey stackCopy st1 = Ok st1"
    by (auto simp: verify_p2sh_def)
  have "st = st'" if "has_flag flags SCRIPT_VERIFY_CLEANSTACK"
    using that False assms needs_p2sh by (auto simp: verify_p2sh_def)
  with a that [of st1] show thesis by simp
qed

lemma verify_final_mono:
  assumes "verify_final flags' st' = Ok ()" "has_flag flags SCRIPT_VERIFY_CLEANSTACK \<Longrightarrow> st = st'"
  shows "verify_final flags st = Ok ()"
  using assms verify_flags(3) needs_p2sh by (auto simp: verify_final_def Let_def split: if_splits)

lemma VerifyScript_mono:
  assumes "VerifyScript env chk flags' scriptSig scriptPubKey = Ok ()"
  shows "VerifyScript env chk flags scriptSig scriptPubKey = Ok ()"
proof -
  from assms obtain st0 st1 st2 st3 where v: "has_flag flags' SCRIPT_VERIFY_SIGPUSHONLY \<longrightarrow> IsPushOnly scriptSig"
    "EvalScript env chk flags' [] scriptSig = Ok st0" "EvalScript env chk flags' st0 scriptPubKey = Ok st1"
    "check_top st1 = Ok ()" "verify_witness env chk flags' scriptPubKey st0 st1 = Ok st2"
    "verify_p2sh env chk flags' scriptSig scriptPubKey st0 st2 = Ok st3" "verify_final flags' st3 = Ok ()"
    by (auto simp: VerifyScript_Ok_iff)
  define w where "w = (if has_flag flags SCRIPT_VERIFY_WITNESS \<longleftrightarrow> has_flag flags' SCRIPT_VERIFY_WITNESS then st2 else st1)"
  obtain st'' where p: "verify_p2sh env chk flags scriptSig scriptPubKey st0 w = Ok st''"
    "has_flag flags SCRIPT_VERIFY_CLEANSTACK \<Longrightarrow> w = st2 \<Longrightarrow> st'' = st3"
    using verify_p2sh_mono [OF v(6), where ?st1.0 = w] by blast
  have "has_flag flags SCRIPT_VERIFY_CLEANSTACK \<Longrightarrow> st'' = st3" using p(2) clean_witness by (simp add: w_def)
  then have "verify_final flags st'' = Ok ()" by (rule verify_final_mono [OF v(7)])
  with v(1,4) p(1) verify_witness_mono [OF v(5)] EvalScript_mono [OF v(2)] EvalScript_mono [OF v(3)] verify_flags(2)
  show ?thesis by (auto simp: VerifyScript_Ok_iff w_def)
qed
end

section \<open>Properties\<close>

text \<open>
  C8: an input that pushes a signature and a key onto a pay-to-public-key-hash output verifies exactly
  when the key has the committed hash, both encodings are acceptable under the flags, and the checker
  accepts the signature for the output script. Every flag set is covered that keeps the rule that
  clean-stack and witness come with pay to script hash.
\<close>

theorem VerifyScript_p2pkh:
  assumes "length h = 20" "2 \<le> length sig" "length sig \<le> MAX_SCRIPT_ELEMENT_SIZE"
    "2 \<le> length key" "length key \<le> MAX_SCRIPT_ELEMENT_SIZE"
    and "has_flag flags SCRIPT_VERIFY_CLEANSTACK \<or> has_flag flags SCRIPT_VERIFY_WITNESS \<longrightarrow>
         has_flag flags SCRIPT_VERIFY_P2SH"
  shows "VerifyScript env chk flags (push_data sig @ push_data key) (p2pkh_script h) = Ok () \<longleftrightarrow>
    CHash160 env key = h \<and> check_encodings env flags sig key = Ok () \<and>
    CheckSig chk sig key (p2pkh_script h) flags"
  using VerifyScript_p2pkh_iff [OF assms(1-5)] assms(6) by blast

text \<open>A checker that accepts everything, for concrete runs.\<close>

definition accept_all :: sig_checker where
  "accept_all = \<lparr> CheckSig = \<lambda>_ _ _ _. True, CheckLockTime = \<lambda>_. True \<rparr>"

theorem VerifyScript_p2pkh_witness:
  "VerifyScript sample_env accept_all 0
     (push_data [0x30, 6, 2, 1, 1, 2, 1, 1, 1] @ push_data (replicate 33 2)) (p2pkh_script (replicate 20 2)) = Ok ()"
proof -
  have "check_encodings sample_env 0 [0x30, 6, 2, 1, 1, 2, 1, 1, 1] (replicate 33 2) = Ok ()"
    by (simp add: check_encodings_def CheckSignatureEncoding_def IsValidSignatureEncoding_def
        CheckPubKeyEncoding_def has_flag_def)
  then show ?thesis
    using VerifyScript_p2pkh [of "replicate 20 2" "[0x30, 6, 2, 1, 1, 2, 1, 1, 1]" "replicate 33 2" 0 sample_env accept_all]
    by (simp add: has_flag_def CHash160_def sample_env_def accept_all_def)
qed

text \<open>
  C9: an input of a pay-to-script-hash output that verifies under the P2SH rule is push-only, the
  script it pushes last has the committed hash, and that script succeeds on the other pushes with a
  true value on top.
\<close>

theorem VerifyScript_p2sh_redeems:
  assumes "IsPayToScriptHash scriptPubKey" "has_flag flags SCRIPT_VERIFY_P2SH"
    and "VerifyScript env chk flags scriptSig scriptPubKey = Ok ()"
  shows "\<exists>redeem st st'. IsPushOnly scriptSig \<and>
    EvalScript env chk flags [] scriptSig = Ok (redeem # st) \<and>
    CHash160 env redeem = take 20 (drop 2 scriptPubKey) \<and>
    EvalScript env chk flags st redeem = Ok st' \<and> check_top st' = Ok ()"
  using VerifyScript_p2sh [OF assms] by blast

theorem VerifyScript_p2sh_redeems_witness:
  "let spk = 0xa9 # 0x14 # 0x51 # replicate 19 0x61 @ [0x87]; redeem = 0x51 # replicate 19 0x61 in
   VerifyScript sample_env accept_all SCRIPT_VERIFY_P2SH (push_data redeem) spk = Ok () \<and>
   (\<exists>rd st st'. IsPushOnly (push_data redeem) \<and>
     EvalScript sample_env accept_all SCRIPT_VERIFY_P2SH [] (push_data redeem) = Ok (rd # st) \<and>
     CHash160 sample_env rd = take 20 (drop 2 spk) \<and>
     EvalScript sample_env accept_all SCRIPT_VERIFY_P2SH st rd = Ok st' \<and> check_top st' = Ok ())"
proof -
  let ?spk = "0xa9 # 0x14 # 0x51 # replicate 19 0x61 @ [0x87] :: CScript"
  let ?redeem = "0x51 # replicate 19 0x61 :: valtype"
  have v: "VerifyScript sample_env accept_all SCRIPT_VERIFY_P2SH (push_data ?redeem) ?spk = Ok ()"
    by code_simp
  have "IsPayToScriptHash ?spk" by code_simp
  moreover have "has_flag SCRIPT_VERIFY_P2SH SCRIPT_VERIFY_P2SH" by code_simp
  ultimately show ?thesis
    using VerifyScript_p2sh_redeems [OF _ _ v] v by (simp only: Let_def)
qed

text \<open>
  C10: verification always returns true or false. The assertion that the stack of a script-hash spend
  is not empty holds, no script number overflows, and the two assertions on the flags hold whenever
  clean-stack and witness verification are only asked for together with pay to script hash.
\<close>

theorem VerifyScript_returns:
  assumes "short_digests MAX_SCRIPT_ELEMENT_SIZE env"
    and "has_flag flags SCRIPT_VERIFY_CLEANSTACK \<or> has_flag flags SCRIPT_VERIFY_WITNESS \<longrightarrow>
         has_flag flags SCRIPT_VERIFY_P2SH"
  shows "VerifyScript env chk flags scriptSig scriptPubKey = Ok () \<or>
    (\<exists>e. VerifyScript env chk flags scriptSig scriptPubKey = Err e)"
proof -
  have "VerifyScript env chk flags scriptSig scriptPubKey \<noteq> Abort"
    "VerifyScript env chk flags scriptSig scriptPubKey \<noteq> Throw"
    using VerifyScript_total [OF assms(1)] assms(2) by blast+
  then show ?thesis by (cases "VerifyScript env chk flags scriptSig scriptPubKey") auto
qed

theorem VerifyScript_returns_witness:
  "VerifyScript sample_env accept_all SCRIPT_VERIFY_P2SH [0x51] [0x52, 0x93] = Ok () \<or>
   (\<exists>e. VerifyScript sample_env accept_all SCRIPT_VERIFY_P2SH [0x51] [0x52, 0x93] = Err e)"
  using VerifyScript_returns [OF sample_env_short, of SCRIPT_VERIFY_P2SH accept_all "[0x51]" "[0x52, 0x93]"]
  by (simp add: has_flag_def)

text \<open>C12: an output the code calls unspendable can never be spent, whatever input script is given.\<close>

theorem IsUnspendable_sound:
  assumes "IsUnspendable scriptPubKey"
  shows "VerifyScript env chk flags scriptSig scriptPubKey \<noteq> Ok ()"
  using assms by (rule VerifyScript_unspendable)

theorem IsUnspendable_sound_witness:
  "\<forall>env. IsUnspendable [0x6a, 0x01, 0x2a] \<and>
   VerifyScript env BaseSignatureChecker SCRIPT_VERIFY_P2SH [0x51] [0x6a, 0x01, 0x2a] \<noteq> Ok ()"
proof -
  have "IsUnspendable [0x6a, 0x01, 0x2a]" by (simp add: IsUnspendable_def)
  then show ?thesis using IsUnspendable_sound by blast
qed

end
