(* ===== verification/Serialize.thy ===== *)
theory Serialize
  imports Prelude
begin

text \<open>
  The serialization templates of \<^verbatim>\<open>src/src/serialize.h\<close>. A stream is the list of the bytes left to
  read; writing an object is the list of bytes it appends. A reader returns the object with the rest of
  the stream, \<open>None\<close> where the stream throws \<^verbatim>\<open>std::ios_base::failure\<close>. The locale \<open>codec\<close> is the contract
  of a pair of \<^verbatim>\<open>Serialize\<close> and \<^verbatim>\<open>Unserialize\<close>: what is written is read back, and every byte string that is
  accepted is the one its object is written as.
\<close>

type_synonym 'a reader = "valtype \<Rightarrow> ('a \<times> valtype) option"

abbreviation (input) MAX_SIZE :: nat where "MAX_SIZE \<equiv> 0x02000000"

section \<open>Readers\<close>

definition rd_return :: "'a \<Rightarrow> 'a reader" where
  "rd_return x bs = Some (x, bs)"

definition rd_bind :: "'a reader \<Rightarrow> ('a \<Rightarrow> 'b reader) \<Rightarrow> 'b reader" where
  "rd_bind r f bs = (case r bs of None \<Rightarrow> None | Some (x, bs') \<Rightarrow> f x bs')"

lemma rd_bind_eq_Some_iff:
  "rd_bind r f bs = Some (y, rest) \<longleftrightarrow> (\<exists>x bs'. r bs = Some (x, bs') \<and> f x bs' = Some (y, rest))"
  by (auto simp: rd_bind_def split: option.splits)

lemma rd_bind_Some: "r bs = Some (x, bs') \<Longrightarrow> rd_bind r f bs = f x bs'"
  by (simp add: rd_bind_def)

text \<open>\<^verbatim>\<open>s.read(p, n)\<close>: a short stream throws.\<close>

definition read_bytes :: "nat \<Rightarrow> valtype reader" where
  "read_bytes n bs = (if length bs < n then None else Some (take n bs, drop n bs))"

fun read_n :: "nat \<Rightarrow> 'a reader \<Rightarrow> 'a list reader" where
  "read_n 0 r = rd_return []"
| "read_n (Suc n) r = rd_bind r (\<lambda>x. rd_bind (read_n n r) (\<lambda>xs. rd_return (x # xs)))"

section \<open>Fixed-width integers\<close>

definition ser_writedata8 :: "byte \<Rightarrow> valtype" where
  "ser_writedata8 obj = [obj]"

definition ser_writedata16 :: "16 word \<Rightarrow> valtype" where
  "ser_writedata16 obj = le_bytes 2 (unat obj)"

definition ser_writedata32 :: "uint32 \<Rightarrow> valtype" where
  "ser_writedata32 obj = le_bytes 4 (unat obj)"

definition ser_writedata64 :: "uint64 \<Rightarrow> valtype" where
  "ser_writedata64 obj = le_bytes 8 (unat obj)"

definition ser_readdata8 :: "byte reader" where
  "ser_readdata8 bs = (case bs of [] \<Rightarrow> None | b # bs' \<Rightarrow> Some (b, bs'))"

definition ser_readdata16 :: "16 word reader" where
  "ser_readdata16 = rd_bind (read_bytes 2) (\<lambda>obj. rd_return (word_of_nat (le_nat obj)))"

definition ser_readdata32 :: "uint32 reader" where
  "ser_readdata32 = rd_bind (read_bytes 4) (\<lambda>obj. rd_return (word_of_nat (le_nat obj)))"

definition ser_readdata64 :: "uint64 reader" where
  "ser_readdata64 = rd_bind (read_bytes 8) (\<lambda>obj. rd_return (word_of_nat (le_nat obj)))"

definition ser_bool :: "bool \<Rightarrow> valtype" where
  "ser_bool a = ser_writedata8 (if a then 1 else 0)"

definition unser_bool :: "bool reader" where
  "unser_bool = rd_bind ser_readdata8 (\<lambda>f. rd_return (f \<noteq> 0))"

section \<open>Compact sizes\<close>

definition GetSizeOfCompactSize :: "nat \<Rightarrow> nat" where
  "GetSizeOfCompactSize nSize =
     (if nSize < 253 then 1
      else if nSize \<le> 0xFFFF then 3
      else if nSize \<le> 0xFFFFFFFF then 5
      else 9)"

definition WriteCompactSize :: "uint64 \<Rightarrow> valtype" where
  "WriteCompactSize nSize =
     (if nSize < 253 then ser_writedata8 (ucast nSize)
      else if nSize \<le> 0xFFFF then ser_writedata8 253 @ ser_writedata16 (ucast nSize)
      else if nSize \<le> 0xFFFFFFFF then ser_writedata8 254 @ ser_writedata32 (ucast nSize)
      else ser_writedata8 255 @ ser_writedata64 nSize)"

definition ReadCompactSize :: "uint64 reader" where
  "ReadCompactSize =
     rd_bind
       (rd_bind ser_readdata8 (\<lambda>chSize.
          if chSize < 253 then rd_return (ucast chSize)
          else if chSize = 253 then
            rd_bind ser_readdata16 (\<lambda>n bs. if n < 253 then None else Some (ucast n, bs))
          else if chSize = 254 then
            rd_bind ser_readdata32 (\<lambda>n bs. if n < 0x10000 then None else Some (ucast n, bs))
          else
            rd_bind ser_readdata64 (\<lambda>n bs. if n < 0x100000000 then None else Some (n, bs))))
       (\<lambda>nSizeRet bs. if of_nat MAX_SIZE < nSizeRet then None else Some (nSizeRet, bs))"

section \<open>Variable-length integers\<close>

text \<open>The buffer \<^verbatim>\<open>tmp\<close> from index \<open>len\<close> on, for an unsigned \<open>n\<close>; it is written back to front.\<close>

fun varint_tmp :: "nat \<Rightarrow> nat \<Rightarrow> valtype" where
  "varint_tmp len n =
     word_of_nat (n mod 128 + (if len \<noteq> 0 then 128 else 0)) #
     (if n \<le> 0x7F then [] else varint_tmp (Suc len) (n div 128 - 1))"

definition WriteVarInt :: "'a :: len word \<Rightarrow> valtype" where
  "WriteVarInt n = rev (varint_tmp 0 (unat n))"

fun GetSizeOfVarInt :: "nat \<Rightarrow> nat" where
  "GetSizeOfVarInt n = (if n \<le> 0x7F then 1 else 1 + GetSizeOfVarInt (n div 128 - 1))"

declare varint_tmp.simps [simp del] GetSizeOfVarInt.simps [simp del]

fun read_varint :: "'a :: len word \<Rightarrow> 'a word reader" where
  "read_varint n [] = None"
| "read_varint n (chData # bs) =
     (let n' = push_bit 7 n OR ucast (chData AND 0x7F) in
      if chData AND 0x80 \<noteq> 0 then read_varint (n' + 1) bs else Some (n', bs))"

definition ReadVarInt :: "'a :: len word reader" where
  "ReadVarInt = read_varint 0"

section \<open>Vectors, optional values and arrays\<close>

definition ser_bytes :: "valtype \<Rightarrow> valtype" where
  "ser_bytes v = WriteCompactSize (of_nat (length v)) @ v"

text \<open>The reading loop in blocks of at most five million bytes, with \<open>left = nSize - i\<close>.\<close>

function unser_blocks :: "nat \<Rightarrow> valtype \<Rightarrow> valtype reader" where
  "unser_blocks left v bs =
     (if left = 0 then Some (v, bs)
      else
        let blk = min left 5000000 in
        case read_bytes blk bs of
          None \<Rightarrow> None
        | Some (d, bs') \<Rightarrow> unser_blocks (left - blk) (v @ d) bs')"
  by pat_completeness auto
termination
  by (relation "measure (\<lambda>(left, v, bs). left)") auto

declare unser_blocks.simps [simp del]

definition unser_bytes :: "valtype reader" where
  "unser_bytes = rd_bind ReadCompactSize (\<lambda>nSize. unser_blocks (unat nSize) [])"

definition ser_vector :: "('a \<Rightarrow> valtype) \<Rightarrow> 'a list \<Rightarrow> valtype" where
  "ser_vector w v = WriteCompactSize (of_nat (length v)) @ concat (map w v)"

definition unser_vector :: "'a reader \<Rightarrow> 'a list reader" where
  "unser_vector r = rd_bind ReadCompactSize (\<lambda>nSize. read_n (unat nSize) r)"

definition ser_optional :: "('a \<Rightarrow> valtype) \<Rightarrow> 'a option \<Rightarrow> valtype" where
  "ser_optional w item =
     (case item of Some x \<Rightarrow> ser_writedata8 1 @ w x | None \<Rightarrow> ser_writedata8 0)"

definition unser_optional :: "'a reader \<Rightarrow> 'a option reader" where
  "unser_optional r =
     rd_bind ser_readdata8 (\<lambda>discriminant.
       if discriminant = 0 then rd_return None
       else if discriminant = 1 then rd_bind r (\<lambda>x. rd_return (Some x))
       else (\<lambda>bs. None))"

definition ser_array :: "('a \<Rightarrow> valtype) \<Rightarrow> 'a list \<Rightarrow> valtype" where
  "ser_array w item = concat (map w item)"

definition unser_array :: "nat \<Rightarrow> 'a reader \<Rightarrow> 'a list reader" where
  "unser_array N r = read_n N r"

section \<open>The contract of a serializer\<close>

locale codec =
  fixes ok :: "'a \<Rightarrow> bool" and w :: "'a \<Rightarrow> valtype" and r :: "'a reader"
  assumes read_write: "ok x \<Longrightarrow> r (w x @ rest) = Some (x, rest)"
    and write_read: "r bs = Some (x, rest) \<Longrightarrow> ok x \<and> bs = w x @ rest"
begin

lemma read_iff: "r bs = Some (x, rest) \<longleftrightarrow> ok x \<and> bs = w x @ rest"
  using read_write write_read by blast

lemma prefix_free: "ok x \<Longrightarrow> ok y \<Longrightarrow> w x @ s = w y @ t \<Longrightarrow> x = y \<and> s = t"
  by (metis read_write option.inject prod.inject)

lemma read_n_write: "list_all ok xs \<Longrightarrow> read_n (length xs) r (concat (map w xs) @ rest) = Some (xs, rest)"
  by (induction xs) (simp_all add: rd_return_def rd_bind_def read_write)

lemma write_read_n:
  "read_n n r bs = Some (xs, rest) \<Longrightarrow> length xs = n \<and> list_all ok xs \<and> bs = concat (map w xs) @ rest"
proof (induction n arbitrary: bs xs)
  case 0
  then show ?case by (simp add: rd_return_def)
next
  case (Suc n)
  then obtain x bs' ys where "r bs = Some (x, bs')" "read_n n r bs' = Some (ys, rest)" "xs = x # ys"
    by (auto simp: rd_bind_eq_Some_iff rd_return_def)
  with Suc.IH [of bs' ys] write_read [of bs x bs'] show ?case by simp
qed

end

context codec
begin

lemma iso:
  assumes inv: "\<And>x. ok x \<Longrightarrow> ok' (f x) \<and> g (f x) = x"
    and sur: "\<And>y. ok' y \<Longrightarrow> ok (g y) \<and> f (g y) = y"
  shows "codec ok' (\<lambda>y. w (g y)) (rd_bind r (\<lambda>x. rd_return (f x)))"
proof
  fix y rest assume "ok' y"
  then show "rd_bind r (\<lambda>x. rd_return (f x)) (w (g y) @ rest) = Some (y, rest)"
    using sur read_write by (simp add: rd_bind_def rd_return_def)
next
  fix bs y rest assume "rd_bind r (\<lambda>x. rd_return (f x)) bs = Some (y, rest)"
  then show "ok' y \<and> bs = w (g y) @ rest"
    using inv write_read by (auto simp: rd_bind_eq_Some_iff rd_return_def)
qed

lemma pair:
  assumes "codec ok2 w2 r2"
  shows "codec (\<lambda>(x, y). ok x \<and> ok2 y) (\<lambda>(x, y). w x @ w2 y)
    (rd_bind r (\<lambda>x. rd_bind r2 (\<lambda>y. rd_return (x, y))))"
proof
  fix p rest assume "case p of (x, y) \<Rightarrow> ok x \<and> ok2 y"
  then show "rd_bind r (\<lambda>x. rd_bind r2 (\<lambda>y. rd_return (x, y))) ((case p of (x, y) \<Rightarrow> w x @ w2 y) @ rest) = Some (p, rest)"
    using read_write codec.read_write [OF assms] by (auto simp: rd_bind_def rd_return_def)
next
  fix bs p rest assume "rd_bind r (\<lambda>x. rd_bind r2 (\<lambda>y. rd_return (x, y))) bs = Some (p, rest)"
  then obtain x y bs1 where "r bs = Some (x, bs1)" "r2 bs1 = Some (y, rest)" "p = (x, y)"
    by (auto simp: rd_bind_eq_Some_iff rd_return_def)
  then show "(case p of (x, y) \<Rightarrow> ok x \<and> ok2 y) \<and> bs = (case p of (x, y) \<Rightarrow> w x @ w2 y) @ rest"
    using write_read [of bs x bs1] codec.write_read [OF assms, of bs1 y rest] by simp
qed

lemma array: "codec (\<lambda>v. length v = N \<and> list_all ok v) (ser_array w) (unser_array N r)"
proof
  fix v rest assume "length v = N \<and> list_all ok v"
  then show "unser_array N r (ser_array w v @ rest) = Some (v, rest)"
    using read_n_write [of v rest] by (auto simp: unser_array_def ser_array_def)
next
  fix bs v rest assume "unser_array N r bs = Some (v, rest)"
  then show "(length v = N \<and> list_all ok v) \<and> bs = ser_array w v @ rest"
    using write_read_n by (auto simp: unser_array_def ser_array_def)
qed

lemma optional: "codec (\<lambda>v. case v of None \<Rightarrow> True | Some x \<Rightarrow> ok x) (ser_optional w) (unser_optional r)"
proof
  fix v rest assume "case v of None \<Rightarrow> True | Some x \<Rightarrow> ok x"
  then show "unser_optional r (ser_optional w v @ rest) = Some (v, rest)"
    by (auto simp: unser_optional_def ser_optional_def rd_bind_def rd_return_def ser_readdata8_def
        ser_writedata8_def read_write split: option.splits)
next
  fix bs v rest assume "unser_optional r bs = Some (v, rest)"
  then show "(case v of None \<Rightarrow> True | Some x \<Rightarrow> ok x) \<and> bs = ser_optional w v @ rest"
    by (auto simp: unser_optional_def ser_optional_def rd_bind_eq_Some_iff rd_return_def ser_readdata8_def
        ser_writedata8_def dest!: write_read split: if_splits list.splits)
qed

end

section \<open>Integers and sizes\<close>

lemma read_bytes_iff: "read_bytes n bs = Some (d, rest) \<longleftrightarrow> length d = n \<and> bs = d @ rest"
proof
  assume "read_bytes n bs = Some (d, rest)"
  then show "length d = n \<and> bs = d @ rest" by (auto simp: read_bytes_def split: if_splits)
next
  assume "length d = n \<and> bs = d @ rest"
  then show "read_bytes n bs = Some (d, rest)" by (simp add: read_bytes_def)
qed

interpretation raw: codec "\<lambda>v. length v = n" "\<lambda>v. v" "read_bytes n" for n
  by unfold_locales (simp_all add: read_bytes_iff)

interpretation u8: codec "\<lambda>_. True" ser_writedata8 ser_readdata8
  by unfold_locales (auto simp: ser_writedata8_def ser_readdata8_def split: list.splits)

lemma codec_word:
  assumes "LENGTH('a :: len) = 8 * k"
  shows "codec (\<lambda>_ :: 'a word. True) (\<lambda>x. le_bytes k (unat x))
    (rd_bind (read_bytes k) (\<lambda>obj. rd_return (word_of_nat (le_nat obj))))"
proof (rule raw.iso)
  fix v :: valtype assume v: "length v = k"
  have "le_nat v < 2 ^ LENGTH('a)" using le_nat_less [of v] by (simp add: v assms power_mult)
  then have "unat (word_of_nat (le_nat v) :: 'a word) = le_nat v" by (simp add: unat_of_nat)
  then show "True \<and> le_bytes k (unat (word_of_nat (le_nat v) :: 'a word)) = v"
    using le_bytes_le_nat [of v] v by simp
next
  fix y :: "'a word"
  have "unat y < 256 ^ k" using unsigned_less [where ?'a = nat, of y] by (simp add: assms power_mult)
  then show "length (le_bytes k (unat y)) = k \<and> word_of_nat (le_nat (le_bytes k (unat y))) = y"
    by (simp add: le_nat_le_bytes)
qed

interpretation u16: codec "\<lambda>_. True" ser_writedata16 ser_readdata16
  using codec_word [where ?'a = 16, of 2] by (simp add: ser_writedata16_def [abs_def] ser_readdata16_def)

interpretation u32: codec "\<lambda>_. True" ser_writedata32 ser_readdata32
  using codec_word [where ?'a = 32, of 4] by (simp add: ser_writedata32_def [abs_def] ser_readdata32_def)

interpretation u64: codec "\<lambda>_. True" ser_writedata64 ser_readdata64
  using codec_word [where ?'a = 64, of 8] by (simp add: ser_writedata64_def [abs_def] ser_readdata64_def)

lemma ReadCompactSize_Nil: "ReadCompactSize [] = None"
  by (simp add: ReadCompactSize_def rd_bind_def ser_readdata8_def)

lemma ReadCompactSize_Cons:
  "ReadCompactSize (b # bs) =
     (if b < 253 then Some (ucast b, bs)
      else if b = 253 then
        (case ser_readdata16 bs of None \<Rightarrow> None | Some (n, rest) \<Rightarrow> if n < 253 then None else Some (ucast n, rest))
      else if b = 254 then
        (case ser_readdata32 bs of None \<Rightarrow> None | Some (n, rest) \<Rightarrow>
           if n < 0x10000 \<or> of_nat MAX_SIZE < n then None else Some (ucast n, rest))
      else None)"
proof -
  have s: "\<not> 0x2000000 < (ucast b :: uint64)" for b :: byte
  proof -
    have "unat b < 0x2000000" using unat_byte_less [of b] by linarith
    then show ?thesis by (simp add: word_less_nat_alt unat_ucast_up)
  qed
  have s16: "\<not> 0x2000000 < (ucast n :: uint64)" for n :: "16 word"
    using unsigned_less [where ?'a = nat, of n] by (simp add: word_less_nat_alt unat_ucast_up)
  have s32: "0x2000000 < (ucast n :: uint64) \<longleftrightarrow> 0x2000000 < n" for n :: uint32
    by (simp add: word_less_nat_alt unat_ucast_up)
  have s64: "n < 0x100000000 \<or> 0x2000000 < n" for n :: uint64
    by (auto simp: word_less_nat_alt)
  show ?thesis
    using s s16 s32 s64
    by (auto simp: ReadCompactSize_def rd_bind_def rd_return_def ser_readdata8_def split: option.splits)
qed

interpretation compact: codec "\<lambda>n. unat n \<le> MAX_SIZE" WriteCompactSize ReadCompactSize
proof
  fix n :: uint64 and rest assume ok: "unat n \<le> MAX_SIZE"
  consider "unat n < 253" | "253 \<le> unat n" "unat n \<le> 0xFFFF" | "0xFFFF < unat n" by linarith
  then show "ReadCompactSize (WriteCompactSize n @ rest) = Some (n, rest)"
  proof cases
    case 1
    then have "unat (ucast n :: byte) = unat n" "ucast (ucast n :: byte) = n"
      by (simp_all add: unat_ucast_less ucast_down_up)
    with 1 show ?thesis
      by (simp add: WriteCompactSize_def ser_writedata8_def ReadCompactSize_Cons word_less_nat_alt)
  next
    case 2
    then have "unat (ucast n :: 16 word) = unat n" "ucast (ucast n :: 16 word) = n"
      by (simp_all add: unat_ucast_less ucast_down_up)
    with 2 show ?thesis
      by (simp add: WriteCompactSize_def ser_writedata8_def ReadCompactSize_Cons word_less_nat_alt
          word_le_nat_alt u16.read_write)
  next
    case 3
    then have "unat (ucast n :: 32 word) = unat n" "ucast (ucast n :: 32 word) = n"
      using ok by (simp_all add: unat_ucast_less ucast_down_up)
    with 3 ok show ?thesis
      by (simp add: WriteCompactSize_def ser_writedata8_def ReadCompactSize_Cons word_less_nat_alt
          word_le_nat_alt u32.read_write)
  qed
next
  fix bs n rest assume r: "ReadCompactSize bs = Some (n, rest)"
  then obtain b bs' where bs: "bs = b # bs'" by (cases bs) (auto simp: ReadCompactSize_Nil)
  consider "b < 253" | "b = 253" | "b = 254" using r by (auto simp: bs ReadCompactSize_Cons split: if_splits)
  then show "unat n \<le> MAX_SIZE \<and> bs = WriteCompactSize n @ rest"
  proof cases
    case 1
    then have "unat b < 253" by (simp add: word_less_nat_alt)
    with r 1 show ?thesis
      by (auto simp: bs ReadCompactSize_Cons WriteCompactSize_def ser_writedata8_def word_less_nat_alt
          unat_ucast_up ucast_up_down)
  next
    case 2
    with r obtain m where m: "ser_readdata16 bs' = Some (m, rest)" "\<not> m < 253" "n = ucast m"
      by (auto simp: bs ReadCompactSize_Cons split: option.splits if_splits)
    have "unat m < 2 ^ 16" using unsigned_less [where ?'a = nat, of m] by simp
    with m 2 u16.write_read [OF m(1)] show ?thesis
      by (simp add: bs WriteCompactSize_def ser_writedata8_def word_less_nat_alt word_le_nat_alt unat_ucast_up ucast_up_down)
  next
    case 3
    with r obtain m where m: "ser_readdata32 bs' = Some (m, rest)" "\<not> m < 0x10000" "\<not> of_nat MAX_SIZE < m" "n = ucast m"
      by (auto simp: bs ReadCompactSize_Cons split: option.splits if_splits)
    with 3 u32.write_read [OF m(1)] show ?thesis
      by (simp add: bs WriteCompactSize_def ser_writedata8_def word_less_nat_alt word_le_nat_alt unat_ucast_up ucast_up_down)
  qed
qed

lemma unat_of_size: "n \<le> MAX_SIZE \<Longrightarrow> unat (word_of_nat n :: uint64) = n"
  by (simp add: unat_of_nat)

context codec
begin

lemma vector: "codec (\<lambda>v. length v \<le> MAX_SIZE \<and> list_all ok v) (ser_vector w) (unser_vector r)"
proof
  fix v rest assume v: "length v \<le> MAX_SIZE \<and> list_all ok v"
  then have "ReadCompactSize (ser_vector w v @ rest) = Some (word_of_nat (length v), concat (map w v) @ rest)"
    unfolding ser_vector_def append_assoc by (intro compact.read_write) (simp add: unat_of_size)
  with v show "unser_vector r (ser_vector w v @ rest) = Some (v, rest)"
    by (simp add: unser_vector_def rd_bind_def unat_of_size read_n_write)
next
  fix bs v rest assume "unser_vector r bs = Some (v, rest)"
  then obtain n bs' where "ReadCompactSize bs = Some (n, bs')" and v: "read_n (unat n) r bs' = Some (v, rest)"
    by (auto simp: unser_vector_def rd_bind_eq_Some_iff)
  then have n: "unat n \<le> MAX_SIZE" "bs = WriteCompactSize n @ bs'" using compact.write_read by blast+
  from write_read_n [OF v] have "length v = unat n" "list_all ok v" "bs' = concat (map w v) @ rest" by auto
  with n show "(length v \<le> MAX_SIZE \<and> list_all ok v) \<and> bs = ser_vector w v @ rest"
    by (simp add: ser_vector_def)
qed

end

lemma unser_blocks_read:
  "unser_blocks n v bs = (if length bs < n then None else Some (v @ take n bs, drop n bs))"
proof (induction n v bs rule: unser_blocks.induct)
  case (1 n v bs)
  show ?case
  proof (cases "n = 0")
    case True
    then show ?thesis by (simp add: unser_blocks.simps)
  next
    case False
    let ?blk = "min n 5000000"
    show ?thesis
    proof (cases "length bs < ?blk")
      case True
      with False show ?thesis by (subst unser_blocks.simps) (simp add: read_bytes_def)
    next
      case blk: False
      then have rd: "read_bytes ?blk bs = Some (take ?blk bs, drop ?blk bs)" by (simp add: read_bytes_def)
      have tk: "take n bs = take ?blk bs @ take (n - ?blk) (drop ?blk bs)"
        using take_add [of ?blk "n - ?blk" bs] by simp
      have "unser_blocks (n - ?blk) (v @ take ?blk bs) (drop ?blk bs) =
         (if length (drop ?blk bs) < n - ?blk then None
          else Some ((v @ take ?blk bs) @ take (n - ?blk) (drop ?blk bs), drop (n - ?blk) (drop ?blk bs)))"
        using False rd by (intro "1.IH") auto
      moreover have "length (drop ?blk bs) < n - ?blk \<longleftrightarrow> length bs < n" using blk by auto
      ultimately show ?thesis
        using False rd tk by (subst unser_blocks.simps) (simp add: Let_def)
    qed
  qed
qed

interpretation bytes: codec "\<lambda>v. length v \<le> MAX_SIZE" ser_bytes unser_bytes
proof
  fix v :: valtype and rest assume v: "length v \<le> MAX_SIZE"
  then have "ReadCompactSize (ser_bytes v @ rest) = Some (word_of_nat (length v), v @ rest)"
    unfolding ser_bytes_def append_assoc by (intro compact.read_write) (simp add: unat_of_size)
  with v show "unser_bytes (ser_bytes v @ rest) = Some (v, rest)"
    by (simp add: unser_bytes_def rd_bind_def unat_of_size unser_blocks_read)
next
  fix bs v rest assume "unser_bytes bs = Some (v, rest)"
  then obtain n bs' where "ReadCompactSize bs = Some (n, bs')" and v: "unser_blocks (unat n) [] bs' = Some (v, rest)"
    by (auto simp: unser_bytes_def rd_bind_eq_Some_iff)
  then have n: "unat n \<le> MAX_SIZE" "bs = WriteCompactSize n @ bs'" using compact.write_read by blast+
  from v have "length v = unat n" "bs' = v @ rest" by (auto simp: unser_blocks_read split: if_splits)
  with n show "length v \<le> MAX_SIZE \<and> bs = ser_bytes v @ rest" by (simp add: ser_bytes_def)
qed

section \<open>Variable-length integers are read back\<close>

lemma unat_byte_of_less: "d < 256 \<Longrightarrow> unat (word_of_nat d :: byte) = d"
  by (simp add: unat_of_nat)

lemma varint_step:
  assumes "128 * x + d < 2 ^ LENGTH('a :: len)" "d < 128" "e = 0 \<or> e = 128"
  shows "push_bit 7 (word_of_nat x :: 'a word) OR ucast (word_of_nat (d + e) AND 0x7F :: byte) = word_of_nat (128 * x + d)"
proof -
  have d: "unat (word_of_nat (d + e) AND 0x7F :: byte) = d"
    using assms(2,3) by (subst unat_and_7f, subst unat_byte_of_less) auto
  have x: "unat (word_of_nat x :: 'a word) = x" using assms(1) by (simp add: unat_of_nat)
  have "unat (push_bit 7 (word_of_nat x :: 'a word)) = 2 ^ 7 * x"
    using assms(1) unat_push_bit [of "word_of_nat x :: 'a word" 7] x by simp
  moreover have "unat (ucast (word_of_nat (d + e) AND 0x7F :: byte) :: 'a word) = d"
    using d assms(1) by (subst unat_ucast_less) simp_all
  ultimately have "unat (push_bit 7 (word_of_nat x :: 'a word) OR ucast (word_of_nat (d + e) AND 0x7F :: byte)) = d OR push_bit 7 x"
    by (simp add: unat_or push_bit_eq_mult or.commute mult.commute)
  also have "\<dots> = 128 * x + d" using or_push_bit_nat [of d 7 x] assms(2) by simp
  also have "\<dots> = unat (word_of_nat (128 * x + d) :: 'a word)"
    using assms(1) by (simp only: unat_of_nat mod_less)
  finally show ?thesis by (simp only: word_unat_eq_iff)
qed

lemma read_varint_tmp:
  assumes "m + 1 < 2 ^ LENGTH('a :: len)"
  shows "read_varint (0 :: 'a word) (rev (varint_tmp (Suc l) m) @ bs) = read_varint (word_of_nat (m + 1)) bs"
  using assms
proof (induction m arbitrary: l bs rule: less_induct)
  case (less m)
  have hi: "word_of_nat (m mod 128 + 128) AND 0x80 \<noteq> (0 :: byte)"
    unfolding byte_and_80_iff by (subst unat_byte_of_less) simp_all
  show ?case
  proof (cases "m \<le> 0x7F")
    case True
    then show ?thesis
      using varint_step [where ?'a = 'a, of 0 "m mod 128" 128] hi less.prems
      by (subst varint_tmp.simps) (simp add: Let_def add.commute)
  next
    case False
    then have m: "m div 128 - 1 < m" "m div 128 - 1 + 1 = m div 128" "m div 128 \<le> m" by simp_all
    have "read_varint (0 :: 'a word) (rev (varint_tmp (Suc (Suc l)) (m div 128 - 1)) @ [word_of_nat (m mod 128 + 128)] @ bs) =
        read_varint (word_of_nat (m div 128)) ([word_of_nat (m mod 128 + 128)] @ bs)"
      using less.IH [OF m(1), of "Suc l" "[word_of_nat (m mod 128 + 128)] @ bs"] less.prems m by simp
    then show ?thesis
      using False varint_step [where ?'a = 'a, of "m div 128" "m mod 128" 128] hi less.prems
      by (subst varint_tmp.simps) (simp add: Let_def add.commute)
  qed
qed

lemma ReadVarInt_WriteVarInt: "ReadVarInt (WriteVarInt n @ rest) = Some (n :: 'a :: len word, rest)"
proof -
  have lt: "unat n < 2 ^ LENGTH('a)" by (rule unsigned_less)
  have lo: "\<not> word_of_nat (unat n mod 128) AND 0x80 \<noteq> (0 :: byte)"
    unfolding byte_and_80_iff by (subst unat_byte_of_less) (simp_all add: not_le)
  show ?thesis
  proof (cases "unat n \<le> 0x7F")
    case True
    then show ?thesis
      using varint_step [where ?'a = 'a, of 0 "unat n mod 128" 0] lo lt
      by (simp add: ReadVarInt_def WriteVarInt_def varint_tmp.simps [of 0] Let_def)
  next
    case False
    then have m: "unat n div 128 - 1 + 1 = unat n div 128" "unat n div 128 \<le> unat n" by simp_all
    then have "read_varint (0 :: 'a word) (rev (varint_tmp (Suc 0) (unat n div 128 - 1)) @ [word_of_nat (unat n mod 128)] @ rest) =
        read_varint (word_of_nat (unat n div 128)) ([word_of_nat (unat n mod 128)] @ rest)"
      using read_varint_tmp [where ?'a = 'a, of "unat n div 128 - 1" 0 "[word_of_nat (unat n mod 128)] @ rest"]
        order.strict_trans1 [OF m(2) lt] by simp
    then show ?thesis
      using False varint_step [where ?'a = 'a, of "unat n div 128" "unat n mod 128" 0] lo lt
      by (simp add: ReadVarInt_def WriteVarInt_def varint_tmp.simps [of 0] Let_def)
  qed
qed

section \<open>Sizes\<close>

lemma length_WriteCompactSize: "length (WriteCompactSize n) = GetSizeOfCompactSize (unat n)"
  by (auto simp: WriteCompactSize_def GetSizeOfCompactSize_def ser_writedata8_def ser_writedata16_def
      ser_writedata32_def ser_writedata64_def word_less_nat_alt word_le_nat_alt)

lemma length_varint_tmp: "length (varint_tmp l n) = GetSizeOfVarInt n"
proof (induction l n rule: varint_tmp.induct)
  case (1 l n)
  then show ?case by (subst varint_tmp.simps, subst GetSizeOfVarInt.simps) simp
qed

lemma length_WriteVarInt: "length (WriteVarInt n) = GetSizeOfVarInt (unat n)"
  by (simp add: WriteVarInt_def length_varint_tmp)

section \<open>Properties\<close>

text \<open>
  C16: a compact size is accepted exactly in its shortest form and only up to the size limit, and reading
  consumes exactly the bytes that writing the value produces.
\<close>

theorem CompactSize_canonical:
  "ReadCompactSize bs = Some (n, rest) \<longleftrightarrow> unat n \<le> MAX_SIZE \<and> bs = WriteCompactSize n @ rest"
  by (rule compact.read_iff)

text \<open>
  C20: a variable-length integer of any unsigned width is read back as written, and its length is the
  one \<^verbatim>\<open>GetSizeOfVarInt\<close> announces.
\<close>

theorem VarInt_roundtrip:
  "ReadVarInt (WriteVarInt n @ rest) = Some (n :: 'a :: len word, rest) \<and>
   length (WriteVarInt n) = GetSizeOfVarInt (unat n)"
  by (simp add: ReadVarInt_WriteVarInt length_WriteVarInt)


end
