(* ===== verification/Transaction.thy ===== *)
theory Transaction
  imports Script Serialize "HOL-Library.List_Lexorder"
begin

unbundle bit_operations_syntax

text \<open>
  Amounts and transactions: \<^verbatim>\<open>src/src/amount.h\<close>, \<^verbatim>\<open>src/src/uint256.h\<close>,
  \<^verbatim>\<open>src/src/zcash/Proof.hpp\<close> and \<^verbatim>\<open>src/src/primitives/transaction.h\<close>. A blob of
  \<^verbatim>\<open>base_blob\<close> is the word its bytes spell, the first byte lowest; a signed integer is an \<open>int\<close> with its range
  in the well-formedness predicate of the record that holds it. Every class with a
  \<^verbatim>\<open>SerializationOp\<close> has a writer and a reader, and the pair is shown to be a \<open>codec\<close>.
\<close>

section \<open>Amounts\<close>

type_synonym CAmount = int

abbreviation (input) COIN :: CAmount where "COIN \<equiv> 100000000"
abbreviation (input) CENT :: CAmount where "CENT \<equiv> 1000000"
abbreviation (input) MAX_MONEY :: CAmount where "MAX_MONEY \<equiv> 21000000 * COIN"

definition MoneyRange :: "CAmount \<Rightarrow> bool" where
  "MoneyRange nValue \<longleftrightarrow> nValue \<ge> 0 \<and> nValue \<le> MAX_MONEY"

record CFeeRate =
  nSatoshisPerK :: CAmount

text \<open>
  The product by \<^verbatim>\<open>1000\<close> is signed, the division by a \<^verbatim>\<open>size_t\<close> unsigned, and
  \<^verbatim>\<open>nSatoshisPerK*nSize\<close> is computed in 64 unsigned bits.
\<close>

definition CFeeRate_of :: "CAmount \<Rightarrow> uint64 \<Rightarrow> (unit, CFeeRate) outcome" where
  "CFeeRate_of nFeePaid nSize =
     (if nSize > 0 then
        if in_int64 (nFeePaid * 1000)
        then Ok \<lparr> nSatoshisPerK = sint (word_of_int (nFeePaid * 1000) div nSize) \<rparr>
        else Abort
      else Ok \<lparr> nSatoshisPerK = 0 \<rparr>)"

definition GetFee :: "CFeeRate \<Rightarrow> uint64 \<Rightarrow> CAmount" where
  "GetFee rate nSize =
     (let nFee = sint (word_of_int (nSatoshisPerK rate) * nSize div 1000) in
      if nFee = 0 \<and> nSatoshisPerK rate > 0 then nSatoshisPerK rate else nFee)"

definition GetFeePerK :: "CFeeRate \<Rightarrow> CAmount" where
  "GetFeePerK rate = GetFee rate 1000"

section \<open>Signed integers and blobs\<close>

definition in_int32 :: "int \<Rightarrow> bool" where
  "in_int32 x \<longleftrightarrow> INT_MIN \<le> x \<and> x \<le> INT_MAX"

definition ser_int32 :: "int \<Rightarrow> valtype" where
  "ser_int32 a = ser_writedata32 (word_of_int a)"

definition unser_int32 :: "int reader" where
  "unser_int32 = rd_bind ser_readdata32 (\<lambda>a. rd_return (sint a))"

definition ser_int64 :: "int \<Rightarrow> valtype" where
  "ser_int64 a = ser_writedata64 (word_of_int a)"

definition unser_int64 :: "int reader" where
  "unser_int64 = rd_bind ser_readdata64 (\<lambda>a. rd_return (sint a))"

definition blob_bytes :: "'a :: len word \<Rightarrow> valtype" where
  "blob_bytes a = le_bytes (LENGTH('a) div 8) (unat a)"

definition blob_of_bytes :: "valtype \<Rightarrow> 'a :: len word" where
  "blob_of_bytes vch = word_of_nat (le_nat vch)"

definition ser_blob :: "'a :: len word \<Rightarrow> valtype" where
  "ser_blob a = blob_bytes a"

definition unser_blob :: "'a :: len word reader" where
  "unser_blob = rd_bind (read_bytes (LENGTH('a) div 8)) (\<lambda>d. rd_return (blob_of_bytes d))"

definition blob_less :: "'a :: len word \<Rightarrow> 'a word \<Rightarrow> bool" where
  "blob_less a b \<longleftrightarrow> map unat (blob_bytes a) < map unat (blob_bytes b)"

section \<open>JoinSplit descriptions\<close>

abbreviation (input) ZC_NUM_JS_INPUTS :: nat where "ZC_NUM_JS_INPUTS \<equiv> 2"
abbreviation (input) ZC_NUM_JS_OUTPUTS :: nat where "ZC_NUM_JS_OUTPUTS \<equiv> 2"
abbreviation (input) CIPHERTEXT_SIZE :: nat where "CIPHERTEXT_SIZE \<equiv> 601"
abbreviation (input) G1_PREFIX_MASK :: byte where "G1_PREFIX_MASK \<equiv> 0x02"
abbreviation (input) G2_PREFIX_MASK :: byte where "G2_PREFIX_MASK \<equiv> 0x0a"

record CompressedG1 =
  g1_y_lsb :: bool
  g1_x :: "256 word"

record CompressedG2 =
  g2_y_gt :: bool
  g2_x :: "512 word"

record ZCProof =
  g_A :: CompressedG1
  g_A_prime :: CompressedG1
  g_B :: CompressedG2
  g_B_prime :: CompressedG1
  g_C :: CompressedG1
  g_C_prime :: CompressedG1
  g_K :: CompressedG1
  g_H :: CompressedG1

definition ser_G1 :: "CompressedG1 \<Rightarrow> valtype" where
  "ser_G1 p = ser_writedata8 (if g1_y_lsb p then G1_PREFIX_MASK OR 1 else G1_PREFIX_MASK) @ ser_blob (g1_x p)"

definition unser_G1 :: "CompressedG1 reader" where
  "unser_G1 =
     rd_bind ser_readdata8 (\<lambda>leadingByte.
       if leadingByte AND NOT 1 \<noteq> G1_PREFIX_MASK then (\<lambda>bs. None)
       else rd_bind unser_blob (\<lambda>x.
         rd_return \<lparr> g1_y_lsb = leadingByte AND 1 \<noteq> 0, g1_x = x \<rparr>))"

definition ser_G2 :: "CompressedG2 \<Rightarrow> valtype" where
  "ser_G2 p = ser_writedata8 (if g2_y_gt p then G2_PREFIX_MASK OR 1 else G2_PREFIX_MASK) @ ser_blob (g2_x p)"

definition unser_G2 :: "CompressedG2 reader" where
  "unser_G2 =
     rd_bind ser_readdata8 (\<lambda>leadingByte.
       if leadingByte AND NOT 1 \<noteq> G2_PREFIX_MASK then (\<lambda>bs. None)
       else rd_bind unser_blob (\<lambda>x.
         rd_return \<lparr> g2_y_gt = leadingByte AND 1 \<noteq> 0, g2_x = x \<rparr>))"

definition ser_ZCProof :: "ZCProof \<Rightarrow> valtype" where
  "ser_ZCProof p =
     ser_G1 (g_A p) @ ser_G1 (g_A_prime p) @ ser_G2 (g_B p) @ ser_G1 (g_B_prime p) @
     ser_G1 (g_C p) @ ser_G1 (g_C_prime p) @ ser_G1 (g_K p) @ ser_G1 (g_H p)"

definition unser_ZCProof :: "ZCProof reader" where
  "unser_ZCProof =
     rd_bind unser_G1 (\<lambda>a. rd_bind unser_G1 (\<lambda>a'. rd_bind unser_G2 (\<lambda>b. rd_bind unser_G1 (\<lambda>b'.
     rd_bind unser_G1 (\<lambda>c. rd_bind unser_G1 (\<lambda>c'. rd_bind unser_G1 (\<lambda>k. rd_bind unser_G1 (\<lambda>h.
       rd_return \<lparr> g_A = a, g_A_prime = a', g_B = b, g_B_prime = b', g_C = c, g_C_prime = c', g_K = k, g_H = h \<rparr>))))))))"

record JSDescription =
  vpub_old :: CAmount
  vpub_new :: CAmount
  js_anchor :: uint256
  nullifiers :: "uint256 list"
  commitments :: "uint256 list"
  ephemeralKey :: uint256
  ciphertexts :: "valtype list"
  randomSeed :: uint256
  macs :: "uint256 list"
  js_proof :: ZCProof

definition ser_JSDescription :: "JSDescription \<Rightarrow> valtype" where
  "ser_JSDescription js =
     ser_int64 (vpub_old js) @ ser_int64 (vpub_new js) @ ser_blob (js_anchor js) @
     ser_array ser_blob (nullifiers js) @ ser_array ser_blob (commitments js) @
     ser_blob (ephemeralKey js) @ ser_blob (randomSeed js) @ ser_array ser_blob (macs js) @
     ser_ZCProof (js_proof js) @ ser_array (ser_array ser_writedata8) (ciphertexts js)"

definition unser_JSDescription :: "JSDescription reader" where
  "unser_JSDescription =
     rd_bind unser_int64 (\<lambda>old. rd_bind unser_int64 (\<lambda>new. rd_bind unser_blob (\<lambda>rt.
     rd_bind (unser_array ZC_NUM_JS_INPUTS unser_blob) (\<lambda>nfs.
     rd_bind (unser_array ZC_NUM_JS_OUTPUTS unser_blob) (\<lambda>cms.
     rd_bind unser_blob (\<lambda>epk. rd_bind unser_blob (\<lambda>seed.
     rd_bind (unser_array ZC_NUM_JS_INPUTS unser_blob) (\<lambda>ms.
     rd_bind unser_ZCProof (\<lambda>pf.
     rd_bind (unser_array ZC_NUM_JS_OUTPUTS (unser_array CIPHERTEXT_SIZE ser_readdata8)) (\<lambda>cts.
       rd_return \<lparr> vpub_old = old, vpub_new = new, js_anchor = rt, nullifiers = nfs, commitments = cms,
         ephemeralKey = epk, ciphertexts = cts, randomSeed = seed, macs = ms, js_proof = pf \<rparr>))))))))))"

definition JSDescription_ok :: "JSDescription \<Rightarrow> bool" where
  "JSDescription_ok js \<longleftrightarrow>
     in_int64 (vpub_old js) \<and> in_int64 (vpub_new js) \<and>
     length (nullifiers js) = ZC_NUM_JS_INPUTS \<and> length (commitments js) = ZC_NUM_JS_OUTPUTS \<and>
     length (macs js) = ZC_NUM_JS_INPUTS \<and> length (ciphertexts js) = ZC_NUM_JS_OUTPUTS \<and>
     list_all (\<lambda>c. length c = CIPHERTEXT_SIZE) (ciphertexts js)"

section \<open>Outpoints, inputs and outputs\<close>

datatype COutPoint = COutPoint (prevout_hash: uint256) (prevout_n: uint32)

definition COutPoint_SetNull :: COutPoint where
  "COutPoint_SetNull = COutPoint 0 (- 1)"

definition COutPoint_IsNull :: "COutPoint \<Rightarrow> bool" where
  "COutPoint_IsNull p \<longleftrightarrow> prevout_hash p = 0 \<and> prevout_n p = - 1"

definition COutPoint_less :: "COutPoint \<Rightarrow> COutPoint \<Rightarrow> bool" where
  "COutPoint_less a b \<longleftrightarrow>
     blob_less (prevout_hash a) (prevout_hash b) \<or> (prevout_hash a = prevout_hash b \<and> prevout_n a < prevout_n b)"

definition ser_COutPoint :: "COutPoint \<Rightarrow> valtype" where
  "ser_COutPoint p = ser_blob (prevout_hash p) @ ser_writedata32 (prevout_n p)"

definition unser_COutPoint :: "COutPoint reader" where
  "unser_COutPoint = rd_bind unser_blob (\<lambda>h. rd_bind ser_readdata32 (\<lambda>n. rd_return (COutPoint h n)))"

record CTxIn =
  prevout :: COutPoint
  scriptSig :: CScript
  nSequence :: uint32

definition CTxIn_IsFinal :: "CTxIn \<Rightarrow> bool" where
  "CTxIn_IsFinal txin \<longleftrightarrow> nSequence txin = - 1"

definition ser_CTxIn :: "CTxIn \<Rightarrow> valtype" where
  "ser_CTxIn txin = ser_COutPoint (prevout txin) @ ser_bytes (scriptSig txin) @ ser_writedata32 (nSequence txin)"

definition unser_CTxIn :: "CTxIn reader" where
  "unser_CTxIn =
     rd_bind unser_COutPoint (\<lambda>p. rd_bind unser_bytes (\<lambda>sig. rd_bind ser_readdata32 (\<lambda>s.
       rd_return \<lparr> prevout = p, scriptSig = sig, nSequence = s \<rparr>)))"

definition CTxIn_ok :: "CTxIn \<Rightarrow> bool" where
  "CTxIn_ok txin \<longleftrightarrow> length (scriptSig txin) \<le> MAX_SIZE"

record CTxOut =
  nValue :: CAmount
  scriptPubKey :: CScript

definition CTxOut_SetNull :: CTxOut where
  "CTxOut_SetNull = \<lparr> nValue = - 1, scriptPubKey = [] \<rparr>"

definition CTxOut_IsNull :: "CTxOut \<Rightarrow> bool" where
  "CTxOut_IsNull txout \<longleftrightarrow> nValue txout = - 1"

definition ser_CTxOut :: "CTxOut \<Rightarrow> valtype" where
  "ser_CTxOut txout = ser_int64 (nValue txout) @ ser_bytes (scriptPubKey txout)"

definition unser_CTxOut :: "CTxOut reader" where
  "unser_CTxOut =
     rd_bind unser_int64 (\<lambda>v. rd_bind unser_bytes (\<lambda>s. rd_return \<lparr> nValue = v, scriptPubKey = s \<rparr>))"

definition CTxOut_ok :: "CTxOut \<Rightarrow> bool" where
  "CTxOut_ok txout \<longleftrightarrow> in_int64 (nValue txout) \<and> length (scriptPubKey txout) \<le> MAX_SIZE"

definition GetDustThreshold :: "CFeeRate \<Rightarrow> CTxOut \<Rightarrow> (unit, CAmount) outcome" where
  "GetDustThreshold minRelayTxFee txout =
     (if IsUnspendable (scriptPubKey txout) then Ok 0
      else
        let nSize = of_nat (length (ser_CTxOut txout)) + 148;
            threshold = 3 * GetFee minRelayTxFee nSize in
        if in_int64 threshold then Ok threshold else Abort)"

definition IsDust :: "CFeeRate \<Rightarrow> CTxOut \<Rightarrow> (unit, bool) outcome" where
  "IsDust minRelayTxFee txout =
     rbind (GetDustThreshold minRelayTxFee txout) (\<lambda>threshold. Ok (nValue txout < threshold))"

section \<open>Transactions\<close>

record CTransaction =
  nVersion :: int
  vin :: "CTxIn list"
  vout :: "CTxOut list"
  nLockTime :: uint32
  vjoinsplit :: "JSDescription list"
  joinSplitPubKey :: uint256
  joinSplitSig :: valtype

type_synonym CMutableTransaction = CTransaction

text \<open>The default constructor: version 1, nothing spent, nothing created.\<close>

definition null_tx :: CTransaction where
  "null_tx = \<lparr> nVersion = 1, vin = [], vout = [], nLockTime = 0, vjoinsplit = [], joinSplitPubKey = 0,
     joinSplitSig = replicate 64 0 \<rparr>"

definition ser_CTransaction :: "CTransaction \<Rightarrow> valtype" where
  "ser_CTransaction tx =
     ser_int32 (nVersion tx) @ ser_vector ser_CTxIn (vin tx) @ ser_vector ser_CTxOut (vout tx) @
     ser_writedata32 (nLockTime tx) @
     (if nVersion tx \<ge> 2 then
        ser_vector ser_JSDescription (vjoinsplit tx) @
        (if length (vjoinsplit tx) > 0
         then ser_blob (joinSplitPubKey tx) @ ser_array ser_writedata8 (joinSplitSig tx) else [])
      else [])"

text \<open>Reading overwrites the members it reads; the others keep the value they have in \<open>this\<close>.\<close>

definition unser_tx_joinsplits :: "CTransaction \<Rightarrow> CTransaction reader" where
  "unser_tx_joinsplits tx =
     (if nVersion tx \<ge> 2 then
        rd_bind (unser_vector unser_JSDescription) (\<lambda>js.
          if length js > 0 then
            rd_bind unser_blob (\<lambda>key. rd_bind (unser_array 64 ser_readdata8) (\<lambda>sig.
              rd_return (tx\<lparr> vjoinsplit := js, joinSplitPubKey := key, joinSplitSig := sig \<rparr>)))
          else rd_return (tx\<lparr> vjoinsplit := js \<rparr>))
      else rd_return tx)"

definition unser_CTransaction :: "CTransaction \<Rightarrow> CTransaction reader" where
  "unser_CTransaction this =
     rd_bind unser_int32 (\<lambda>version. rd_bind (unser_vector unser_CTxIn) (\<lambda>ins.
     rd_bind (unser_vector unser_CTxOut) (\<lambda>outs. rd_bind ser_readdata32 (\<lambda>lock.
       unser_tx_joinsplits (this\<lparr> nVersion := version, vin := ins, vout := outs, nLockTime := lock \<rparr>)))))"

definition CTransaction_ok :: "CTransaction \<Rightarrow> CTransaction \<Rightarrow> bool" where
  "CTransaction_ok this tx \<longleftrightarrow>
     in_int32 (nVersion tx) \<and>
     length (vin tx) \<le> MAX_SIZE \<and> list_all CTxIn_ok (vin tx) \<and>
     length (vout tx) \<le> MAX_SIZE \<and> list_all CTxOut_ok (vout tx) \<and>
     (if nVersion tx \<ge> 2 then length (vjoinsplit tx) \<le> MAX_SIZE \<and> list_all JSDescription_ok (vjoinsplit tx)
      else vjoinsplit tx = vjoinsplit this) \<and>
     (if nVersion tx \<ge> 2 \<and> vjoinsplit tx \<noteq> [] then length (joinSplitSig tx) = 64
      else joinSplitPubKey tx = joinSplitPubKey this \<and> joinSplitSig tx = joinSplitSig this)"

definition tx_IsNull :: "CTransaction \<Rightarrow> bool" where
  "tx_IsNull tx \<longleftrightarrow> vin tx = [] \<and> vout tx = []"

definition IsCoinBase :: "CTransaction \<Rightarrow> bool" where
  "IsCoinBase tx \<longleftrightarrow> length (vin tx) = 1 \<and> COutPoint_IsNull (prevout (vin tx ! 0))"

text \<open>\<^verbatim>\<open>SerializeHash\<close> over the double hash \<open>H\<close>; \<^verbatim>\<open>UpdateHash\<close> caches it in \<^verbatim>\<open>hash\<close>.\<close>

definition SerializeHash :: "(valtype \<Rightarrow> valtype) \<Rightarrow> valtype \<Rightarrow> uint256" where
  "SerializeHash H bs = blob_of_bytes (H bs)"

definition GetHash :: "(valtype \<Rightarrow> valtype) \<Rightarrow> CTransaction \<Rightarrow> uint256" where
  "GetHash H tx = SerializeHash H (ser_CTransaction tx)"

text \<open>
  A sum of amounts: every summand and every partial sum is in range, or the code throws. The sum is taken
  before the check, so a summand near the end of the 64-bit range overflows.
\<close>

fun sum_amounts :: "CAmount \<Rightarrow> CAmount list \<Rightarrow> ('e, CAmount) outcome" where
  "sum_amounts acc [] = Ok acc"
| "sum_amounts acc (v # vs) =
     (if \<not> in_int64 (acc + v) then Abort
      else if \<not> MoneyRange v \<or> \<not> MoneyRange (acc + v) then Throw
      else sum_amounts (acc + v) vs)"

definition GetValueOut :: "CTransaction \<Rightarrow> ('e, CAmount) outcome" where
  "GetValueOut tx =
     rbind (sum_amounts 0 (map nValue (vout tx))) (\<lambda>nValueOut.
       sum_amounts nValueOut (map vpub_old (vjoinsplit tx)))"

definition GetJoinSplitValueIn :: "CTransaction \<Rightarrow> ('e, CAmount) outcome" where
  "GetJoinSplitValueIn tx = sum_amounts 0 (map vpub_new (vjoinsplit tx))"

fun modified_size :: "uint32 \<Rightarrow> CTxIn list \<Rightarrow> uint32" where
  "modified_size nTxSize [] = nTxSize"
| "modified_size nTxSize (it # ins) =
     (let offset = 41 + min 110 (of_nat (length (scriptSig it))) in
      modified_size (if nTxSize > offset then nTxSize - offset else nTxSize) ins)"

definition CalculateModifiedSize :: "CTransaction \<Rightarrow> uint32 \<Rightarrow> uint32" where
  "CalculateModifiedSize tx nTxSize =
     modified_size (if nTxSize = 0 then of_nat (length (ser_CTransaction tx)) else nTxSize) (vin tx)"

section \<open>Codecs\<close>

lemma codec_bijection:
  assumes c: "codec ok w r"
    and inv: "\<And>x. ok x \<Longrightarrow> ok' (f x) \<and> g (f x) = x"
    and sur: "\<And>y. ok' y \<Longrightarrow> ok (g y) \<and> f (g y) = y"
    and w': "\<And>y. w' y = w (g y)" and r': "r' = rd_bind r (\<lambda>x. rd_return (f x))"
  shows "codec ok' w' r'"
proof -
  have "w' = (\<lambda>y. w (g y))" using w' by (rule ext)
  then show ?thesis unfolding r' using codec.iso [OF c inv sur] by simp
qed

lemma sint_word_of_int32: "in_int32 x \<Longrightarrow> sint (word_of_int x :: 32 word) = x"
  by (simp add: in_int32_def signed_of_int signed_take_bit_int_eq_self)

lemma sint_word_of_int64: "in_int64 x \<Longrightarrow> sint (word_of_int x :: 64 word) = x"
  by (simp add: in_int64_def signed_of_int signed_take_bit_int_eq_self)

lemma in_int32_sint: "in_int32 (sint (x :: 32 word))"
  using sint_greater_eq [of x] sint_less [of x] by (simp add: in_int32_def)

lemma in_int64_sint: "in_int64 (sint (x :: 64 word))"
  using sint_greater_eq [of x] sint_less [of x] by (simp add: in_int64_def)

interpretation i32: codec in_int32 ser_int32 unser_int32
  by (rule codec_bijection [OF u32.codec_axioms, where f = sint and g = word_of_int])
    (simp_all add: in_int32_sint sint_word_of_int32 ser_int32_def unser_int32_def)

interpretation i64: codec in_int64 ser_int64 unser_int64
  by (rule codec_bijection [OF u64.codec_axioms, where f = sint and g = word_of_int])
    (simp_all add: in_int64_sint sint_word_of_int64 ser_int64_def unser_int64_def)

lemma codec_blob:
  assumes "8 dvd LENGTH('a :: len)"
  shows "codec (\<lambda>_ :: 'a word. True) ser_blob unser_blob"
  using codec_word [where ?'a = 'a, of "LENGTH('a) div 8"] assms
  by (simp add: ser_blob_def [abs_def] blob_bytes_def unser_blob_def blob_of_bytes_def)

interpretation blob256: codec "\<lambda>_ :: 256 word. True" ser_blob unser_blob
  by (rule codec_blob) simp

interpretation blob512: codec "\<lambda>_ :: 512 word. True" ser_blob unser_blob
  by (rule codec_blob) simp

interpretation hashes: codec "\<lambda>v :: uint256 list. length v = N" "ser_array ser_blob" "unser_array N unser_blob" for N
  using blob256.array [of N] by (simp add: list.pred_True)

interpretation octets: codec "\<lambda>v. length v = N" "ser_array ser_writedata8" "unser_array N ser_readdata8" for N
  using u8.array [of N] by (simp add: list.pred_True)

interpretation octets2: codec "\<lambda>v. length v = N \<and> list_all (\<lambda>v. length v = M) v"
    "ser_array (ser_array ser_writedata8)" "unser_array N (unser_array M ser_readdata8)" for N M
  by (rule octets.array)

lemmas codec_reads =
  u8.read_write u32.read_write u64.read_write i32.read_write i64.read_write blob256.read_write
  blob512.read_write hashes.read_write octets.read_write octets2.read_write bytes.read_write

lemmas codec_writes =
  u8.write_read u32.write_read u64.write_read i32.write_read i64.write_read blob256.write_read
  blob512.write_read hashes.write_read octets.write_read octets2.write_read bytes.write_read

lemmas reader_simps = rd_bind_def rd_return_def

lemma lead_byte_cases:
  assumes "(b :: byte) AND NOT 1 = m"
  shows "b = (if b AND 1 \<noteq> 0 then m OR 1 else m)"
proof -
  have "b = (b AND NOT 1) OR (b AND 1)" by (simp flip: bit.conj_disj_distrib)
  moreover have "b AND 1 = 0 \<or> b AND 1 = 1" by (simp add: and_one_eq mod2_eq_if)
  ultimately show ?thesis using assms by auto
qed

interpretation G1: codec "\<lambda>_. True" ser_G1 unser_G1
proof
  fix p rest show "unser_G1 (ser_G1 p @ rest) = Some (p, rest)"
    by (cases p) (simp add: unser_G1_def ser_G1_def reader_simps codec_reads)
next
  fix bs p rest assume "unser_G1 bs = Some (p, rest)"
  then obtain b bs' where "ser_readdata8 bs = Some (b, bs')" "b AND NOT 1 = G1_PREFIX_MASK"
      "unser_blob bs' = Some (g1_x p, rest)" "g1_y_lsb p = (b AND 1 \<noteq> 0)"
    by (auto simp: unser_G1_def rd_bind_eq_Some_iff rd_return_def split: if_splits)
  then show "True \<and> bs = ser_G1 p @ rest"
    using lead_byte_cases [of b G1_PREFIX_MASK]
    by (auto simp: ser_G1_def dest!: codec_writes)
qed

interpretation G2: codec "\<lambda>_. True" ser_G2 unser_G2
proof
  fix p rest show "unser_G2 (ser_G2 p @ rest) = Some (p, rest)"
    by (cases p) (simp add: unser_G2_def ser_G2_def reader_simps codec_reads)
next
  fix bs p rest assume "unser_G2 bs = Some (p, rest)"
  then obtain b bs' where "ser_readdata8 bs = Some (b, bs')" "b AND NOT 1 = G2_PREFIX_MASK"
      "unser_blob bs' = Some (g2_x p, rest)" "g2_y_gt p = (b AND 1 \<noteq> 0)"
    by (auto simp: unser_G2_def rd_bind_eq_Some_iff rd_return_def split: if_splits)
  then show "True \<and> bs = ser_G2 p @ rest"
    using lead_byte_cases [of b G2_PREFIX_MASK]
    by (auto simp: ser_G2_def dest!: codec_writes)
qed

interpretation ZCProof: codec "\<lambda>_. True" ser_ZCProof unser_ZCProof
proof
  fix p rest show "unser_ZCProof (ser_ZCProof p @ rest) = Some (p, rest)"
    by (cases p) (simp add: unser_ZCProof_def ser_ZCProof_def reader_simps G1.read_write G2.read_write)
next
  fix bs p rest assume "unser_ZCProof bs = Some (p, rest)"
  then show "True \<and> bs = ser_ZCProof p @ rest"
    by (auto simp: unser_ZCProof_def ser_ZCProof_def rd_bind_eq_Some_iff rd_return_def
        dest!: G1.write_read G2.write_read)
qed

interpretation JS: codec JSDescription_ok ser_JSDescription unser_JSDescription
proof
  fix js rest assume "JSDescription_ok js"
  then show "unser_JSDescription (ser_JSDescription js @ rest) = Some (js, rest)"
    by (cases js) (simp add: unser_JSDescription_def ser_JSDescription_def JSDescription_ok_def reader_simps
        codec_reads ZCProof.read_write)
next
  fix bs js rest assume "unser_JSDescription bs = Some (js, rest)"
  then show "JSDescription_ok js \<and> bs = ser_JSDescription js @ rest"
    by (auto simp: unser_JSDescription_def ser_JSDescription_def JSDescription_ok_def rd_bind_eq_Some_iff
        rd_return_def dest!: codec_writes ZCProof.write_read)
qed

interpretation outpoint: codec "\<lambda>_. True" ser_COutPoint unser_COutPoint
proof
  fix p rest show "unser_COutPoint (ser_COutPoint p @ rest) = Some (p, rest)"
    by (cases p) (simp add: unser_COutPoint_def ser_COutPoint_def reader_simps codec_reads)
next
  fix bs p rest assume "unser_COutPoint bs = Some (p, rest)"
  then show "True \<and> bs = ser_COutPoint p @ rest"
    by (auto simp: unser_COutPoint_def ser_COutPoint_def rd_bind_eq_Some_iff rd_return_def dest!: codec_writes)
qed

interpretation txin: codec CTxIn_ok ser_CTxIn unser_CTxIn
proof
  fix i rest assume "CTxIn_ok i"
  then show "unser_CTxIn (ser_CTxIn i @ rest) = Some (i, rest)"
    by (cases i) (simp add: unser_CTxIn_def ser_CTxIn_def CTxIn_ok_def reader_simps codec_reads outpoint.read_write)
next
  fix bs i rest assume "unser_CTxIn bs = Some (i, rest)"
  then show "CTxIn_ok i \<and> bs = ser_CTxIn i @ rest"
    by (auto simp: unser_CTxIn_def ser_CTxIn_def CTxIn_ok_def rd_bind_eq_Some_iff rd_return_def
        dest!: codec_writes outpoint.write_read)
qed

interpretation txout: codec CTxOut_ok ser_CTxOut unser_CTxOut
proof
  fix x rest assume "CTxOut_ok x"
  then show "unser_CTxOut (ser_CTxOut x @ rest) = Some (x, rest)"
    by (cases x) (simp add: unser_CTxOut_def ser_CTxOut_def CTxOut_ok_def reader_simps codec_reads)
next
  fix bs x rest assume "unser_CTxOut bs = Some (x, rest)"
  then show "CTxOut_ok x \<and> bs = ser_CTxOut x @ rest"
    by (auto simp: unser_CTxOut_def ser_CTxOut_def CTxOut_ok_def rd_bind_eq_Some_iff rd_return_def
        dest!: codec_writes)
qed

interpretation ins: codec "\<lambda>v. length v \<le> MAX_SIZE \<and> list_all CTxIn_ok v" "ser_vector ser_CTxIn" "unser_vector unser_CTxIn"
  by (rule txin.vector)

interpretation outs: codec "\<lambda>v. length v \<le> MAX_SIZE \<and> list_all CTxOut_ok v" "ser_vector ser_CTxOut" "unser_vector unser_CTxOut"
  by (rule txout.vector)

interpretation joinsplits: codec "\<lambda>v. length v \<le> MAX_SIZE \<and> list_all JSDescription_ok v"
    "ser_vector ser_JSDescription" "unser_vector unser_JSDescription"
  by (rule JS.vector)

lemmas tx_reads = codec_reads ins.read_write outs.read_write joinsplits.read_write
lemmas tx_writes = codec_writes ins.write_read outs.write_read joinsplits.write_read

lemma unser_tx_joinsplits_cases:
  assumes "unser_tx_joinsplits tx bs = Some (t, rest)"
  obtains "nVersion tx < 2" "t = tx" "rest = bs"
    | "2 \<le> nVersion tx" "unser_vector unser_JSDescription bs = Some ([], rest)" "t = tx\<lparr> vjoinsplit := [] \<rparr>"
    | js key sig bs5 bs6 where "2 \<le> nVersion tx" "js \<noteq> []" "unser_vector unser_JSDescription bs = Some (js, bs5)"
        "unser_blob bs5 = Some (key, bs6)" "unser_array 64 ser_readdata8 bs6 = Some (sig, rest)"
        "t = tx\<lparr> vjoinsplit := js, joinSplitPubKey := key, joinSplitSig := sig \<rparr>"
proof (cases "2 \<le> nVersion tx")
  case False
  with assms show ?thesis by (intro that(1)) (simp_all add: unser_tx_joinsplits_def rd_return_def)
next
  case True
  with assms obtain js bs5 where js: "unser_vector unser_JSDescription bs = Some (js, bs5)"
      "(if length js > 0 then rd_bind unser_blob (\<lambda>key. rd_bind (unser_array 64 ser_readdata8) (\<lambda>sig.
          rd_return (tx\<lparr> vjoinsplit := js, joinSplitPubKey := key, joinSplitSig := sig \<rparr>)))
        else rd_return (tx\<lparr> vjoinsplit := js \<rparr>)) bs5 = Some (t, rest)"
    by (auto simp: unser_tx_joinsplits_def rd_bind_eq_Some_iff)
  show ?thesis
  proof (cases "js = []")
    case True
    with js \<open>2 \<le> nVersion tx\<close> show ?thesis by (intro that(2)) (simp_all add: rd_return_def)
  next
    case False
    with js(2) obtain key sig bs6 where "unser_blob bs5 = Some (key, bs6)"
        "unser_array 64 ser_readdata8 bs6 = Some (sig, rest)"
        "t = tx\<lparr> vjoinsplit := js, joinSplitPubKey := key, joinSplitSig := sig \<rparr>"
      by (simp add: rd_bind_eq_Some_iff rd_return_def) blast
    with js(1) False \<open>2 \<le> nVersion tx\<close> show ?thesis by (intro that(3))
  qed
qed

lemmas tx_codec_defs = unser_CTransaction_def unser_tx_joinsplits_def ser_CTransaction_def CTransaction_ok_def

interpretation tx: codec "CTransaction_ok this" ser_CTransaction "unser_CTransaction this" for this
proof
  fix t rest assume ok: "CTransaction_ok this t"
  consider "\<not> 2 \<le> nVersion t" | "2 \<le> nVersion t" "vjoinsplit t = []" | "2 \<le> nVersion t" "vjoinsplit t \<noteq> []"
    by blast
  then show "unser_CTransaction this (ser_CTransaction t @ rest) = Some (t, rest)"
    using ok by cases (simp_all add: tx_codec_defs reader_simps tx_reads)
next
  fix bs t rest assume "unser_CTransaction this bs = Some (t, rest)"
  then obtain v ins outs l bs1 bs2 bs3 bs4 where
      parts: "unser_int32 bs = Some (v, bs1)" "unser_vector unser_CTxIn bs1 = Some (ins, bs2)"
        "unser_vector unser_CTxOut bs2 = Some (outs, bs3)" "ser_readdata32 bs3 = Some (l, bs4)"
      and tail: "unser_tx_joinsplits (this\<lparr> nVersion := v, vin := ins, vout := outs, nLockTime := l \<rparr>) bs4 = Some (t, rest)"
    by (auto simp: unser_CTransaction_def rd_bind_eq_Some_iff)
  note ws = i32.write_read [OF parts(1)] ins.write_read [OF parts(2)] outs.write_read [OF parts(3)]
    u32.write_read [OF parts(4)]
  from tail show "CTransaction_ok this t \<and> bs = ser_CTransaction t @ rest"
  proof (cases rule: unser_tx_joinsplits_cases)
    case 1
    with ws show ?thesis by (simp add: CTransaction_ok_def ser_CTransaction_def)
  next
    case 2
    with ws joinsplits.write_read [OF 2(2)] show ?thesis by (simp add: CTransaction_ok_def ser_CTransaction_def)
  next
    case 3
    with ws joinsplits.write_read [OF 3(3)] blob256.write_read [OF 3(4)] octets.write_read [OF 3(5)]
    show ?thesis by (simp add: CTransaction_ok_def ser_CTransaction_def)
  qed
qed

section \<open>The order of outpoints\<close>

lemma blob_bytes_inject: "blob_bytes (a :: uint256) = blob_bytes b \<longleftrightarrow> a = b"
  using blob256.prefix_free [where x = a and y = b and s = "[]" and t = "[]"] by (auto simp: ser_blob_def)

lemma map_unat_inject: "map (unat :: byte \<Rightarrow> nat) xs = map unat ys \<longleftrightarrow> xs = ys"
  by (rule inj_map_eq_map) (simp add: inj_def word_unat_eq_iff)

lemma blob_less_trichotomy: "blob_less a b \<or> a = b \<or> blob_less b (a :: uint256)"
  using less_linear [of "map unat (blob_bytes a)" "map unat (blob_bytes b)"]
  by (auto simp: blob_less_def map_unat_inject blob_bytes_inject)

lemma blob_less_irrefl: "\<not> blob_less a a"
  by (simp add: blob_less_def)

lemma blob_less_trans: "blob_less a b \<Longrightarrow> blob_less b c \<Longrightarrow> blob_less a c"
  by (auto simp: blob_less_def intro: less_trans)

instantiation COutPoint :: linorder
begin

definition less_COutPoint_def: "a < b \<longleftrightarrow> COutPoint_less a b"

definition less_eq_COutPoint_def: "a \<le> b \<longleftrightarrow> COutPoint_less a b \<or> (a :: COutPoint) = b"

instance
proof
  fix x y z :: COutPoint
  show "x < y \<longleftrightarrow> x \<le> y \<and> \<not> y \<le> x" and "x \<le> x" and "x \<le> y \<Longrightarrow> y \<le> x \<Longrightarrow> x = y"
    unfolding less_COutPoint_def less_eq_COutPoint_def COutPoint_less_def
    by (auto intro: COutPoint.expand dest: blob_less_trans simp: blob_less_irrefl)
  show "x \<le> y \<Longrightarrow> y \<le> z \<Longrightarrow> x \<le> z"
    unfolding less_COutPoint_def less_eq_COutPoint_def COutPoint_less_def
    by (auto intro: COutPoint.expand dest: blob_less_trans)
  show "x \<le> y \<or> y \<le> x"
    unfolding less_eq_COutPoint_def COutPoint_less_def
    using blob_less_trichotomy [of "prevout_hash x" "prevout_hash y"] by (auto intro: COutPoint.expand)
qed

end

section \<open>Amounts\<close>

lemma MoneyRange_in_int64: "MoneyRange x \<Longrightarrow> MoneyRange y \<Longrightarrow> in_int64 (x + y)"
  by (simp add: MoneyRange_def in_int64_def)

lemma sum_amounts_iff:
  assumes "MoneyRange acc"
  shows "sum_amounts acc vs = Ok v \<longleftrightarrow> list_all MoneyRange vs \<and> v = acc + sum_list vs \<and> MoneyRange v"
  using assms
proof (induction vs arbitrary: acc)
  case Nil
  then show ?case by auto
next
  case (Cons x xs)
  have nn: "list_all MoneyRange xs \<Longrightarrow> 0 \<le> sum_list xs"
    by (induction xs) (auto simp: MoneyRange_def)
  show ?case
  proof (cases "MoneyRange x \<and> MoneyRange (acc + x)")
    case True
    then show ?thesis
      using Cons.IH [of "acc + x"] MoneyRange_in_int64 [OF Cons.prems, of x] by (auto simp: add.assoc)
  next
    case False
    have "\<not> (list_all MoneyRange (x # xs) \<and> MoneyRange (acc + sum_list (x # xs)))"
      using False Cons.prems nn by (auto simp: MoneyRange_def)
    with False show ?thesis by auto
  qed
qed

lemma GetValueOut_iff:
  "(GetValueOut tx :: ('e, CAmount) outcome) = Ok v \<longleftrightarrow>
     list_all MoneyRange (map nValue (vout tx)) \<and> list_all MoneyRange (map vpub_old (vjoinsplit tx)) \<and>
     v = sum_list (map nValue (vout tx)) + sum_list (map vpub_old (vjoinsplit tx)) \<and> MoneyRange v"
proof
  have z: "MoneyRange 0" by (simp add: MoneyRange_def)
  have nn: "list_all MoneyRange xs \<Longrightarrow> 0 \<le> sum_list xs" for xs
    by (induction xs) (auto simp: MoneyRange_def)
  {
    assume "(GetValueOut tx :: ('e, CAmount) outcome) = Ok v"
    then obtain u where u: "sum_amounts 0 (map nValue (vout tx)) = (Ok u :: ('e, CAmount) outcome)"
        "sum_amounts u (map vpub_old (vjoinsplit tx)) = (Ok v :: ('e, CAmount) outcome)"
      by (auto simp: GetValueOut_def outcome_simps)
    from u(1) have "list_all MoneyRange (map nValue (vout tx))" "u = sum_list (map nValue (vout tx))" "MoneyRange u"
      by (auto simp: sum_amounts_iff z)
    with u(2) show "list_all MoneyRange (map nValue (vout tx)) \<and> list_all MoneyRange (map vpub_old (vjoinsplit tx)) \<and>
     v = sum_list (map nValue (vout tx)) + sum_list (map vpub_old (vjoinsplit tx)) \<and> MoneyRange v"
      by (auto simp: sum_amounts_iff)
  next
    assume r: "list_all MoneyRange (map nValue (vout tx)) \<and> list_all MoneyRange (map vpub_old (vjoinsplit tx)) \<and>
     v = sum_list (map nValue (vout tx)) + sum_list (map vpub_old (vjoinsplit tx)) \<and> MoneyRange v"
    then have "MoneyRange (sum_list (map nValue (vout tx)))"
      using nn [of "map nValue (vout tx)"] nn [of "map vpub_old (vjoinsplit tx)"] by (simp add: MoneyRange_def)
    with r show "(GetValueOut tx :: ('e, CAmount) outcome) = Ok v"
      by (auto simp: GetValueOut_def sum_amounts_iff [OF z, THEN iffD2] sum_amounts_iff)
  }
qed

lemma GetFee_exact:
  assumes "0 \<le> nSatoshisPerK rate" "nSatoshisPerK rate * int (unat nSize) < 2 ^ 64"
  shows "GetFee rate nSize =
    (let fee = nSatoshisPerK rate * int (unat nSize) div 1000 in if fee = 0 then nSatoshisPerK rate else fee)"
proof -
  obtain k where k: "nSatoshisPerK rate = int k" using assms(1) nonneg_int_cases by blast
  have "int (k * unat nSize) < int (2 ^ 64)" using assms(2) by (simp add: k)
  then have lt: "k * unat nSize < 2 ^ 64" by (simp only: of_nat_less_iff)
  have p: "word_of_int (nSatoshisPerK rate) * nSize = (word_of_nat (k * unat nSize) :: uint64)"
    by (simp add: k)
  have "unat (word_of_int (nSatoshisPerK rate) * nSize div 1000 :: uint64) = k * unat nSize div 1000"
    unfolding p using lt by (simp only: unat_div unat_of_nat) simp
  moreover have "k * unat nSize div 1000 < 2 ^ 63" using lt by simp
  ultimately have "sint (word_of_int (nSatoshisPerK rate) * nSize div 1000 :: uint64) = int (k * unat nSize div 1000)"
    by (simp add: sint_uint64_small)
  also have "\<dots> = nSatoshisPerK rate * int (unat nSize) div 1000" by (simp add: k zdiv_int)
  finally show ?thesis using assms(1) unfolding GetFee_def Let_def by auto
qed

section \<open>Properties\<close>

text \<open>
  C14: a byte string is read as a transaction exactly when it is the serialization of that transaction
  followed by the rest of the stream. So reading inverts writing, no transaction has two encodings, and
  members that are not on the wire keep the value they had.
\<close>

theorem CTransaction_codec:
  "unser_CTransaction this bs = Some (tx, rest) \<longleftrightarrow> CTransaction_ok this tx \<and> bs = ser_CTransaction tx @ rest"
  by (rule tx.read_iff)

text \<open>
  C15: the value a transaction creates is returned exactly when every amount and the total are in the
  money range, and then it is the sum; no 64-bit overflow can hide an excess.
\<close>

theorem GetValueOut_exact:
  "(GetValueOut tx :: (unit, CAmount) outcome) = Ok v \<longleftrightarrow>
     list_all (\<lambda>out. MoneyRange (nValue out)) (vout tx) \<and>
     list_all (\<lambda>js. MoneyRange (vpub_old js)) (vjoinsplit tx) \<and>
     v = (\<Sum>out\<leftarrow>vout tx. nValue out) + (\<Sum>js\<leftarrow>vjoinsplit tx. vpub_old js) \<and> MoneyRange v"
  by (simp add: GetValueOut_iff list.pred_map comp_def)

theorem GetValueOut_exact_witness:
  "(GetValueOut (null_tx\<lparr> vout := [\<lparr> nValue = 5, scriptPubKey = [] \<rparr>, \<lparr> nValue = 7, scriptPubKey = [0x51] \<rparr>] \<rparr>)
     :: (unit, CAmount) outcome) = Ok 12"
  unfolding GetValueOut_exact by (simp add: null_tx_def MoneyRange_def)

text \<open>
  The fee of a rate is the exact quotient, at least the rate itself when the quotient is zero, as long
  as the unsigned product does not wrap.
\<close>

theorem GetFee_value:
  assumes "0 \<le> nSatoshisPerK rate" and "nSatoshisPerK rate * int (unat nSize) < 2 ^ 64"
  shows "GetFee rate nSize =
    (let fee = nSatoshisPerK rate * int (unat nSize) div 1000 in if fee = 0 then nSatoshisPerK rate else fee)"
  using assms by (rule GetFee_exact)

theorem GetFee_value_witness:
  "GetFee \<lparr> nSatoshisPerK = 1000 \<rparr> 226 = 226 \<and> GetFee \<lparr> nSatoshisPerK = 1 \<rparr> 226 = 1"
  using GetFee_value [of "\<lparr> nSatoshisPerK = 1000 \<rparr>" 226] GetFee_value [of "\<lparr> nSatoshisPerK = 1 \<rparr>" 226] by simp

end
