(* ===== verification/Signature.thy ===== *)
theory Signature
  imports VerifyScript Transaction
begin

unbundle bit_operations_syntax

text \<open>
  What a signature commits to and how it is checked: \<^verbatim>\<open>CTransactionSignatureSerializer\<close>,
  \<^verbatim>\<open>SignatureHash\<close> and \<^verbatim>\<open>TransactionSignatureChecker\<close> of
  \<^verbatim>\<open>src/src/script/interpreter.cpp\<close>, with \<^verbatim>\<open>CPubKey\<close> of \<^verbatim>\<open>src/src/pubkey.h\<close>. The
  reference definition is \<^verbatim>\<open>SignatureHashOld\<close> of \<^verbatim>\<open>src/src/test/sighash_tests.cpp\<close>, which edits a copy of the
  transaction. The elliptic curve is the argument \<open>ecdsa_verify\<close>.
\<close>

abbreviation (input) NOT_AN_INPUT :: nat where "NOT_AN_INPUT \<equiv> 0xFFFFFFFF"
abbreviation (input) FORKID_NONE :: uint32 where "FORKID_NONE \<equiv> 0"
abbreviation (input) FORKID_BTCP :: uint32 where "FORKID_BTCP \<equiv> 42"
abbreviation (input) FORKID_BTCGPU :: uint32 where "FORKID_BTCGPU \<equiv> 79"
abbreviation (input) FORKID_IN_USE :: uint32 where "FORKID_IN_USE \<equiv> FORKID_BTCP"

abbreviation (input) MANDATORY_SCRIPT_VERIFY_FLAGS :: uint32 where
  "MANDATORY_SCRIPT_VERIFY_FLAGS \<equiv>
     SCRIPT_VERIFY_P2SH OR SCRIPT_VERIFY_CHECKLOCKTIMEVERIFY OR SCRIPT_VERIFY_FORKID"

abbreviation (input) STANDARD_SCRIPT_VERIFY_FLAGS :: uint32 where
  "STANDARD_SCRIPT_VERIFY_FLAGS \<equiv>
     MANDATORY_SCRIPT_VERIFY_FLAGS OR SCRIPT_VERIFY_STRICTENC OR SCRIPT_VERIFY_MINIMALDATA OR
     SCRIPT_VERIFY_NULLDUMMY OR SCRIPT_VERIFY_DISCOURAGE_UPGRADABLE_NOPS OR SCRIPT_VERIFY_CLEANSTACK OR
     SCRIPT_VERIFY_MINIMALIF OR SCRIPT_VERIFY_NULLFAIL OR SCRIPT_VERIFY_LOW_S OR SCRIPT_VERIFY_WITNESS OR
     SCRIPT_VERIFY_DISCOURAGE_UPGRADABLE_WITNESS_PROGRAM OR SCRIPT_VERIFY_WITNESS_PUBKEYTYPE"

section \<open>The serializer\<close>

text \<open>The members of the serializer that depend on the hash type only.\<close>

definition fAnyoneCanPay :: "uint32 \<Rightarrow> bool" where
  "fAnyoneCanPay nHashType \<longleftrightarrow> nHashType AND SIGHASH_ANYONECANPAY \<noteq> 0"

definition fHashSingle :: "uint32 \<Rightarrow> bool" where
  "fHashSingle nHashType \<longleftrightarrow> nHashType AND 0x1f = SIGHASH_SINGLE"

definition fHashNone :: "uint32 \<Rightarrow> bool" where
  "fHashNone nHashType \<longleftrightarrow> nHashType AND 0x1f = SIGHASH_NONE"

definition SerializeScriptCode :: "CScript \<Rightarrow> valtype" where
  "SerializeScriptCode scriptCode = WriteCompactSize (of_nat (length scriptCode)) @ scriptCode"

text \<open>\<open>None\<close> is an access beyond the end of a vector, or the failed assertion on \<^verbatim>\<open>nInput\<close>.\<close>

definition SerializeInput :: "CTransaction \<Rightarrow> CScript \<Rightarrow> nat \<Rightarrow> uint32 \<Rightarrow> nat \<Rightarrow> valtype option" where
  "SerializeInput txTo scriptCode nIn nHashType nInput0 =
     (let nInput = if fAnyoneCanPay nHashType then nIn else nInput0 in
      if nInput \<ge> length (vin txTo) \<or> nInput = NOT_AN_INPUT then None
      else Some
       (ser_COutPoint (prevout (vin txTo ! nInput)) @
        (if nInput \<noteq> nIn then ser_bytes [] else SerializeScriptCode scriptCode) @
        (if nInput \<noteq> nIn \<and> (fHashSingle nHashType \<or> fHashNone nHashType)
         then ser_int32 0 else ser_writedata32 (nSequence (vin txTo ! nInput)))))"

definition SerializeOutput :: "CTransaction \<Rightarrow> nat \<Rightarrow> uint32 \<Rightarrow> nat \<Rightarrow> valtype option" where
  "SerializeOutput txTo nIn nHashType nOutput =
     (if fHashSingle nHashType \<and> nOutput \<noteq> nIn then Some (ser_CTxOut CTxOut_SetNull)
      else if nOutput \<ge> length (vout txTo) then None
      else Some (ser_CTxOut (vout txTo ! nOutput)))"

fun ser_each :: "(nat \<Rightarrow> valtype option) \<Rightarrow> nat list \<Rightarrow> valtype option" where
  "ser_each f [] = Some []"
| "ser_each f (i # is) =
     (case f i of None \<Rightarrow> None
      | Some bs \<Rightarrow> (case ser_each f is of None \<Rightarrow> None | Some rest \<Rightarrow> Some (bs @ rest)))"

definition sig_nInputs :: "CTransaction \<Rightarrow> uint32 \<Rightarrow> nat" where
  "sig_nInputs txTo nHashType = (if fAnyoneCanPay nHashType then 1 else length (vin txTo))"

definition sig_nOutputs :: "CTransaction \<Rightarrow> nat \<Rightarrow> uint32 \<Rightarrow> nat" where
  "sig_nOutputs txTo nIn nHashType =
     (if fHashNone nHashType then 0 else if fHashSingle nHashType then nIn + 1 else length (vout txTo))"

definition sig_joinsplits :: "CTransaction \<Rightarrow> valtype" where
  "sig_joinsplits txTo =
     (if nVersion txTo \<ge> 2 then
        ser_vector ser_JSDescription (vjoinsplit txTo) @
        (if length (vjoinsplit txTo) > 0
         then ser_blob (joinSplitPubKey txTo) @ ser_array ser_writedata8 (replicate 64 0) else [])
      else [])"

definition sig_Serialize :: "CTransaction \<Rightarrow> CScript \<Rightarrow> nat \<Rightarrow> uint32 \<Rightarrow> valtype option" where
  "sig_Serialize txTo scriptCode nIn nHashType =
     (case ser_each (SerializeInput txTo scriptCode nIn nHashType) [0..<sig_nInputs txTo nHashType] of
        None \<Rightarrow> None
      | Some inputs \<Rightarrow>
        (case ser_each (SerializeOutput txTo nIn nHashType) [0..<sig_nOutputs txTo nIn nHashType] of
           None \<Rightarrow> None
         | Some outputs \<Rightarrow> Some
            (ser_int32 (nVersion txTo) @
             WriteCompactSize (of_nat (sig_nInputs txTo nHashType)) @ inputs @
             WriteCompactSize (of_nat (sig_nOutputs txTo nIn nHashType)) @ outputs @
             ser_writedata32 (nLockTime txTo) @ sig_joinsplits txTo)))"

section \<open>The hash\<close>

definition nForkHashType :: "uint32 \<Rightarrow> uint32 \<Rightarrow> uint32" where
  "nForkHashType nHashType forkid =
     (if UsesForkId_type nHashType then nHashType OR push_bit 8 forkid else nHashType)"

text \<open>The bytes that are hashed; \<open>Throw\<close> is \<^verbatim>\<open>logic_error\<close>.\<close>

definition sighash_message ::
  "CScript \<Rightarrow> CTransaction \<Rightarrow> nat \<Rightarrow> uint32 \<Rightarrow> uint32 \<Rightarrow> (unit, valtype) outcome" where
  "sighash_message scriptCode txTo nIn nHashType forkid =
     (if nIn \<ge> length (vin txTo) \<and> nIn \<noteq> NOT_AN_INPUT then Throw
      else if fHashSingle nHashType \<and> nIn \<ge> length (vout txTo) then Throw
      else case sig_Serialize txTo scriptCode nIn nHashType of
        None \<Rightarrow> Abort
      | Some txTmp \<Rightarrow> Ok (txTmp @ ser_writedata32 (nForkHashType nHashType forkid)))"

definition SignatureHash ::
  "crypto_env \<Rightarrow> CScript \<Rightarrow> CTransaction \<Rightarrow> nat \<Rightarrow> uint32 \<Rightarrow> uint32 \<Rightarrow> (unit, uint256) outcome" where
  "SignatureHash env scriptCode txTo nIn nHashType forkid =
     rbind (sighash_message scriptCode txTo nIn nHashType forkid) (\<lambda>ss. Ok (SerializeHash (CHash256 env) ss))"

section \<open>The checker\<close>

definition GetLen :: "byte \<Rightarrow> nat" where
  "GetLen chHeader =
     (if chHeader = 2 \<or> chHeader = 3 then 33
      else if chHeader = 4 \<or> chHeader = 6 \<or> chHeader = 7 then 65
      else 0)"

text \<open>The key that \<^verbatim>\<open>Set\<close> stores; \<open>None\<close> is the invalidated key.\<close>

definition CPubKey_Set :: "valtype \<Rightarrow> valtype option" where
  "CPubKey_Set vch =
     (let len = if vch = [] then 0 else GetLen (hd vch) in
      if len \<noteq> 0 \<and> len = length vch then Some vch else None)"

definition IsValid :: "valtype option \<Rightarrow> bool" where
  "IsValid pubkey \<longleftrightarrow> pubkey \<noteq> None"

type_synonym ecdsa = "valtype \<Rightarrow> uint256 \<Rightarrow> valtype \<Rightarrow> bool"

definition CPubKey_Verify :: "ecdsa \<Rightarrow> valtype option \<Rightarrow> uint256 \<Rightarrow> valtype \<Rightarrow> bool" where
  "CPubKey_Verify ecdsa_verify pubkey hash vchSig =
     (case pubkey of None \<Rightarrow> False | Some key \<Rightarrow> if length vchSig = 0 then False else ecdsa_verify key hash vchSig)"

definition tx_CheckSig ::
  "crypto_env \<Rightarrow> ecdsa \<Rightarrow> CTransaction \<Rightarrow> nat \<Rightarrow> valtype \<Rightarrow> valtype \<Rightarrow> CScript \<Rightarrow> uint32 \<Rightarrow> bool" where
  "tx_CheckSig env ecdsa_verify txTo nIn vchSigIn vchPubKey scriptCode flags =
     (let pubkey = CPubKey_Set vchPubKey in
      if \<not> IsValid pubkey then False
      else if vchSigIn = [] then False
      else
        let nHashType = GetHashType vchSigIn; vchSig = butlast vchSigIn in
        case SignatureHash env scriptCode txTo nIn nHashType
               (if has_flag flags SCRIPT_VERIFY_FORKID then FORKID_IN_USE else FORKID_NONE) of
          Ok sighash \<Rightarrow> CPubKey_Verify ecdsa_verify pubkey sighash vchSig
        | _ \<Rightarrow> False)"


definition tx_CheckLockTime :: "CTransaction \<Rightarrow> nat \<Rightarrow> int \<Rightarrow> bool" where
  "tx_CheckLockTime txTo nIn nLockTime0 =
     (if \<not> ((uint (nLockTime txTo) < LOCKTIME_THRESHOLD \<and> nLockTime0 < LOCKTIME_THRESHOLD) \<or>
            (uint (nLockTime txTo) \<ge> LOCKTIME_THRESHOLD \<and> nLockTime0 \<ge> LOCKTIME_THRESHOLD)) then False
      else if nLockTime0 > uint (nLockTime txTo) then False
      else if CTxIn_IsFinal (vin txTo ! nIn) then False
      else True)"

definition TransactionSignatureChecker :: "crypto_env \<Rightarrow> ecdsa \<Rightarrow> CTransaction \<Rightarrow> nat \<Rightarrow> sig_checker" where
  "TransactionSignatureChecker env ecdsa_verify txTo nIn =
     \<lparr> CheckSig = tx_CheckSig env ecdsa_verify txTo nIn, CheckLockTime = tx_CheckLockTime txTo nIn \<rparr>"

section \<open>The reference definition\<close>

text \<open>The edits of \<^verbatim>\<open>SignatureHashOld\<close>, in its order.\<close>

definition old_blank_inputs :: "CScript \<Rightarrow> nat \<Rightarrow> CTransaction \<Rightarrow> CTransaction" where
  "old_blank_inputs scriptCode nIn txTmp =
     (let blanked = map (\<lambda>txin. txin\<lparr> scriptSig := [] \<rparr>) (vin txTmp) in
      txTmp\<lparr> vin := blanked[nIn := (blanked ! nIn)\<lparr> scriptSig := scriptCode \<rparr>] \<rparr>)"

definition old_free_sequences :: "nat \<Rightarrow> CTransaction \<Rightarrow> CTransaction" where
  "old_free_sequences nIn txTmp =
     txTmp\<lparr> vin := map (\<lambda>i. if i \<noteq> nIn then (vin txTmp ! i)\<lparr> nSequence := 0 \<rparr> else vin txTmp ! i)
       [0..<length (vin txTmp)] \<rparr>"

definition old_outputs :: "nat \<Rightarrow> uint32 \<Rightarrow> CTransaction \<Rightarrow> CTransaction" where
  "old_outputs nIn nHashType txTmp =
     (if nHashType AND 0x1f = SIGHASH_NONE then old_free_sequences nIn (txTmp\<lparr> vout := [] \<rparr>)
      else if nHashType AND 0x1f = SIGHASH_SINGLE then
        old_free_sequences nIn
          (txTmp\<lparr> vout := replicate nIn CTxOut_SetNull @ drop nIn (take (nIn + 1) (vout txTmp)) \<rparr>)
      else txTmp)"

definition old_anyone :: "nat \<Rightarrow> uint32 \<Rightarrow> CTransaction \<Rightarrow> CTransaction" where
  "old_anyone nIn nHashType txTmp =
     (if nHashType AND SIGHASH_ANYONECANPAY \<noteq> 0 then txTmp\<lparr> vin := take 1 ((vin txTmp)[0 := vin txTmp ! nIn]) \<rparr>
      else txTmp)"

definition SignatureHashOld_tx :: "CScript \<Rightarrow> CTransaction \<Rightarrow> nat \<Rightarrow> uint32 \<Rightarrow> CTransaction" where
  "SignatureHashOld_tx scriptCode txTo nIn nHashType =
     (old_anyone nIn nHashType (old_outputs nIn nHashType (old_blank_inputs scriptCode nIn txTo)))
       \<lparr> joinSplitSig := replicate 64 0 \<rparr>"

section \<open>The serializer is the serialization of the edited copy\<close>

lemma ser_each_Some: "\<forall>i \<in> set is. f i = Some (g i) \<Longrightarrow> ser_each f is = Some (concat (map g is))"
  by (induction "is") simp_all

lemma take_1_update: "0 < length xs \<Longrightarrow> take 1 (xs[0 := v]) = [v]"
  by (cases xs) simp_all

definition sig_input :: "CScript \<Rightarrow> nat \<Rightarrow> uint32 \<Rightarrow> CTransaction \<Rightarrow> nat \<Rightarrow> CTxIn" where
  "sig_input scriptCode nIn nHashType txTo i =
     \<lparr> prevout = prevout (vin txTo ! i), scriptSig = if i = nIn then scriptCode else [],
       nSequence = if i \<noteq> nIn \<and> (fHashSingle nHashType \<or> fHashNone nHashType) then 0
         else nSequence (vin txTo ! i) \<rparr>"

lemma SignatureHashOld_tx_other:
  "nVersion (SignatureHashOld_tx scriptCode txTo nIn nHashType) = nVersion txTo"
  "nLockTime (SignatureHashOld_tx scriptCode txTo nIn nHashType) = nLockTime txTo"
  "vjoinsplit (SignatureHashOld_tx scriptCode txTo nIn nHashType) = vjoinsplit txTo"
  "joinSplitPubKey (SignatureHashOld_tx scriptCode txTo nIn nHashType) = joinSplitPubKey txTo"
  "joinSplitSig (SignatureHashOld_tx scriptCode txTo nIn nHashType) = replicate 64 0"
  by (simp_all add: SignatureHashOld_tx_def old_anyone_def old_outputs_def old_free_sequences_def
      old_blank_inputs_def Let_def)

lemma old_blank_inputs_vin:
  "vin (old_blank_inputs scriptCode nIn txTo) =
     map (\<lambda>i. (vin txTo ! i)\<lparr> scriptSig := if i = nIn then scriptCode else [] \<rparr>) [0..<length (vin txTo)]"
  by (rule nth_equalityI) (auto simp: old_blank_inputs_def Let_def nth_list_update)

lemma old_outputs_vin:
  "vin (old_outputs nIn nHashType (old_blank_inputs scriptCode nIn txTo)) =
     map (sig_input scriptCode nIn nHashType txTo) [0..<length (vin txTo)]"
  by (rule nth_equalityI) (auto simp: old_outputs_def old_free_sequences_def old_blank_inputs_vin sig_input_def
      fHashSingle_def fHashNone_def)

lemma SignatureHashOld_tx_vin:
  assumes "nIn < length (vin txTo)"
  shows "vin (SignatureHashOld_tx scriptCode txTo nIn nHashType) =
    map (sig_input scriptCode nIn nHashType txTo) (if fAnyoneCanPay nHashType then [nIn] else [0..<length (vin txTo)])"
  using assms
  by (auto simp: SignatureHashOld_tx_def old_anyone_def old_outputs_vin fAnyoneCanPay_def
      intro!: take_1_update simp del: One_nat_def)

definition sig_output :: "nat \<Rightarrow> uint32 \<Rightarrow> CTransaction \<Rightarrow> nat \<Rightarrow> CTxOut" where
  "sig_output nIn nHashType txTo i =
     (if fHashSingle nHashType \<and> i \<noteq> nIn then CTxOut_SetNull else vout txTo ! i)"

lemma SignatureHashOld_tx_vout:
  assumes "fHashSingle nHashType \<Longrightarrow> nIn < length (vout txTo)"
  shows "vout (SignatureHashOld_tx scriptCode txTo nIn nHashType) =
    map (sig_output nIn nHashType txTo) [0..<sig_nOutputs txTo nIn nHashType]"
  using assms
  by (intro nth_equalityI)
    (auto simp: SignatureHashOld_tx_def old_anyone_def old_outputs_def old_free_sequences_def old_blank_inputs_def
      Let_def fHashSingle_def fHashNone_def sig_output_def sig_nOutputs_def nth_append)

text \<open>The transaction a signature commits to, also for the JoinSplit signature, which belongs to no input.\<close>

definition sighash_tx :: "CScript \<Rightarrow> CTransaction \<Rightarrow> nat \<Rightarrow> uint32 \<Rightarrow> CTransaction" where
  "sighash_tx scriptCode txTo nIn nHashType =
     txTo\<lparr> vin := map (sig_input scriptCode nIn nHashType txTo)
             (if fAnyoneCanPay nHashType then [nIn] else [0..<length (vin txTo)]),
           vout := map (sig_output nIn nHashType txTo) [0..<sig_nOutputs txTo nIn nHashType],
           joinSplitSig := replicate 64 0 \<rparr>"

definition sig_index_ok :: "CTransaction \<Rightarrow> nat \<Rightarrow> uint32 \<Rightarrow> bool" where
  "sig_index_ok txTo nIn nHashType \<longleftrightarrow>
     length (vin txTo) \<le> MAX_SIZE \<and>
     (nIn < length (vin txTo) \<or> nIn = NOT_AN_INPUT \<and> \<not> fAnyoneCanPay nHashType) \<and>
     (fHashSingle nHashType \<longrightarrow> nIn < length (vout txTo))"

lemma SignatureHashOld_tx_eq:
  assumes "nIn < length (vin txTo)" "fHashSingle nHashType \<Longrightarrow> nIn < length (vout txTo)"
  shows "SignatureHashOld_tx scriptCode txTo nIn nHashType = sighash_tx scriptCode txTo nIn nHashType"
  using assms
  by (intro CTransaction.equality)
    (simp_all add: sighash_tx_def SignatureHashOld_tx_other SignatureHashOld_tx_vin SignatureHashOld_tx_vout)

lemma SerializeInput_eq:
  assumes "sig_index_ok txTo nIn nHashType" "nInput < sig_nInputs txTo nHashType"
  shows "SerializeInput txTo scriptCode nIn nHashType nInput =
    Some (ser_CTxIn (sig_input scriptCode nIn nHashType txTo (if fAnyoneCanPay nHashType then nIn else nInput)))"
  using assms
  by (cases "fAnyoneCanPay nHashType") (auto simp: SerializeInput_def sig_input_def ser_CTxIn_def SerializeScriptCode_def ser_bytes_def ser_int32_def
      sig_index_ok_def sig_nInputs_def)

lemma SerializeOutput_eq:
  assumes "sig_index_ok txTo nIn nHashType" "nOutput < sig_nOutputs txTo nIn nHashType"
  shows "SerializeOutput txTo nIn nHashType nOutput = Some (ser_CTxOut (sig_output nIn nHashType txTo nOutput))"
  using assms by (auto simp: SerializeOutput_def sig_output_def sig_nOutputs_def sig_index_ok_def split: if_splits)

lemma sig_Serialize_eq:
  assumes ok: "sig_index_ok txTo nIn nHashType"
  shows "sig_Serialize txTo scriptCode nIn nHashType = Some (ser_CTransaction (sighash_tx scriptCode txTo nIn nHashType))"
proof -
  let ?in = "\<lambda>i. ser_CTxIn (sig_input scriptCode nIn nHashType txTo (if fAnyoneCanPay nHashType then nIn else i))"
  let ?out = "\<lambda>i. ser_CTxOut (sig_output nIn nHashType txTo i)"
  have "ser_each (SerializeInput txTo scriptCode nIn nHashType) [0..<sig_nInputs txTo nHashType] =
      Some (concat (map ?in [0..<sig_nInputs txTo nHashType]))"
    by (rule ser_each_Some) (simp add: SerializeInput_eq ok)
  moreover have "ser_each (SerializeOutput txTo nIn nHashType) [0..<sig_nOutputs txTo nIn nHashType] =
      Some (concat (map ?out [0..<sig_nOutputs txTo nIn nHashType]))"
    by (rule ser_each_Some) (simp add: SerializeOutput_eq ok)
  moreover have "ser_vector ser_CTxIn (vin (sighash_tx scriptCode txTo nIn nHashType)) =
      WriteCompactSize (of_nat (sig_nInputs txTo nHashType)) @ concat (map ?in [0..<sig_nInputs txTo nHashType])"
    by (simp add: sighash_tx_def ser_vector_def sig_nInputs_def comp_def)
  moreover have "ser_vector ser_CTxOut (vout (sighash_tx scriptCode txTo nIn nHashType)) =
      WriteCompactSize (of_nat (sig_nOutputs txTo nIn nHashType)) @ concat (map ?out [0..<sig_nOutputs txTo nIn nHashType])"
    by (simp add: sighash_tx_def ser_vector_def comp_def)
  ultimately show ?thesis
    by (simp add: sig_Serialize_def ser_CTransaction_def sig_joinsplits_def) (simp add: sighash_tx_def)
qed

lemma sighash_message_eq:
  assumes "sig_index_ok txTo nIn nHashType"
  shows "sighash_message scriptCode txTo nIn nHashType forkid =
    Ok (ser_CTransaction (sighash_tx scriptCode txTo nIn nHashType) @ ser_writedata32 (nForkHashType nHashType forkid))"
  using assms sig_Serialize_eq [OF assms] by (auto simp: sighash_message_def sig_index_ok_def)

lemma sighash_message_OkD:
  assumes "sighash_message scriptCode txTo nIn nHashType forkid = Ok m" "length (vin txTo) \<le> MAX_SIZE"
    "nIn < length (vin txTo) \<or> \<not> fAnyoneCanPay nHashType"
  shows "sig_index_ok txTo nIn nHashType"
  using assms by (auto simp: sighash_message_def sig_index_ok_def split: if_splits)

section \<open>What a signature commits to\<close>

lemma sighash_tx_ok:
  assumes "CTransaction_ok null_tx txTo" "sig_index_ok txTo nIn nHashType" "length scriptCode \<le> MAX_SIZE"
  shows "CTransaction_ok null_tx (sighash_tx scriptCode txTo nIn nHashType)"
proof -
  have "list_all CTxIn_ok (vin (sighash_tx scriptCode txTo nIn nHashType))"
    using assms(3) by (auto simp: sighash_tx_def list_all_iff CTxIn_ok_def sig_input_def)
  moreover have "CTxOut_ok (sig_output nIn nHashType txTo i)" if "i < sig_nOutputs txTo nIn nHashType" for i
    using that assms(1,2)
    by (auto simp: sig_output_def sig_nOutputs_def CTxOut_ok_def CTxOut_SetNull_def in_int64_def sig_index_ok_def
        CTransaction_ok_def list_all_length split: if_splits)
  then have "list_all CTxOut_ok (vout (sighash_tx scriptCode txTo nIn nHashType))"
    by (auto simp: sighash_tx_def list_all_iff)
  moreover have "length (vout (sighash_tx scriptCode txTo nIn nHashType)) \<le> MAX_SIZE"
    using assms(1,2) by (auto simp: sighash_tx_def sig_nOutputs_def sig_index_ok_def CTransaction_ok_def)
  ultimately show ?thesis
    using assms(1,2) by (auto simp: CTransaction_ok_def sighash_tx_def sig_index_ok_def null_tx_def)
qed

lemma sighash_message_inject:
  assumes "CTransaction_ok null_tx tx" "sig_index_ok tx nIn ht" "length sc \<le> MAX_SIZE"
    and "CTransaction_ok null_tx tx'" "sig_index_ok tx' nIn' ht'" "length sc' \<le> MAX_SIZE"
    and "sighash_message sc tx nIn ht fid = sighash_message sc' tx' nIn' ht' fid'"
  shows "sighash_tx sc tx nIn ht = sighash_tx sc' tx' nIn' ht' \<and> nForkHashType ht fid = nForkHashType ht' fid'"
proof -
  have eq: "ser_CTransaction (sighash_tx sc tx nIn ht) @ ser_writedata32 (nForkHashType ht fid) =
      ser_CTransaction (sighash_tx sc' tx' nIn' ht') @ ser_writedata32 (nForkHashType ht' fid')"
    using assms(7) by (simp add: sighash_message_eq assms(2,5))
  from tx.prefix_free [OF sighash_tx_ok [OF assms(1-3)] sighash_tx_ok [OF assms(4-6)] eq]
  have "sighash_tx sc tx nIn ht = sighash_tx sc' tx' nIn' ht'"
    and "ser_writedata32 (nForkHashType ht fid) @ [] = ser_writedata32 (nForkHashType ht' fid') @ []" by simp_all
  with u32.prefix_free [OF TrueI TrueI this(2)] show ?thesis by simp
qed

definition commits_all :: "uint32 \<Rightarrow> bool" where
  "commits_all nHashType \<longleftrightarrow> \<not> fAnyoneCanPay nHashType \<and> \<not> fHashSingle nHashType \<and> \<not> fHashNone nHashType"

lemma sighash_tx_all:
  assumes "commits_all nHashType"
  shows "vout (sighash_tx sc tx nIn nHashType) = vout tx"
    "map prevout (vin (sighash_tx sc tx nIn nHashType)) = map prevout (vin tx)"
    "map nSequence (vin (sighash_tx sc tx nIn nHashType)) = map nSequence (vin tx)"
    "map scriptSig (vin (sighash_tx sc tx nIn nHashType)) = map (\<lambda>i. if i = nIn then sc else []) [0..<length (vin tx)]"
  using assms
  by (auto intro!: nth_equalityI simp: sighash_tx_def commits_all_def sig_nOutputs_def sig_output_def sig_input_def)

lemma sighash_tx_other:
  "nVersion (sighash_tx sc tx nIn ht) = nVersion tx" "nLockTime (sighash_tx sc tx nIn ht) = nLockTime tx"
  "vjoinsplit (sighash_tx sc tx nIn ht) = vjoinsplit tx" "joinSplitPubKey (sighash_tx sc tx nIn ht) = joinSplitPubKey tx"
  by (simp_all add: sighash_tx_def)

lemma script_at_inject:
  assumes "map (\<lambda>i. if i = m then (x :: 'a list) else []) [0..<k] = map (\<lambda>i. if i = n then y else []) [0..<k]"
    "x \<noteq> []" "m < k"
  shows "m = n \<and> x = y"
proof -
  have "map (\<lambda>i. if i = m then x else []) [0..<k] ! m = map (\<lambda>i. if i = n then y else []) [0..<k] ! m"
    using assms(1) by (simp only:)
  with assms(2,3) show ?thesis by (auto split: if_splits)
qed

section \<open>Fork identifiers\<close>

lemma drop_bit_fork:
  assumes "forkid < 2 ^ 24"
  shows "drop_bit 8 (nForkHashType (ucast (ht :: byte)) forkid) =
    (if UsesForkId_type (ucast ht) then forkid else 0)"
proof -
  have b: "drop_bit 8 (ucast ht :: uint32) = 0"
    by (rule bit_eqI) (auto simp: bit_drop_bit_eq bit_unsigned_iff dest: bit_imp_le_length)
  have "unat forkid < 2 ^ 24" using assms by (simp add: word_less_nat_alt)
  then have "unat (push_bit 8 forkid) = 256 * unat forkid" by (subst unat_push_bit) simp_all
  then have "drop_bit 8 (push_bit 8 forkid) = forkid"
    by (simp add: word_unat_eq_iff drop_bit_eq_div unat_div)
  with b show ?thesis by (simp add: nForkHashType_def drop_bit_or)
qed

lemma sighash_trailer:
  assumes "sighash_message sc tx nIn ht fid = Ok m"
  shows "\<exists>txTmp. m = txTmp @ ser_writedata32 (nForkHashType ht fid)"
  using assms by (auto simp: sighash_message_def split: if_splits option.splits)

lemma ser_writedata32_trailer: "x @ ser_writedata32 a = y @ ser_writedata32 b \<Longrightarrow> a = b"
  using u32.prefix_free [where x = a and y = b and s = "[]" and t = "[]"] by (simp add: ser_writedata32_def append_eq_append_conv)

section \<open>Standard and mandatory flags\<close>

lemma tx_CheckSig_flags:
  assumes "has_flag flags SCRIPT_VERIFY_FORKID \<longleftrightarrow> has_flag flags' SCRIPT_VERIFY_FORKID"
  shows "tx_CheckSig env ecdsa_verify tx nIn sig key sc flags = tx_CheckSig env ecdsa_verify tx nIn sig key sc flags'"
  by (simp add: tx_CheckSig_def assms)

interpretation std: verify_restriction "TransactionSignatureChecker env ecdsa_verify tx nIn"
    MANDATORY_SCRIPT_VERIFY_FLAGS STANDARD_SCRIPT_VERIFY_FLAGS for env ecdsa_verify tx nIn
proof
  show "demands MANDATORY_SCRIPT_VERIFY_FLAGS STANDARD_SCRIPT_VERIFY_FLAGS"
    by (simp add: demands_def has_flag_def)
  show "CheckSig (TransactionSignatureChecker env ecdsa_verify tx nIn) sig key sc MANDATORY_SCRIPT_VERIFY_FLAGS =
      CheckSig (TransactionSignatureChecker env ecdsa_verify tx nIn) sig key sc STANDARD_SCRIPT_VERIFY_FLAGS" for sig key sc
    unfolding TransactionSignatureChecker_def sig_checker.select_convs
    by (rule tx_CheckSig_flags) (simp add: has_flag_def)
qed (simp_all add: has_flag_def)

section \<open>Properties\<close>

text \<open>
  C11: the signature serializer, which never copies the transaction, hashes exactly the bytes of the edited
  copy that the old signature hash builds, for every hash type and every input in range.
\<close>

theorem sighash_matches_reference:
  assumes "nIn < length (vin txTo)" and "length (vin txTo) \<le> MAX_SIZE"
    and "fHashSingle nHashType \<longrightarrow> nIn < length (vout txTo)"
  shows "sighash_message scriptCode txTo nIn nHashType FORKID_NONE =
    Ok (ser_CTransaction (SignatureHashOld_tx scriptCode txTo nIn nHashType) @ ser_writedata32 nHashType)"
proof -
  have "sig_index_ok txTo nIn nHashType" using assms by (simp add: sig_index_ok_def)
  then show ?thesis
    using assms SignatureHashOld_tx_eq [of nIn txTo nHashType scriptCode]
    by (simp add: sighash_message_eq nForkHashType_def)
qed

definition sample_tx :: CTransaction where
  "sample_tx = null_tx\<lparr>
     vin := [\<lparr> prevout = COutPoint 7 1, scriptSig = [0x51], nSequence = 5 \<rparr>,
             \<lparr> prevout = COutPoint 9 0, scriptSig = [], nSequence = 6 \<rparr>],
     vout := [\<lparr> nValue = 3, scriptPubKey = [0x52] \<rparr>] \<rparr>"

theorem sighash_matches_reference_witness:
  "sighash_message [0xac] sample_tx 0 SIGHASH_SINGLE FORKID_NONE =
     Ok (ser_CTransaction (SignatureHashOld_tx [0xac] sample_tx 0 SIGHASH_SINGLE) @ ser_writedata32 SIGHASH_SINGLE)"
  using sighash_matches_reference [of 0 sample_tx SIGHASH_SINGLE "[0xac]"] by (simp add: sample_tx_def)

text \<open>
  C12: a signature of type ALL commits to everything but the scripts of the inputs and the JoinSplit
  signature. Two transactions off the wire with the same signed bytes agree on version, outpoints,
  sequence numbers, outputs, lock time, JoinSplits and their key, and on the script and the position
  that is signed.
\<close>

theorem sighash_all_commits:
  assumes "CTransaction_ok null_tx tx" and "nIn < length (vin tx)" and "length sc \<le> MAX_SIZE" and "sc \<noteq> []"
    and "CTransaction_ok null_tx tx'" and "nIn' < length (vin tx')" and "length sc' \<le> MAX_SIZE"
    and "commits_all ht" and "commits_all ht'"
    and "sighash_message sc tx nIn ht fid = sighash_message sc' tx' nIn' ht' fid'"
  shows "nVersion tx = nVersion tx' \<and> map prevout (vin tx) = map prevout (vin tx') \<and>
    map nSequence (vin tx) = map nSequence (vin tx') \<and> vout tx = vout tx' \<and> nLockTime tx = nLockTime tx' \<and>
    vjoinsplit tx = vjoinsplit tx' \<and> joinSplitPubKey tx = joinSplitPubKey tx' \<and> nIn = nIn' \<and> sc = sc'"
proof -
  have "sig_index_ok tx nIn ht" "sig_index_ok tx' nIn' ht'"
    using assms by (auto simp: sig_index_ok_def CTransaction_ok_def commits_all_def)
  then have eq: "sighash_tx sc tx nIn ht = sighash_tx sc' tx' nIn' ht'"
    using sighash_message_inject assms by blast
  note all = sighash_tx_all [OF assms(8), of sc tx nIn] sighash_tx_all [OF assms(9), of sc' tx' nIn']
  have p: "map prevout (vin tx) = map prevout (vin tx')" using all(2,6) eq by simp
  from map_eq_imp_length_eq [OF this] have l: "length (vin tx) = length (vin tx')" .
  have "nIn = nIn' \<and> sc = sc'"
    using script_at_inject [of nIn sc "length (vin tx)" nIn' sc'] all(4,8) eq l assms(2,4) by simp
  then show ?thesis
    using p all(1,3,5,7) sighash_tx_other [of sc tx nIn ht] sighash_tx_other [of sc' tx' nIn' ht'] eq by simp
qed

theorem sighash_all_commits_witness:
  "sighash_message [0xac] sample_tx 0 SIGHASH_ALL 0 \<noteq> sighash_message [0xac] (sample_tx\<lparr> nLockTime := 1 \<rparr>) 0 SIGHASH_ALL 0"
proof
  assume "sighash_message [0xac] sample_tx 0 SIGHASH_ALL 0 = sighash_message [0xac] (sample_tx\<lparr> nLockTime := 1 \<rparr>) 0 SIGHASH_ALL 0"
  moreover have "CTransaction_ok null_tx sample_tx" "CTransaction_ok null_tx (sample_tx\<lparr> nLockTime := 1 \<rparr>)"
    "0 < length (vin sample_tx)" "commits_all SIGHASH_ALL"
    by (simp_all add: CTransaction_ok_def sample_tx_def null_tx_def in_int32_def CTxIn_ok_def CTxOut_ok_def
        in_int64_def commits_all_def fAnyoneCanPay_def fHashSingle_def fHashNone_def)
  ultimately have "nLockTime sample_tx = nLockTime (sample_tx\<lparr> nLockTime := 1 \<rparr>)"
    using sighash_all_commits [of sample_tx 0 "[0xac]" "sample_tx\<lparr> nLockTime := 1 \<rparr>" 0 "[0xac]" SIGHASH_ALL SIGHASH_ALL 0 0]
    by simp
  then show False by (simp add: sample_tx_def null_tx_def)
qed

text \<open>
  C13: signatures cannot be replayed across forks. The bytes signed under this chain's fork identifier for a
  hash type with the fork bit differ from the bytes signed anywhere under another identifier, whatever the
  transaction, script and one-byte hash type.
\<close>

theorem sighash_replay_protected:
  assumes "sighash_message sc tx nIn (ucast (ht :: byte)) FORKID_IN_USE = Ok m" and "UsesForkId_type (ucast ht)"
    and "sighash_message sc' tx' nIn' (ucast (ht' :: byte)) forkid = Ok m'"
    and "forkid < 2 ^ 24" and "forkid \<noteq> FORKID_IN_USE"
  shows "m \<noteq> m'"
proof
  assume "m = m'"
  with sighash_trailer [OF assms(1)] sighash_trailer [OF assms(3)]
  have "nForkHashType (ucast ht) FORKID_IN_USE = nForkHashType (ucast ht') forkid"
    using ser_writedata32_trailer by metis
  then have "drop_bit 8 (nForkHashType (ucast ht) FORKID_IN_USE) = drop_bit 8 (nForkHashType (ucast ht') forkid)"
    by simp
  then show False
    using assms(2,4,5) drop_bit_fork [of FORKID_IN_USE ht] drop_bit_fork [of forkid ht'] by (simp split: if_splits)
qed

theorem sighash_replay_protected_witness:
  "sighash_message [0xac] sample_tx 0 0x41 FORKID_IN_USE \<noteq> sighash_message [0xac] sample_tx 0 0x41 FORKID_BTCGPU"
proof -
  have ok: "sig_index_ok sample_tx 0 0x41"
    by (simp add: sig_index_ok_def sample_tx_def fHashSingle_def)
  show ?thesis
    using sighash_replay_protected [where sc = "[0xac]" and tx = sample_tx and nIn = 0 and ht = "0x41" and sc' = "[0xac]" and
        tx' = sample_tx and nIn' = 0 and ht' = "0x41" and forkid = FORKID_BTCGPU]
    by (auto simp: sighash_message_eq [OF ok] UsesForkId_type_def)
qed

text \<open>
  Policy is stricter than consensus. An input that passes script verification under the standard flags
  passes under the mandatory flags, so a transaction relayed under the standard rules does not fail the
  script rules of a block.
\<close>

theorem standard_implies_mandatory:
  assumes "VerifyScript env (TransactionSignatureChecker env ecdsa_verify tx nIn) STANDARD_SCRIPT_VERIFY_FLAGS sig pk = Ok ()"
  shows "VerifyScript env (TransactionSignatureChecker env ecdsa_verify tx nIn) MANDATORY_SCRIPT_VERIFY_FLAGS sig pk = Ok ()"
  using assms by (rule std.VerifyScript_mono)

theorem standard_implies_mandatory_witness:
  "VerifyScript sample_env (TransactionSignatureChecker sample_env (\<lambda>_ _ _. False) sample_tx 0)
     MANDATORY_SCRIPT_VERIFY_FLAGS [] [0x51] = Ok ()"
  by (rule standard_implies_mandatory) code_simp

end
