(* ===== verification/Hashes.thy ===== *)
theory Hashes
  imports Prelude
begin

unbundle bit_operations_syntax

text \<open>
  The hash functions of \<^verbatim>\<open>src/src/crypto\<close> and \<^verbatim>\<open>src/src/hash.cpp\<close>. The unrolled rounds of a
  \<^verbatim>\<open>Transform\<close> are a fold over the line number: line \<open>i\<close> names the registers rotated by \<open>i\<close> and
  overwrites word \<open>i mod 16\<close> of the message schedule in place, as the source lines do. The four classes
  share one buffering scheme, \<open>hasher_Write\<close>. The contents of a fresh buffer are arbitrary and an argument of
  the constructors. \<open>Hash_Correctness\<close> relates the definitions to the standards.
\<close>

section \<open>Byte order\<close>

definition be_nat :: "valtype \<Rightarrow> nat" where
  "be_nat bs = le_nat (rev bs)"

definition ReadBE32 :: "valtype \<Rightarrow> uint32" where
  "ReadBE32 ptr = word_of_nat (be_nat (take 4 ptr))"

definition ReadBE64 :: "valtype \<Rightarrow> uint64" where
  "ReadBE64 ptr = word_of_nat (be_nat (take 8 ptr))"

definition ReadLE32 :: "valtype \<Rightarrow> uint32" where
  "ReadLE32 ptr = word_of_nat (le_nat (take 4 ptr))"

definition WriteBE32 :: "uint32 \<Rightarrow> valtype" where
  "WriteBE32 x = rev (le_bytes 4 (unat x))"

definition WriteBE64 :: "uint64 \<Rightarrow> valtype" where
  "WriteBE64 x = rev (le_bytes 8 (unat x))"

definition WriteLE32 :: "uint32 \<Rightarrow> valtype" where
  "WriteLE32 x = le_bytes 4 (unat x)"

definition WriteLE64 :: "uint64 \<Rightarrow> valtype" where
  "WriteLE64 x = le_bytes 8 (unat x)"

section \<open>SHA-256 and SHA-512\<close>

definition Ch :: "'a :: len word \<Rightarrow> 'a word \<Rightarrow> 'a word \<Rightarrow> 'a word" where
  "Ch x y z = z XOR (x AND (y XOR z))"

definition Maj :: "'a :: len word \<Rightarrow> 'a word \<Rightarrow> 'a word \<Rightarrow> 'a word" where
  "Maj x y z = (x AND y) OR (z AND (x OR y))"

definition sha256_Sigma0 :: "uint32 \<Rightarrow> uint32" where
  "sha256_Sigma0 x = (drop_bit 2 x OR push_bit 30 x) XOR (drop_bit 13 x OR push_bit 19 x) XOR (drop_bit 22 x OR push_bit 10 x)"

definition sha256_Sigma1 :: "uint32 \<Rightarrow> uint32" where
  "sha256_Sigma1 x = (drop_bit 6 x OR push_bit 26 x) XOR (drop_bit 11 x OR push_bit 21 x) XOR (drop_bit 25 x OR push_bit 7 x)"

definition sha256_sigma0 :: "uint32 \<Rightarrow> uint32" where
  "sha256_sigma0 x = (drop_bit 7 x OR push_bit 25 x) XOR (drop_bit 18 x OR push_bit 14 x) XOR drop_bit 3 x"

definition sha256_sigma1 :: "uint32 \<Rightarrow> uint32" where
  "sha256_sigma1 x = (drop_bit 17 x OR push_bit 15 x) XOR (drop_bit 19 x OR push_bit 13 x) XOR drop_bit 10 x"

definition sha512_Sigma0 :: "uint64 \<Rightarrow> uint64" where
  "sha512_Sigma0 x = (drop_bit 28 x OR push_bit 36 x) XOR (drop_bit 34 x OR push_bit 30 x) XOR (drop_bit 39 x OR push_bit 25 x)"

definition sha512_Sigma1 :: "uint64 \<Rightarrow> uint64" where
  "sha512_Sigma1 x = (drop_bit 14 x OR push_bit 50 x) XOR (drop_bit 18 x OR push_bit 46 x) XOR (drop_bit 41 x OR push_bit 23 x)"

definition sha512_sigma0 :: "uint64 \<Rightarrow> uint64" where
  "sha512_sigma0 x = (drop_bit 1 x OR push_bit 63 x) XOR (drop_bit 8 x OR push_bit 56 x) XOR drop_bit 7 x"

definition sha512_sigma1 :: "uint64 \<Rightarrow> uint64" where
  "sha512_sigma1 x = (drop_bit 19 x OR push_bit 45 x) XOR (drop_bit 61 x OR push_bit 3 x) XOR drop_bit 6 x"

text \<open>\<^verbatim>\<open>Round\<close>, which updates its parameters \<^verbatim>\<open>d\<close> and \<^verbatim>\<open>h\<close>.\<close>

definition sha2_Round ::
  "('a :: len word \<Rightarrow> 'a word) \<Rightarrow> ('a word \<Rightarrow> 'a word) \<Rightarrow>
   'a word \<Rightarrow> 'a word \<Rightarrow> 'a word \<Rightarrow> 'a word \<Rightarrow> 'a word \<Rightarrow> 'a word \<Rightarrow> 'a word \<Rightarrow> 'a word \<Rightarrow> 'a word \<Rightarrow> 'a word \<Rightarrow>
   'a word \<times> 'a word" where
  "sha2_Round Sigma0 Sigma1 a b c d e f g h k w =
     (let t1 = h + Sigma1 e + Ch e f g + k + w;
          t2 = Sigma0 a + Maj a b c in
      (d + t1, t1 + t2))"

text \<open>Register \<open>j\<close> of line \<open>i\<close>, of \<open>n\<close> registers.\<close>

definition reg :: "nat \<Rightarrow> nat \<Rightarrow> nat \<Rightarrow> nat" where
  "reg n i j = (j + (n - i mod n)) mod n"

definition sha2_word ::
  "('a :: len word \<Rightarrow> 'a word) \<Rightarrow> ('a word \<Rightarrow> 'a word) \<Rightarrow> (nat \<Rightarrow> 'a word) \<Rightarrow> nat \<Rightarrow> nat \<Rightarrow> 'a word list \<Rightarrow> 'a word" where
  "sha2_word sigma0 sigma1 rd i j w =
     (if i < 16 then rd i
      else w ! j + (sigma1 (w ! ((j + 14) mod 16)) + w ! ((j + 9) mod 16) + sigma0 (w ! ((j + 1) mod 16))))"

definition sha2_line ::
  "('a :: len word \<Rightarrow> 'a word) \<Rightarrow> ('a word \<Rightarrow> 'a word) \<Rightarrow> ('a word \<Rightarrow> 'a word) \<Rightarrow> ('a word \<Rightarrow> 'a word) \<Rightarrow>
   ('a word \<times> nat) list \<Rightarrow> (nat \<Rightarrow> 'a word) \<Rightarrow> 'a word list \<times> 'a word list \<Rightarrow> nat \<Rightarrow> 'a word list \<times> 'a word list" where
  "sha2_line Sigma0 Sigma1 sigma0 sigma1 K rd st i =
     (let (s, w) = st;
          (k, j) = K ! i;
          wj = sha2_word sigma0 sigma1 rd i j w;
          x = (\<lambda>n. s ! reg 8 i n);
          (d', h') = sha2_Round Sigma0 Sigma1 (x 0) (x 1) (x 2) (x 3) (x 4) (x 5) (x 6) (x 7) k wj in
      (s[reg 8 i 3 := d', reg 8 i 7 := h'], w[j := wj]))"

text \<open>The constant and the schedule word of every line.\<close>

definition sha256_K :: "(uint32 \<times> nat) list" where
  "sha256_K =
    [(0x428a2f98, 0), (0x71374491, 1), (0xb5c0fbcf, 2), (0xe9b5dba5, 3), (0x3956c25b, 4),
     (0x59f111f1, 5), (0x923f82a4, 6), (0xab1c5ed5, 7), (0xd807aa98, 8), (0x12835b01, 9),
     (0x243185be, 10), (0x550c7dc3, 11), (0x72be5d74, 12), (0x80deb1fe, 13), (0x9bdc06a7, 14),
     (0xc19bf174, 15), (0xe49b69c1, 0), (0xefbe4786, 1), (0x0fc19dc6, 2), (0x240ca1cc, 3),
     (0x2de92c6f, 4), (0x4a7484aa, 5), (0x5cb0a9dc, 6), (0x76f988da, 7), (0x983e5152, 8),
     (0xa831c66d, 9), (0xb00327c8, 10), (0xbf597fc7, 11), (0xc6e00bf3, 12), (0xd5a79147, 13),
     (0x06ca6351, 14), (0x14292967, 15), (0x27b70a85, 0), (0x2e1b2138, 1), (0x4d2c6dfc, 2),
     (0x53380d13, 3), (0x650a7354, 4), (0x766a0abb, 5), (0x81c2c92e, 6), (0x92722c85, 7),
     (0xa2bfe8a1, 8), (0xa81a664b, 9), (0xc24b8b70, 10), (0xc76c51a3, 11), (0xd192e819, 12),
     (0xd6990624, 13), (0xf40e3585, 14), (0x106aa070, 15), (0x19a4c116, 0), (0x1e376c08, 1),
     (0x2748774c, 2), (0x34b0bcb5, 3), (0x391c0cb3, 4), (0x4ed8aa4a, 5), (0x5b9cca4f, 6),
     (0x682e6ff3, 7), (0x748f82ee, 8), (0x78a5636f, 9), (0x84c87814, 10), (0x8cc70208, 11),
     (0x90befffa, 12), (0xa4506ceb, 13), (0xbef9a3f7, 14), (0xc67178f2, 15)]"

definition sha512_K :: "(uint64 \<times> nat) list" where
  "sha512_K =
    [(0x428a2f98d728ae22, 0), (0x7137449123ef65cd, 1), (0xb5c0fbcfec4d3b2f, 2), (0xe9b5dba58189dbbc, 3),
     (0x3956c25bf348b538, 4), (0x59f111f1b605d019, 5), (0x923f82a4af194f9b, 6), (0xab1c5ed5da6d8118, 7),
     (0xd807aa98a3030242, 8), (0x12835b0145706fbe, 9), (0x243185be4ee4b28c, 10), (0x550c7dc3d5ffb4e2, 11),
     (0x72be5d74f27b896f, 12), (0x80deb1fe3b1696b1, 13), (0x9bdc06a725c71235, 14), (0xc19bf174cf692694, 15),
     (0xe49b69c19ef14ad2, 0), (0xefbe4786384f25e3, 1), (0x0fc19dc68b8cd5b5, 2), (0x240ca1cc77ac9c65, 3),
     (0x2de92c6f592b0275, 4), (0x4a7484aa6ea6e483, 5), (0x5cb0a9dcbd41fbd4, 6), (0x76f988da831153b5, 7),
     (0x983e5152ee66dfab, 8), (0xa831c66d2db43210, 9), (0xb00327c898fb213f, 10), (0xbf597fc7beef0ee4, 11),
     (0xc6e00bf33da88fc2, 12), (0xd5a79147930aa725, 13), (0x06ca6351e003826f, 14), (0x142929670a0e6e70, 15),
     (0x27b70a8546d22ffc, 0), (0x2e1b21385c26c926, 1), (0x4d2c6dfc5ac42aed, 2), (0x53380d139d95b3df, 3),
     (0x650a73548baf63de, 4), (0x766a0abb3c77b2a8, 5), (0x81c2c92e47edaee6, 6), (0x92722c851482353b, 7),
     (0xa2bfe8a14cf10364, 8), (0xa81a664bbc423001, 9), (0xc24b8b70d0f89791, 10), (0xc76c51a30654be30, 11),
     (0xd192e819d6ef5218, 12), (0xd69906245565a910, 13), (0xf40e35855771202a, 14), (0x106aa07032bbd1b8, 15),
     (0x19a4c116b8d2d0c8, 0), (0x1e376c085141ab53, 1), (0x2748774cdf8eeb99, 2), (0x34b0bcb5e19b48a8, 3),
     (0x391c0cb3c5c95a63, 4), (0x4ed8aa4ae3418acb, 5), (0x5b9cca4f7763e373, 6), (0x682e6ff3d6b2b8a3, 7),
     (0x748f82ee5defb2fc, 8), (0x78a5636f43172f60, 9), (0x84c87814a1f0ab72, 10), (0x8cc702081a6439ec, 11),
     (0x90befffa23631e28, 12), (0xa4506cebde82bde9, 13), (0xbef9a3f7b2c67915, 14), (0xc67178f2e372532b, 15),
     (0xca273eceea26619c, 0), (0xd186b8c721c0c207, 1), (0xeada7dd6cde0eb1e, 2), (0xf57d4f7fee6ed178, 3),
     (0x06f067aa72176fba, 4), (0x0a637dc5a2c898a6, 5), (0x113f9804bef90dae, 6), (0x1b710b35131c471b, 7),
     (0x28db77f523047d84, 8), (0x32caab7b40c72493, 9), (0x3c9ebe0a15c9bebc, 10), (0x431d67c49c100d4c, 11),
     (0x4cc5d4becb3e42b6, 12), (0x597f299cfc657e2a, 13), (0x5fcb6fab3ad6faec, 14), (0x6c44198c4a475817, 15)]"

definition sha256_Initialize :: "uint32 list" where
  "sha256_Initialize =
    [0x6a09e667, 0xbb67ae85, 0x3c6ef372, 0xa54ff53a, 0x510e527f, 0x9b05688c, 0x1f83d9ab, 0x5be0cd19]"

definition sha512_Initialize :: "uint64 list" where
  "sha512_Initialize =
    [0x6a09e667f3bcc908, 0xbb67ae8584caa73b, 0x3c6ef372fe94f82b, 0xa54ff53a5f1d36f1,
     0x510e527fade682d1, 0x9b05688c2b3e6c1f, 0x1f83d9abfb41bd6b, 0x5be0cd19137e2179]"

definition sha256_Transform :: "uint32 list \<Rightarrow> valtype \<Rightarrow> uint32 list" where
  "sha256_Transform s chunk =
     (let (r, w) = foldl (sha2_line sha256_Sigma0 sha256_Sigma1 sha256_sigma0 sha256_sigma1 sha256_K
            (\<lambda>i. ReadBE32 (drop (4 * i) chunk))) (s, replicate 16 0) [0..<64] in
      map2 (+) s r)"

definition sha512_Transform :: "uint64 list \<Rightarrow> valtype \<Rightarrow> uint64 list" where
  "sha512_Transform s chunk =
     (let (r, w) = foldl (sha2_line sha512_Sigma0 sha512_Sigma1 sha512_sigma0 sha512_sigma1 sha512_K
            (\<lambda>i. ReadBE64 (drop (8 * i) chunk))) (s, replicate 16 0) [0..<80] in
      map2 (+) s r)"

section \<open>SHA-1\<close>

definition sha1_f1 :: "uint32 \<Rightarrow> uint32 \<Rightarrow> uint32 \<Rightarrow> uint32" where
  "sha1_f1 b c d = d XOR (b AND (c XOR d))"

definition sha1_f2 :: "uint32 \<Rightarrow> uint32 \<Rightarrow> uint32 \<Rightarrow> uint32" where
  "sha1_f2 b c d = b XOR c XOR d"

definition sha1_f3 :: "uint32 \<Rightarrow> uint32 \<Rightarrow> uint32 \<Rightarrow> uint32" where
  "sha1_f3 b c d = (b AND c) OR (d AND (b OR c))"

definition sha1_left :: "uint32 \<Rightarrow> uint32" where
  "sha1_left x = push_bit 1 x OR drop_bit 31 x"

definition sha1_f :: "nat \<Rightarrow> uint32 \<Rightarrow> uint32 \<Rightarrow> uint32 \<Rightarrow> uint32" where
  "sha1_f i = (if i < 20 then sha1_f1 else if i < 40 then sha1_f2 else if i < 60 then sha1_f3 else sha1_f2)"

definition sha1_k :: "nat \<Rightarrow> uint32" where
  "sha1_k i = (if i < 20 then 0x5A827999 else if i < 40 then 0x6ED9EBA1 else if i < 60 then 0x8F1BBCDC else 0xCA62C1D6)"

text \<open>\<^verbatim>\<open>Round\<close>, which updates its parameters \<^verbatim>\<open>b\<close> and \<^verbatim>\<open>e\<close>.\<close>

definition sha1_Round ::
  "uint32 \<Rightarrow> uint32 \<Rightarrow> uint32 \<Rightarrow> uint32 \<Rightarrow> uint32 \<Rightarrow> uint32 \<Rightarrow> uint32 \<Rightarrow> uint32 \<Rightarrow> uint32 \<times> uint32" where
  "sha1_Round a b c d e f k w =
     (push_bit 30 b OR drop_bit 2 b, e + ((push_bit 5 a OR drop_bit 27 a) + f + k + w))"

definition sha1_word :: "(nat \<Rightarrow> uint32) \<Rightarrow> nat \<Rightarrow> uint32 list \<Rightarrow> uint32" where
  "sha1_word rd i w =
     (if i < 16 then rd i
      else sha1_left (w ! (i mod 16) XOR w ! ((i + 13) mod 16) XOR w ! ((i + 8) mod 16) XOR w ! ((i + 2) mod 16)))"

definition sha1_line ::
  "(nat \<Rightarrow> uint32) \<Rightarrow> uint32 list \<times> uint32 list \<Rightarrow> nat \<Rightarrow> uint32 list \<times> uint32 list" where
  "sha1_line rd st i =
     (let (s, w) = st;
          wi = sha1_word rd i w;
          x = (\<lambda>j. s ! reg 5 i j);
          (b', e') = sha1_Round (x 0) (x 1) (x 2) (x 3) (x 4) (sha1_f i (x 1) (x 2) (x 3)) (sha1_k i) wi in
      (s[reg 5 i 1 := b', reg 5 i 4 := e'], w[i mod 16 := wi]))"

definition sha1_Initialize :: "uint32 list" where
  "sha1_Initialize = [0x67452301, 0xEFCDAB89, 0x98BADCFE, 0x10325476, 0xC3D2E1F0]"

definition sha1_Transform :: "uint32 list \<Rightarrow> valtype \<Rightarrow> uint32 list" where
  "sha1_Transform s chunk =
     (let (r, w) = foldl (sha1_line (\<lambda>i. ReadBE32 (drop (4 * i) chunk))) (s, replicate 16 0) [0..<80] in
      map2 (+) s r)"

section \<open>RIPEMD-160\<close>

definition rmd_f1 :: "uint32 \<Rightarrow> uint32 \<Rightarrow> uint32 \<Rightarrow> uint32" where
  "rmd_f1 x y z = x XOR y XOR z"

definition rmd_f2 :: "uint32 \<Rightarrow> uint32 \<Rightarrow> uint32 \<Rightarrow> uint32" where
  "rmd_f2 x y z = (x AND y) OR (NOT x AND z)"

definition rmd_f3 :: "uint32 \<Rightarrow> uint32 \<Rightarrow> uint32 \<Rightarrow> uint32" where
  "rmd_f3 x y z = (x OR NOT y) XOR z"

definition rmd_f4 :: "uint32 \<Rightarrow> uint32 \<Rightarrow> uint32 \<Rightarrow> uint32" where
  "rmd_f4 x y z = (x AND z) OR (y AND NOT z)"

definition rmd_f5 :: "uint32 \<Rightarrow> uint32 \<Rightarrow> uint32 \<Rightarrow> uint32" where
  "rmd_f5 x y z = x XOR (y OR NOT z)"

definition rol :: "uint32 \<Rightarrow> nat \<Rightarrow> uint32" where
  "rol x i = push_bit i x OR drop_bit (32 - i) x"

text \<open>\<^verbatim>\<open>Round\<close>, which updates its parameters \<^verbatim>\<open>a\<close> and \<^verbatim>\<open>c\<close>.\<close>

definition rmd_Round ::
  "uint32 \<Rightarrow> uint32 \<Rightarrow> uint32 \<Rightarrow> uint32 \<Rightarrow> uint32 \<Rightarrow> uint32 \<Rightarrow> uint32 \<Rightarrow> uint32 \<Rightarrow> nat \<Rightarrow> uint32 \<times> uint32" where
  "rmd_Round a b c d e f x k r = (rol (a + f + x + k) r + e, rol c 10)"

text \<open>The functions and constants of \<^verbatim>\<open>R11\<close> to \<^verbatim>\<open>R51\<close> and of \<^verbatim>\<open>R12\<close> to \<^verbatim>\<open>R52\<close>.\<close>

definition rmd_left :: "nat \<Rightarrow> (uint32 \<Rightarrow> uint32 \<Rightarrow> uint32 \<Rightarrow> uint32) \<times> uint32" where
  "rmd_left i = [(rmd_f1, 0), (rmd_f2, 0x5A827999), (rmd_f3, 0x6ED9EBA1), (rmd_f4, 0x8F1BBCDC), (rmd_f5, 0xA953FD4E)] ! (i div 16)"

definition rmd_right :: "nat \<Rightarrow> (uint32 \<Rightarrow> uint32 \<Rightarrow> uint32 \<Rightarrow> uint32) \<times> uint32" where
  "rmd_right i = [(rmd_f5, 0x50A28BE6), (rmd_f4, 0x5C4DD124), (rmd_f3, 0x6D703EF3), (rmd_f2, 0x7A6D76E9), (rmd_f1, 0)] ! (i div 16)"

text \<open>The word and the shift of every line, of the left and of the right half.\<close>

definition rmd_w1 :: "nat list" where
  "rmd_w1 =
    [0, 1, 2, 3, 4, 5, 6, 7, 8, 9, 10, 11, 12, 13, 14, 15, 7, 4, 13, 1, 10, 6, 15, 3, 12, 0, 9, 5, 2, 14,
     11, 8, 3, 10, 14, 4, 9, 15, 8, 1, 2, 7, 0, 6, 13, 11, 5, 12, 1, 9, 11, 10, 0, 8, 12, 4, 13, 3, 7,
     15, 14, 5, 6, 2, 4, 0, 5, 9, 7, 12, 2, 10, 14, 1, 3, 8, 11, 6, 15, 13]"

definition rmd_s1 :: "nat list" where
  "rmd_s1 =
    [11, 14, 15, 12, 5, 8, 7, 9, 11, 13, 14, 15, 6, 7, 9, 8, 7, 6, 8, 13, 11, 9, 7, 15, 7, 12, 15, 9, 11,
     7, 13, 12, 11, 13, 6, 7, 14, 9, 13, 15, 14, 8, 13, 6, 5, 12, 7, 5, 11, 12, 14, 15, 14, 15, 9, 8, 9,
     14, 5, 6, 8, 6, 5, 12, 9, 15, 5, 11, 6, 8, 13, 12, 5, 12, 13, 14, 11, 8, 5, 6]"

definition rmd_w2 :: "nat list" where
  "rmd_w2 =
    [5, 14, 7, 0, 9, 2, 11, 4, 13, 6, 15, 8, 1, 10, 3, 12, 6, 11, 3, 7, 0, 13, 5, 10, 14, 15, 8, 12, 4,
     9, 1, 2, 15, 5, 1, 3, 7, 14, 6, 9, 11, 8, 12, 2, 10, 0, 4, 13, 8, 6, 4, 1, 3, 11, 15, 0, 5, 12, 2,
     13, 9, 7, 10, 14, 12, 15, 10, 4, 1, 5, 8, 7, 6, 2, 13, 14, 0, 3, 9, 11]"

definition rmd_s2 :: "nat list" where
  "rmd_s2 =
    [8, 9, 9, 11, 13, 15, 15, 5, 7, 7, 8, 11, 14, 14, 12, 6, 9, 13, 15, 7, 12, 8, 9, 11, 7, 7, 12, 7, 6,
     15, 13, 11, 9, 7, 15, 11, 8, 6, 6, 14, 12, 13, 5, 14, 13, 13, 7, 5, 15, 5, 8, 11, 14, 14, 6, 14, 6,
     9, 12, 9, 12, 5, 15, 8, 8, 5, 12, 9, 12, 5, 14, 6, 8, 13, 6, 5, 15, 13, 11, 11]"

definition rmd_half ::
  "(nat \<Rightarrow> (uint32 \<Rightarrow> uint32 \<Rightarrow> uint32 \<Rightarrow> uint32) \<times> uint32) \<Rightarrow> nat list \<Rightarrow> nat list \<Rightarrow> uint32 list \<Rightarrow>
   uint32 list \<Rightarrow> nat \<Rightarrow> uint32 list" where
  "rmd_half fk ws rs w s i =
     (let (f, k) = fk i;
          x = (\<lambda>j. s ! reg 5 i j);
          (a', c') = rmd_Round (x 0) (x 1) (x 2) (x 3) (x 4) (f (x 1) (x 2) (x 3)) (w ! (ws ! i)) k (rs ! i) in
      s[reg 5 i 0 := a', reg 5 i 2 := c'])"

definition rmd_line :: "uint32 list \<Rightarrow> uint32 list \<times> uint32 list \<Rightarrow> nat \<Rightarrow> uint32 list \<times> uint32 list" where
  "rmd_line w st i = (rmd_half rmd_left rmd_w1 rmd_s1 w (fst st) i, rmd_half rmd_right rmd_w2 rmd_s2 w (snd st) i)"

definition ripemd160_Initialize :: "uint32 list" where
  "ripemd160_Initialize = [0x67452301, 0xEFCDAB89, 0x98BADCFE, 0x10325476, 0xC3D2E1F0]"

definition rmd_add :: "uint32 list \<Rightarrow> uint32 list \<Rightarrow> uint32 list \<Rightarrow> uint32 list" where
  "rmd_add s r1 r2 =
     [s ! 1 + r1 ! 2 + r2 ! 3, s ! 2 + r1 ! 3 + r2 ! 4, s ! 3 + r1 ! 4 + r2 ! 0, s ! 4 + r1 ! 0 + r2 ! 1,
      s ! 0 + r1 ! 1 + r2 ! 2]"

definition ripemd160_Transform :: "uint32 list \<Rightarrow> valtype \<Rightarrow> uint32 list" where
  "ripemd160_Transform s chunk =
     (let w = map (\<lambda>i. ReadLE32 (drop (4 * i) chunk)) [0..<16];
          (r1, r2) = foldl (rmd_line w) (s, s) [0..<80] in
      rmd_add s r1 r2)"

section \<open>Buffering\<close>

record 's hasher =
  hash_s :: 's
  hash_buf :: valtype
  hash_bytes :: uint64

definition memcpy :: "valtype \<Rightarrow> nat \<Rightarrow> valtype \<Rightarrow> valtype" where
  "memcpy buf pos data = take pos buf @ data @ drop (pos + length data) buf"

text \<open>The loop over full chunks; \<open>B\<close> is the block size and never zero.\<close>

function hasher_chunks :: "nat \<Rightarrow> ('s \<Rightarrow> valtype \<Rightarrow> 's) \<Rightarrow> 's \<Rightarrow> uint64 \<Rightarrow> valtype \<Rightarrow> 's \<times> uint64 \<times> valtype" where
  "hasher_chunks B T s bytes data =
     (if B = 0 \<or> length data < B then (s, bytes, data)
      else hasher_chunks B T (T s (take B data)) (bytes + of_nat B) (drop B data))"
  by pat_completeness auto
termination
  by (relation "measure (\<lambda>(B, T, s, bytes, data). length data)") auto

declare hasher_chunks.simps [simp del]

definition hasher_Write :: "nat \<Rightarrow> ('s \<Rightarrow> valtype \<Rightarrow> 's) \<Rightarrow> 's hasher \<Rightarrow> valtype \<Rightarrow> 's hasher" where
  "hasher_Write B T this data =
     (let bufsize = unat (hash_bytes this) mod B;
          fill = bufsize \<noteq> 0 \<and> bufsize + length data \<ge> B;
          n = B - bufsize;
          buf1 = (if fill then memcpy (hash_buf this) bufsize (take n data) else hash_buf this);
          s1 = (if fill then T (hash_s this) buf1 else hash_s this);
          bytes1 = (if fill then hash_bytes this + of_nat n else hash_bytes this);
          data1 = (if fill then drop n data else data);
          bufsize1 = (if fill then 0 else bufsize);
          (s2, bytes2, data2) = hasher_chunks B T s1 bytes1 data1 in
      if length data2 > 0
      then \<lparr> hash_s = s2, hash_buf = memcpy buf1 bufsize1 data2, hash_bytes = bytes2 + of_nat (length data2) \<rparr>
      else \<lparr> hash_s = s2, hash_buf = buf1, hash_bytes = bytes2 \<rparr>)"

text \<open>The padding of \<^verbatim>\<open>Finalize\<close>: \<open>L\<close> bytes are reserved for the length, \<open>enc\<close> writes it.\<close>

definition hasher_pad :: "nat \<Rightarrow> nat \<Rightarrow> uint64 \<Rightarrow> valtype" where
  "hasher_pad B L bytes = 0x80 # replicate ((2 * B - L - 1 - unat bytes mod B) mod B) 0"

definition hasher_Finalize ::
  "nat \<Rightarrow> nat \<Rightarrow> (uint64 \<Rightarrow> valtype) \<Rightarrow> ('s \<Rightarrow> valtype \<Rightarrow> 's) \<Rightarrow> 's hasher \<Rightarrow> 's" where
  "hasher_Finalize B L enc T this =
     (let sizedesc = enc (push_bit 3 (hash_bytes this));
          this1 = hasher_Write B T this (hasher_pad B L (hash_bytes this)) in
      hash_s (hasher_Write B T this1 sizedesc))"

definition CSHA256 :: "valtype \<Rightarrow> uint32 list hasher" where
  "CSHA256 buf = \<lparr> hash_s = sha256_Initialize, hash_buf = buf, hash_bytes = 0 \<rparr>"

definition CSHA256_Write :: "uint32 list hasher \<Rightarrow> valtype \<Rightarrow> uint32 list hasher" where
  "CSHA256_Write = hasher_Write 64 sha256_Transform"

definition CSHA256_output :: "uint32 list \<Rightarrow> valtype" where
  "CSHA256_output s = concat (map WriteBE32 s)"

definition CSHA256_FinalizeNoPadding :: "bool \<Rightarrow> uint32 list hasher \<Rightarrow> (unit, valtype) outcome" where
  "CSHA256_FinalizeNoPadding enforce_compression this =
     (if enforce_compression \<and> hash_bytes this \<noteq> 64 then Throw else Ok (CSHA256_output (hash_s this)))"

definition CSHA256_Finalize :: "uint32 list hasher \<Rightarrow> valtype" where
  "CSHA256_Finalize this = CSHA256_output (hasher_Finalize 64 8 WriteBE64 sha256_Transform this)"

definition CSHA256_Reset :: "uint32 list hasher \<Rightarrow> uint32 list hasher" where
  "CSHA256_Reset this = this\<lparr> hash_bytes := 0, hash_s := sha256_Initialize \<rparr>"

definition CSHA1 :: "valtype \<Rightarrow> uint32 list hasher" where
  "CSHA1 buf = \<lparr> hash_s = sha1_Initialize, hash_buf = buf, hash_bytes = 0 \<rparr>"

definition CSHA1_Write :: "uint32 list hasher \<Rightarrow> valtype \<Rightarrow> uint32 list hasher" where
  "CSHA1_Write = hasher_Write 64 sha1_Transform"

definition CSHA1_Finalize :: "uint32 list hasher \<Rightarrow> valtype" where
  "CSHA1_Finalize this = concat (map WriteBE32 (hasher_Finalize 64 8 WriteBE64 sha1_Transform this))"

definition CSHA1_Reset :: "uint32 list hasher \<Rightarrow> uint32 list hasher" where
  "CSHA1_Reset this = this\<lparr> hash_bytes := 0, hash_s := sha1_Initialize \<rparr>"

definition CRIPEMD160 :: "valtype \<Rightarrow> uint32 list hasher" where
  "CRIPEMD160 buf = \<lparr> hash_s = ripemd160_Initialize, hash_buf = buf, hash_bytes = 0 \<rparr>"

definition CRIPEMD160_Write :: "uint32 list hasher \<Rightarrow> valtype \<Rightarrow> uint32 list hasher" where
  "CRIPEMD160_Write = hasher_Write 64 ripemd160_Transform"

definition CRIPEMD160_Finalize :: "uint32 list hasher \<Rightarrow> valtype" where
  "CRIPEMD160_Finalize this = concat (map WriteLE32 (hasher_Finalize 64 8 WriteLE64 ripemd160_Transform this))"

definition CRIPEMD160_Reset :: "uint32 list hasher \<Rightarrow> uint32 list hasher" where
  "CRIPEMD160_Reset this = this\<lparr> hash_bytes := 0, hash_s := ripemd160_Initialize \<rparr>"

definition CSHA512 :: "valtype \<Rightarrow> uint64 list hasher" where
  "CSHA512 buf = \<lparr> hash_s = sha512_Initialize, hash_buf = buf, hash_bytes = 0 \<rparr>"

definition CSHA512_Write :: "uint64 list hasher \<Rightarrow> valtype \<Rightarrow> uint64 list hasher" where
  "CSHA512_Write = hasher_Write 128 sha512_Transform"

definition CSHA512_Finalize :: "uint64 list hasher \<Rightarrow> valtype" where
  "CSHA512_Finalize this =
     concat (map WriteBE64 (hasher_Finalize 128 16 (\<lambda>n. replicate 8 0 @ WriteBE64 n) sha512_Transform this))"

definition CSHA512_Reset :: "uint64 list hasher \<Rightarrow> uint64 list hasher" where
  "CSHA512_Reset this = this\<lparr> hash_bytes := 0, hash_s := sha512_Initialize \<rparr>"

section \<open>Keyed hashes\<close>

record 's hmac =
  hmac_outer :: "'s hasher"
  hmac_inner :: "'s hasher"

definition hmac_rkey :: "nat \<Rightarrow> (valtype \<Rightarrow> valtype) \<Rightarrow> valtype \<Rightarrow> valtype" where
  "hmac_rkey B H key =
     (if length key \<le> B then key @ replicate (B - length key) 0
      else H key @ replicate (B - length (H key)) 0)"

text \<open>\<open>g1\<close>, \<open>g2\<close> and \<open>g3\<close> are the uninitialised buffers of the three hashers.\<close>

definition CHMAC_SHA256 :: "valtype \<Rightarrow> valtype \<Rightarrow> valtype \<Rightarrow> valtype \<Rightarrow> uint32 list hmac" where
  "CHMAC_SHA256 g1 g2 g3 key =
     (let rkey = hmac_rkey 64 (\<lambda>k. CSHA256_Finalize (CSHA256_Write (CSHA256 g1) k)) key;
          rkey1 = map (\<lambda>b. b XOR 0x5c) rkey;
          rkey2 = map (\<lambda>b. b XOR (0x5c XOR 0x36)) rkey1 in
      \<lparr> hmac_outer = CSHA256_Write (CSHA256 g2) rkey1, hmac_inner = CSHA256_Write (CSHA256 g3) rkey2 \<rparr>)"

definition CHMAC_SHA256_Write :: "uint32 list hmac \<Rightarrow> valtype \<Rightarrow> uint32 list hmac" where
  "CHMAC_SHA256_Write this data = this\<lparr> hmac_inner := CSHA256_Write (hmac_inner this) data \<rparr>"

definition CHMAC_SHA256_Finalize :: "uint32 list hmac \<Rightarrow> valtype" where
  "CHMAC_SHA256_Finalize this =
     CSHA256_Finalize (CSHA256_Write (hmac_outer this) (CSHA256_Finalize (hmac_inner this)))"

definition CHMAC_SHA512 :: "valtype \<Rightarrow> valtype \<Rightarrow> valtype \<Rightarrow> valtype \<Rightarrow> uint64 list hmac" where
  "CHMAC_SHA512 g1 g2 g3 key =
     (let rkey = hmac_rkey 128 (\<lambda>k. CSHA512_Finalize (CSHA512_Write (CSHA512 g1) k)) key;
          rkey1 = map (\<lambda>b. b XOR 0x5c) rkey;
          rkey2 = map (\<lambda>b. b XOR (0x5c XOR 0x36)) rkey1 in
      \<lparr> hmac_outer = CSHA512_Write (CSHA512 g2) rkey1, hmac_inner = CSHA512_Write (CSHA512 g3) rkey2 \<rparr>)"

definition CHMAC_SHA512_Write :: "uint64 list hmac \<Rightarrow> valtype \<Rightarrow> uint64 list hmac" where
  "CHMAC_SHA512_Write this data = this\<lparr> hmac_inner := CSHA512_Write (hmac_inner this) data \<rparr>"

definition CHMAC_SHA512_Finalize :: "uint64 list hmac \<Rightarrow> valtype" where
  "CHMAC_SHA512_Finalize this =
     CSHA512_Finalize (CSHA512_Write (hmac_outer this) (CSHA512_Finalize (hmac_inner this)))"

definition BIP32Hash ::
  "valtype \<Rightarrow> valtype \<Rightarrow> valtype \<Rightarrow> valtype \<Rightarrow> uint32 \<Rightarrow> byte \<Rightarrow> valtype \<Rightarrow> valtype" where
  "BIP32Hash g1 g2 g3 chainCode nChild header data =
     (let num = [ucast (drop_bit 24 nChild AND 0xFF), ucast (drop_bit 16 nChild AND 0xFF),
                 ucast (drop_bit 8 nChild AND 0xFF), ucast (drop_bit 0 nChild AND 0xFF)] in
      CHMAC_SHA512_Finalize (CHMAC_SHA512_Write (CHMAC_SHA512_Write (CHMAC_SHA512_Write
        (CHMAC_SHA512 g1 g2 g3 chainCode) [header]) data) num))"

section \<open>MurmurHash3\<close>

definition ROTL32 :: "uint32 \<Rightarrow> nat \<Rightarrow> uint32" where
  "ROTL32 x r = push_bit r x OR drop_bit (32 - r) x"

definition murmur_mix :: "uint32 \<Rightarrow> uint32" where
  "murmur_mix k1 = ROTL32 (k1 * 0xcc9e2d51) 15 * 0x1b873593"

definition murmur_block :: "valtype \<Rightarrow> uint32 \<Rightarrow> nat \<Rightarrow> uint32" where
  "murmur_block data h1 i = ROTL32 (h1 XOR murmur_mix (ReadLE32 (drop (4 * i) data))) 13 * 5 + 0xe6546b64"

definition murmur_tail :: "valtype \<Rightarrow> uint32 \<Rightarrow> uint32" where
  "murmur_tail tail h1 =
     (if tail = [] then h1
      else
        let k3 = (if length tail \<ge> 3 then push_bit 16 (ucast (tail ! 2)) else 0);
            k2 = (if length tail \<ge> 2 then k3 XOR push_bit 8 (ucast (tail ! 1)) else k3) in
        h1 XOR murmur_mix (k2 XOR ucast (tail ! 0)))"

definition murmur_final :: "uint32 \<Rightarrow> uint32" where
  "murmur_final h0 =
     (let h1 = h0 XOR drop_bit 16 h0;
          h2 = h1 * 0x85ebca6b;
          h3 = h2 XOR drop_bit 13 h2;
          h4 = h3 * 0xc2b2ae35 in
      h4 XOR drop_bit 16 h4)"

definition MurmurHash3 :: "uint32 \<Rightarrow> valtype \<Rightarrow> uint32" where
  "MurmurHash3 nHashSeed vDataToHash =
     (let nblocks = length vDataToHash div 4;
          h1 = foldl (murmur_block vDataToHash) nHashSeed [0..<nblocks];
          h2 = (if length vDataToHash > 0 then murmur_tail (drop (nblocks * 4) vDataToHash) h1 else nHashSeed) in
      murmur_final (h2 XOR of_nat (length vDataToHash)))"

end
