(* ===== verification/Hash_Correctness.thy ===== *)
theory Hash_Correctness
  imports Hashes
begin

unbundle bit_operations_syntax

text \<open>
  The hashers of \<open>Hashes\<close> compute the standard functions. The reference definitions move the registers where
  the code rotates their names, and have the whole message schedule where the code keeps sixteen words in a
  ring. The locale \<open>block_hash\<close> is the contract of the buffering: any sequence of writes absorbs the
  concatenation of what is written.
\<close>

section \<open>Block-wise hashing\<close>

text \<open>The reference: every full block of the message in turn.\<close>

function md_fold :: "nat \<Rightarrow> ('s \<Rightarrow> valtype \<Rightarrow> 's) \<Rightarrow> 's \<Rightarrow> valtype \<Rightarrow> 's" where
  "md_fold B T s m = (if B = 0 \<or> length m < B then s else md_fold B T (T s (take B m)) (drop B m))"
  by pat_completeness auto
termination
  by (relation "measure (\<lambda>(B, T, s, m). length m)") auto

declare md_fold.simps [simp del]

definition md_hash :: "nat \<Rightarrow> nat \<Rightarrow> (uint64 \<Rightarrow> valtype) \<Rightarrow> ('s \<Rightarrow> valtype \<Rightarrow> 's) \<Rightarrow> 's \<Rightarrow> valtype \<Rightarrow> 's" where
  "md_hash B L enc T s m =
     md_fold B T s (m @ hasher_pad B L (of_nat (length m)) @ enc (push_bit 3 (of_nat (length m))))"

text \<open>A hasher that has absorbed the message \<open>m\<close>.\<close>

definition absorbed :: "nat \<Rightarrow> ('s \<Rightarrow> valtype \<Rightarrow> 's) \<Rightarrow> 's \<Rightarrow> 's hasher \<Rightarrow> valtype \<Rightarrow> bool" where
  "absorbed B T s h m \<longleftrightarrow>
     length (hash_buf h) = B \<and> hash_bytes h = of_nat (length m) \<and> hash_s h = md_fold B T s m \<and>
     take (length m mod B) (hash_buf h) = drop (length m - length m mod B) m"

lemma md_fold_short: "length m < B \<Longrightarrow> md_fold B T s m = s"
  by (subst md_fold.simps) simp

lemma md_fold_append: "B dvd length m \<Longrightarrow> md_fold B T s (m @ x) = md_fold B T (md_fold B T s m) x"
proof (induction B T s m rule: md_fold.induct)
  case (1 B T s m)
  show ?case
  proof (cases "B = 0 \<or> length m < B")
    case True
    with 1(2) have "m = [] \<or> B = 0" by (auto dest: nat_dvd_not_less)
    then show ?thesis
      by (auto simp: md_fold.simps [of 0] md_fold.simps [of B T s "[]"])
  next
    case False
    then have "B dvd length (drop B m)" using 1(2) by simp
    with 1(1) False show ?thesis
      by (simp add: md_fold.simps [of B T s "m @ x"] md_fold.simps [of B T s m])
  qed
qed

lemma md_fold_whole: "md_fold B T s m = md_fold B T s (take (length m - length m mod B) m)"
proof (cases "B = 0")
  case True
  then show ?thesis by (simp add: md_fold.simps [of 0])
next
  case False
  let ?n = "length m - length m mod B"
  have "B dvd length (take ?n m)" by (simp add: min.absorb2 minus_mod_eq_mult_div)
  then have "md_fold B T s (take ?n m @ drop ?n m) = md_fold B T (md_fold B T s (take ?n m)) (drop ?n m)"
    by (rule md_fold_append)
  moreover have "length (drop ?n m) < B" using False by simp
  ultimately show ?thesis by (simp add: md_fold_short)
qed

lemma hasher_chunks_eq:
  "0 < B \<Longrightarrow> hasher_chunks B T s bytes data =
     (md_fold B T s data, bytes + of_nat (length data - length data mod B), drop (length data - length data mod B) data)"
proof (induction B T s bytes data rule: hasher_chunks.induct)
  case (1 B T s bytes data)
  show ?case
  proof (cases "length data < B")
    case True
    then show ?thesis by (simp add: hasher_chunks.simps [of B T s bytes data] md_fold_short)
  next
    case False
    let ?d = "drop B data"
    from False have l: "length data = B + length ?d" by simp
    have m: "length data mod B = length ?d mod B" by (subst l) simp
    have le: "length ?d mod B \<le> length ?d" by simp
    have "length data - length data mod B = B + (length ?d - length ?d mod B)"
      unfolding m using l le by linarith
    then show ?thesis
      using 1(1) [OF _ \<open>0 < B\<close>] False \<open>0 < B\<close>
      by (subst hasher_chunks.simps, subst md_fold.simps) (simp add: add.assoc add.commute)
  qed
qed

lemma memcpy_full: "length buf = B \<Longrightarrow> k + length d = B \<Longrightarrow> memcpy buf k d = take k buf @ d"
  by (simp add: memcpy_def)

lemma length_memcpy: "k + length d \<le> length buf \<Longrightarrow> length (memcpy buf k d) = length buf"
  by (simp add: memcpy_def)

lemma take_memcpy: "k + length d \<le> length buf \<Longrightarrow> take (k + length d) (memcpy buf k d) = take k buf @ d"
  by (simp add: memcpy_def)

locale block_hash =
  fixes B :: nat and T :: "'s \<Rightarrow> valtype \<Rightarrow> 's"
  assumes B_pos: "0 < B" and B_dvd: "B dvd 2 ^ 64"
begin

lemma bytes_mod: "unat (of_nat n :: uint64) mod B = n mod B"
  using B_dvd by (simp add: unat_of_nat mod_mod_cancel)

text \<open>The last two steps of a write: from a whole number of blocks on.\<close>

lemma tail_absorbed:
  assumes p: "B dvd length p" and buf: "length buf = B" and bytes: "bytes = of_nat (length p)"
    and s: "s1 = md_fold B T s p"
    and out: "hasher_chunks B T s1 bytes d = (s2, bytes2, d2)"
  shows "absorbed B T s (if length d2 > 0
      then \<lparr> hash_s = s2, hash_buf = memcpy buf 0 d2, hash_bytes = bytes2 + of_nat (length d2) \<rparr>
      else \<lparr> hash_s = s2, hash_buf = buf, hash_bytes = bytes2 \<rparr>) (p @ d)"
proof -
  define k where "k = length d - length d mod B"
  from out have o: "s2 = md_fold B T s1 d" "bytes2 = bytes + of_nat k" "d2 = drop k d"
    by (simp_all add: hasher_chunks_eq B_pos k_def)
  have len2: "length d2 = length d mod B" by (simp add: o(3) k_def)
  then have small: "length d2 < B" using B_pos by simp
  have mod: "length (p @ d) mod B = length d2" using p by (auto simp: len2 elim!: dvdE)
  have b: "bytes2 + of_nat (length d2) = of_nat (length (p @ d))"
    unfolding o(2) len2 bytes by (simp add: k_def flip: of_nat_add)
  have "length (p @ d) - length d2 = length p + k"
    using mod_less_eq_dividend [of "length d" B] by (simp add: len2 k_def)
  then have d2: "drop (length (p @ d) - length d2) (p @ d) = d2" by (simp only: o(3)) simp
  have "s2 = md_fold B T s (p @ d)" unfolding o(1) s using p by (simp add: md_fold_append)
  with b d2 mod small buf show ?thesis
    by (auto simp: absorbed_def length_memcpy take_memcpy [of 0, simplified])
qed

lemma Write_absorbed:
  assumes "absorbed B T s h m"
  shows "absorbed B T s (hasher_Write B T h d) (m @ d)"
proof -
  let ?k = "length m mod B"
  let ?p = "take (length m - ?k) m" and ?t = "drop (length m - ?k) m"
  from assms have h: "length (hash_buf h) = B" "hash_bytes h = of_nat (length m)" "hash_s h = md_fold B T s m"
    "take ?k (hash_buf h) = ?t" by (simp_all add: absorbed_def)
  have k: "unat (hash_bytes h) mod B = ?k" using h(2) bytes_mod by simp
  have kB: "?k < B" using B_pos by simp
  have t: "length ?t = ?k" by simp
  show ?thesis
  proof (cases "?k = 0")
    case True
    then have "B dvd length m" by (simp add: dvd_eq_mod_eq_0)
    obtain s2 bytes2 d2 where c: "hasher_chunks B T (hash_s h) (hash_bytes h) d = (s2, bytes2, d2)"
      by (cases "hasher_chunks B T (hash_s h) (hash_bytes h) d") auto
    show ?thesis
      using tail_absorbed [OF \<open>B dvd length m\<close> h(1,2,3) c] c True k
      by (simp add: hasher_Write_def Let_def split: if_splits)
  next
    case False
    show ?thesis
    proof (cases "B \<le> ?k + length d")
      case True
      let ?n = "B - ?k"
      let ?buf = "memcpy (hash_buf h) ?k (take ?n d)"
      have n: "length (take ?n d) = ?n" using True by simp
      have buf: "?buf = ?t @ take ?n d" using memcpy_full [OF h(1), of ?k "take ?n d"] h(4) n kB by simp
      have dvd: "B dvd length ?p" by (simp add: minus_mod_eq_mult_div)
      have lb: "length ?buf = B" unfolding buf using n t kB by simp
      have s1: "T (hash_s h) ?buf = md_fold B T s (?p @ ?buf)"
        unfolding md_fold_append [OF dvd] h(3) md_fold_whole [of B T s m]
        using lb B_pos by (subst md_fold.simps) (simp add: md_fold_short)
      have dvd2: "B dvd length (?p @ ?buf)" unfolding length_append lb by (rule dvd_add [OF dvd dvd_refl])
      have "length m + ?n = length (?p @ ?buf)"
        unfolding length_append lb using kB mod_less_eq_dividend [of "length m" B] by simp
      then have by1: "hash_bytes h + of_nat ?n = of_nat (length (?p @ ?buf))"
        unfolding h(2) by (simp only: flip: of_nat_add)
      obtain s2 bytes2 d2 where c: "hasher_chunks B T (T (hash_s h) ?buf) (hash_bytes h + of_nat ?n) (drop ?n d) = (s2, bytes2, d2)"
        by (cases "hasher_chunks B T (T (hash_s h) ?buf) (hash_bytes h + of_nat ?n) (drop ?n d)") auto
      have e: "(?p @ ?buf) @ drop ?n d = m @ d"
        unfolding buf append_assoc append_take_drop_id by (simp only: append_take_drop_id flip: append_assoc)
      show ?thesis
        using tail_absorbed [OF dvd2 lb by1 s1 c] c True False k unfolding e
        by (simp add: hasher_Write_def Let_def split: if_splits)
    next
      case fits: False
      then have "length d < B" by simp
      then have c: "hasher_chunks B T (hash_s h) (hash_bytes h) d = (hash_s h, hash_bytes h, d)"
        by (subst hasher_chunks.simps) simp
      have mod: "length (m @ d) mod B = ?k + length d"
        using fits by (simp add: mod_add_left_eq [symmetric, of "length m"])
      have whole: "take (length (m @ d) - length (m @ d) mod B) (m @ d) = ?p"
        unfolding mod using mod_less_eq_dividend [of "length m" B] by simp
      have s: "md_fold B T s (m @ d) = md_fold B T s m"
        unfolding md_fold_whole [of B T s "m @ d"] whole md_fold_whole [of B T s m] ..
      have tl: "drop (length (m @ d) - length (m @ d) mod B) (m @ d) = ?t @ d"
        unfolding mod using mod_less_eq_dividend [of "length m" B] by simp
      show ?thesis
        unfolding absorbed_def tl unfolding mod s
        using c False fits k h take_memcpy [of ?k d "hash_buf h"]
        by (cases "d = []") (simp_all add: hasher_Write_def Let_def length_memcpy)
    qed
  qed
qed

lemma init_absorbed: "length buf = B \<Longrightarrow> absorbed B T s \<lparr> hash_s = s, hash_buf = buf, hash_bytes = 0 \<rparr> []"
  using B_pos by (simp add: absorbed_def md_fold_short)

lemma Writes_absorbed:
  "absorbed B T s h m \<Longrightarrow> absorbed B T s (foldl (hasher_Write B T) h parts) (m @ concat parts)"
  by (induction parts arbitrary: h m) (simp_all add: Write_absorbed flip: append_assoc)

lemma Finalize_absorbed: "absorbed B T s h m \<Longrightarrow> hasher_Finalize B L enc T h = md_hash B L enc T s m"
  using Write_absorbed [OF Write_absorbed, of s h m]
  by (simp add: hasher_Finalize_def md_hash_def Let_def absorbed_def)

lemma stream:
  "length buf = B \<Longrightarrow>
   hasher_Finalize B L enc T (foldl (hasher_Write B T) \<lparr> hash_s = s, hash_buf = buf, hash_bytes = 0 \<rparr> parts) =
   md_hash B L enc T s (concat parts)"
  using Finalize_absorbed [OF Writes_absorbed [OF init_absorbed]] by simp

text \<open>The padded message is a whole number of blocks.\<close>

lemma padded_length:
  assumes "L < B" "\<And>n. length (enc n) = L"
  shows "B dvd length (m @ hasher_pad B L (of_nat (length m)) @ enc (push_bit 3 (of_nat (length m))))"
proof -
  let ?r = "length m mod B"
  have r: "?r < B" "?r \<le> length m" using B_pos by simp_all
  have "(length m + 1 + L + (2 * B - L - 1 - ?r) mod B) mod B = (length m + 1 + L + (2 * B - L - 1 - ?r)) mod B"
    by (rule mod_add_right_eq)
  also have "length m + 1 + L + (2 * B - L - 1 - ?r) = (length m - ?r) + 2 * B" using assms(1) r by linarith
  also have "\<dots> mod B = 0" by (simp add: minus_mod_eq_mult_div)
  finally have "B dvd length m + 1 + L + (2 * B - L - 1 - ?r) mod B" by (simp only: dvd_eq_mod_eq_0)
  moreover have "length (m @ hasher_pad B L (of_nat (length m)) @ enc (push_bit 3 (of_nat (length m)))) =
      length m + 1 + L + (2 * B - L - 1 - ?r) mod B"
    unfolding hasher_pad_def bytes_mod by (simp add: assms(2))
  ultimately show ?thesis by (simp only:)
qed

end

section \<open>Reference round functions\<close>

definition Ch_ref :: "'a :: len word \<Rightarrow> 'a word \<Rightarrow> 'a word \<Rightarrow> 'a word" where
  "Ch_ref x y z = (x AND y) XOR (NOT x AND z)"

definition Maj_ref :: "'a :: len word \<Rightarrow> 'a word \<Rightarrow> 'a word \<Rightarrow> 'a word" where
  "Maj_ref x y z = (x AND y) XOR (x AND z) XOR (y AND z)"

lemma Ch_eq: "Ch x y z = Ch_ref x y z"
  unfolding Ch_def Ch_ref_def by (rule bit_eqI) (auto simp: bit_xor_iff bit_and_iff bit_not_iff)

lemma Maj_eq: "Maj x y z = Maj_ref x y z"
  unfolding Maj_def Maj_ref_def by (rule bit_eqI) (auto simp: bit_xor_iff bit_and_iff bit_or_iff)

lemma rotr_eq: "0 < n \<Longrightarrow> n < LENGTH('a) \<Longrightarrow> drop_bit n x OR push_bit (LENGTH('a) - n) x = word_rotr n (x :: 'a :: len word)"
  by (rule bit_eqI)
    (auto simp: bit_or_iff bit_drop_bit_eq bit_push_bit_iff bit_word_rotr_iff mod_if add.commute [of n] dest: bit_imp_le_length)

lemma rotl_eq: "0 < n \<Longrightarrow> n < LENGTH('a) \<Longrightarrow> push_bit n x OR drop_bit (LENGTH('a) - n) x = word_rotl n (x :: 'a :: len word)"
  by (rule bit_eqI)
    (auto simp: bit_or_iff bit_drop_bit_eq bit_push_bit_iff bit_word_rotl_iff mod_if add.commute [of _ "LENGTH('a)"] dest: bit_imp_le_length)

text \<open>Line \<open>i\<close> sees the registers rotated by \<open>i\<close>.\<close>

definition regs :: "nat \<Rightarrow> nat \<Rightarrow> 'a list \<Rightarrow> 'a list" where
  "regs n i s = map (\<lambda>j. s ! reg n i j) [0..<n]"

lemma list_8_cases: "length s = 8 \<Longrightarrow> \<exists>a b c d e f g h. s = [a, b, c, d, e, f, g, h]"
  by (auto simp: length_Suc_conv eval_nat_numeral)

lemma list_5_cases: "length s = 5 \<Longrightarrow> \<exists>a b c d e. s = [a, b, c, d, e]"
  by (auto simp: length_Suc_conv eval_nat_numeral)

lemma reg_cases:
  assumes "0 < n"
  obtains r where "r < n" "\<And>j. reg n i j = (j + (n - r)) mod n" "\<And>j. reg n (Suc i) j = (j + (n - Suc r mod n)) mod n"
  using assms by (intro that [of "i mod n"]) (simp_all add: reg_def mod_Suc_eq)

lemma less_8_cases: "(r :: nat) < 8 \<Longrightarrow> r = 0 \<or> r = 1 \<or> r = 2 \<or> r = 3 \<or> r = 4 \<or> r = 5 \<or> r = 6 \<or> r = 7"
  by linarith

lemma less_5_cases: "(r :: nat) < 5 \<Longrightarrow> r = 0 \<or> r = 1 \<or> r = 2 \<or> r = 3 \<or> r = 4"
  by linarith

definition sha2_step ::
  "('a :: len word \<Rightarrow> 'a word) \<Rightarrow> ('a word \<Rightarrow> 'a word) \<Rightarrow> 'a word list \<Rightarrow> 'a word \<Rightarrow> 'a word \<Rightarrow> 'a word list" where
  "sha2_step Sigma0 Sigma1 v k w =
     (let t1 = v ! 7 + Sigma1 (v ! 4) + Ch_ref (v ! 4) (v ! 5) (v ! 6) + k + w;
          t2 = Sigma0 (v ! 0) + Maj_ref (v ! 0) (v ! 1) (v ! 2) in
      [t1 + t2, v ! 0, v ! 1, v ! 2, v ! 3 + t1, v ! 4, v ! 5, v ! 6])"

lemma upt_8: "[0..<8] = [0, 1, 2, 3, 4, 5, 6, 7 :: nat]"
  by (simp add: upt_rec)

lemma upt_5: "[0..<5] = [0, 1, 2, 3, 4 :: nat]"
  by (simp add: upt_rec)

lemma sha2_line_regs:
  assumes "length s = 8"
  shows "regs 8 (Suc i) (fst (sha2_line S0 S1 s0 s1 K rd (s, w) i)) =
    sha2_step S0 S1 (regs 8 i s) (fst (K ! i)) (sha2_word s0 s1 rd i (snd (K ! i)) w)"
proof -
  obtain a b c d e f g h where s: "s = [a, b, c, d, e, f, g, h]" using list_8_cases [OF assms] by blast
  obtain r where r: "r < 8" "\<And>j. reg 8 i j = (j + (8 - r)) mod 8" "\<And>j. reg 8 (Suc i) j = (j + (8 - Suc r mod 8)) mod 8"
    using reg_cases [of 8 i] by auto
  from less_8_cases [OF r(1)] show ?thesis
    unfolding s regs_def upt_8 sha2_line_def sha2_step_def sha2_Round_def r(2,3) Let_def Ch_eq Maj_eq
    by (elim disjE) (simp_all split: prod.split)
qed

section \<open>Message schedules\<close>

fun sha2_W :: "('a :: len word \<Rightarrow> 'a word) \<Rightarrow> ('a word \<Rightarrow> 'a word) \<Rightarrow> (nat \<Rightarrow> 'a word) \<Rightarrow> nat \<Rightarrow> 'a word" where
  "sha2_W sigma0 sigma1 rd t =
     (if t < 16 then rd t
      else sigma1 (sha2_W sigma0 sigma1 rd (t - 2)) + sha2_W sigma0 sigma1 rd (t - 7) +
        sigma0 (sha2_W sigma0 sigma1 rd (t - 15)) + sha2_W sigma0 sigma1 rd (t - 16))"

fun sha1_W :: "(nat \<Rightarrow> uint32) \<Rightarrow> nat \<Rightarrow> uint32" where
  "sha1_W rd t =
     (if t < 16 then rd t
      else word_rotl 1 (sha1_W rd (t - 3) XOR sha1_W rd (t - 8) XOR sha1_W rd (t - 14) XOR sha1_W rd (t - 16)))"

declare sha2_W.simps [simp del] sha1_W.simps [simp del]

text \<open>The sixteen latest words, in a ring.\<close>

definition ring :: "(nat \<Rightarrow> 'a) \<Rightarrow> nat \<Rightarrow> 'a list \<Rightarrow> bool" where
  "ring W n w \<longleftrightarrow> length w = 16 \<and> (\<forall>j. j < n \<longrightarrow> n \<le> j + 16 \<longrightarrow> w ! (j mod 16) = W j)"

lemma ring_start: "ring W 0 (replicate 16 x)"
  by (simp add: ring_def)

lemma ring_lookup: "ring W n w \<Longrightarrow> 16 \<le> n \<Longrightarrow> 0 < k \<Longrightarrow> k \<le> 16 \<Longrightarrow> w ! ((n + (16 - k)) mod 16) = W (n - k)"
proof -
  assume r: "ring W n w" "16 \<le> n" "0 < k" "k \<le> 16"
  then have "n + (16 - k) = (n - k) + 16" by simp
  then have "(n + (16 - k)) mod 16 = (n - k) mod 16" by simp
  with r show ?thesis by (simp add: ring_def)
qed

lemma ring_update:
  assumes "ring W n w" shows "ring W (Suc n) (w[n mod 16 := W n])"
proof -
  have "n mod 16 \<noteq> j mod 16" if "j < n" "n < j + 16" for j
  proof
    assume "n mod 16 = j mod 16"
    then have "16 dvd n - j" using that(1) by (simp add: mod_eq_dvd_iff_nat)
    then have "16 \<le> n - j" using that(1) by (intro dvd_imp_le) simp_all
    with that show False by linarith
  qed
  with assms show ?thesis by (auto simp: ring_def less_Suc_eq)
qed

lemma sha2_word_ring: "ring (sha2_W s0 s1 rd) n w \<Longrightarrow> sha2_word s0 s1 rd n (n mod 16) w = sha2_W s0 s1 rd n"
  using ring_lookup [of "sha2_W s0 s1 rd" n w 2] ring_lookup [of "sha2_W s0 s1 rd" n w 7]
    ring_lookup [of "sha2_W s0 s1 rd" n w 15] ring_lookup [of "sha2_W s0 s1 rd" n w 16]
  by (subst sha2_W.simps) (auto simp: sha2_word_def mod_simps add_ac)

lemma sha1_left_eq: "sha1_left x = word_rotl 1 x"
  using rotl_eq [of 1 x] by (simp add: sha1_left_def)

lemma sha1_word_ring: "ring (sha1_W rd) n w \<Longrightarrow> sha1_word rd n w = sha1_W rd n"
  using ring_lookup [of "sha1_W rd" n w 3] ring_lookup [of "sha1_W rd" n w 8]
    ring_lookup [of "sha1_W rd" n w 14] ring_lookup [of "sha1_W rd" n w 16]
  by (subst sha1_W.simps) (auto simp: sha1_word_def sha1_left_eq xor.assoc xor.commute xor.left_commute)

lemma regs_start: "length s = n \<Longrightarrow> n dvd i \<Longrightarrow> regs n i s = s"
  by (rule nth_equalityI) (auto simp: regs_def reg_def)

section \<open>The rounds of SHA-2\<close>

lemma sha2_rounds:
  assumes "length s = 8" "\<forall>i < n. snd (K ! i) = i mod 16"
  shows "length (fst (foldl (sha2_line S0 S1 s0 s1 K rd) (s, replicate 16 0) [0..<n])) = 8 \<and>
    ring (sha2_W s0 s1 rd) n (snd (foldl (sha2_line S0 S1 s0 s1 K rd) (s, replicate 16 0) [0..<n])) \<and>
    regs 8 n (fst (foldl (sha2_line S0 S1 s0 s1 K rd) (s, replicate 16 0) [0..<n])) =
      foldl (\<lambda>v t. sha2_step S0 S1 v (fst (K ! t)) (sha2_W s0 s1 rd t)) s [0..<n]"
  using assms(2)
proof (induction n)
  case 0
  then show ?case using assms(1) by (simp add: ring_start regs_start)
next
  case (Suc n)
  then have K: "snd (K ! n) = n mod 16" by simp
  obtain r w where rw: "foldl (sha2_line S0 S1 s0 s1 K rd) (s, replicate 16 0) [0..<n] = (r, w)" by fastforce
  with Suc have IH: "length r = 8" "ring (sha2_W s0 s1 rd) n w"
    "regs 8 n r = foldl (\<lambda>v t. sha2_step S0 S1 v (fst (K ! t)) (sha2_W s0 s1 rd t)) s [0..<n]" by simp_all
  have "snd (sha2_line S0 S1 s0 s1 K rd (r, w) n) = w[n mod 16 := sha2_W s0 s1 rd n]"
    "length (fst (sha2_line S0 S1 s0 s1 K rd (r, w) n)) = 8"
    using IH(1,2) K by (auto simp: sha2_line_def sha2_word_ring Let_def split: prod.split)
  then show ?case
    using sha2_line_regs [OF IH(1), of n S0 S1 s0 s1 K rd w] IH ring_update [OF IH(2)]
    by (simp add: rw sha2_word_ring K)
qed

definition sha2_compress ::
  "('a :: len word \<Rightarrow> 'a word) \<Rightarrow> ('a word \<Rightarrow> 'a word) \<Rightarrow> ('a word \<Rightarrow> 'a word) \<Rightarrow> ('a word \<Rightarrow> 'a word) \<Rightarrow>
   ('a word \<times> nat) list \<Rightarrow> nat \<Rightarrow> (nat \<Rightarrow> 'a word) \<Rightarrow> 'a word list \<Rightarrow> 'a word list" where
  "sha2_compress S0 S1 s0 s1 K n M s =
     map2 (+) s (foldl (\<lambda>v t. sha2_step S0 S1 v (fst (K ! t)) (sha2_W s0 s1 M t)) s [0..<n])"

lemma sha2_Transform_eq:
  assumes "length s = 8" "8 dvd n" "\<forall>i < n. snd (K ! i) = i mod 16"
  shows "(let (r, w) = foldl (sha2_line S0 S1 s0 s1 K rd) (s, replicate 16 0) [0..<n] in map2 (+) s r) =
    sha2_compress S0 S1 s0 s1 K n rd s"
proof -
  obtain r w where rw: "foldl (sha2_line S0 S1 s0 s1 K rd) (s, replicate 16 0) [0..<n] = (r, w)" by fastforce
  with sha2_rounds [OF assms(1,3), of S0 S1 s0 s1 rd] have "length r = 8"
    "regs 8 n r = foldl (\<lambda>v t. sha2_step S0 S1 v (fst (K ! t)) (sha2_W s0 s1 rd t)) s [0..<n]" by simp_all
  with regs_start [OF this(1) assms(2)] show ?thesis by (simp add: sha2_compress_def rw)
qed

definition SHA256_ref_compress :: "uint32 list \<Rightarrow> valtype \<Rightarrow> uint32 list" where
  "SHA256_ref_compress s chunk =
     sha2_compress
       (\<lambda>x. word_rotr 2 x XOR word_rotr 13 x XOR word_rotr 22 x)
       (\<lambda>x. word_rotr 6 x XOR word_rotr 11 x XOR word_rotr 25 x)
       (\<lambda>x. word_rotr 7 x XOR word_rotr 18 x XOR drop_bit 3 x)
       (\<lambda>x. word_rotr 17 x XOR word_rotr 19 x XOR drop_bit 10 x)
       sha256_K 64 (\<lambda>i. ReadBE32 (drop (4 * i) chunk)) s"

definition SHA512_ref_compress :: "uint64 list \<Rightarrow> valtype \<Rightarrow> uint64 list" where
  "SHA512_ref_compress s chunk =
     sha2_compress
       (\<lambda>x. word_rotr 28 x XOR word_rotr 34 x XOR word_rotr 39 x)
       (\<lambda>x. word_rotr 14 x XOR word_rotr 18 x XOR word_rotr 41 x)
       (\<lambda>x. word_rotr 1 x XOR word_rotr 8 x XOR drop_bit 7 x)
       (\<lambda>x. word_rotr 19 x XOR word_rotr 61 x XOR drop_bit 6 x)
       sha512_K 80 (\<lambda>i. ReadBE64 (drop (8 * i) chunk)) s"

lemma rotr32: "0 < n \<Longrightarrow> n < 32 \<Longrightarrow> drop_bit n x OR push_bit (32 - n) x = word_rotr n (x :: uint32)"
  using rotr_eq [of n x] by simp

lemma rotl32: "0 < n \<Longrightarrow> n < 32 \<Longrightarrow> push_bit n x OR drop_bit (32 - n) x = word_rotl n (x :: uint32)"
  using rotl_eq [of n x] by simp

lemma rotr64: "0 < n \<Longrightarrow> n < 64 \<Longrightarrow> drop_bit n x OR push_bit (64 - n) x = word_rotr n (x :: uint64)"
  using rotr_eq [of n x] by simp

lemma sha2_K_words: "\<forall>i < 64. snd (sha256_K ! i) = i mod 16" "\<forall>i < 80. snd (sha512_K ! i) = i mod 16"
proof -
  have "map snd sha256_K = map (\<lambda>i. i mod 16) [0..<64]" "map snd sha512_K = map (\<lambda>i. i mod 16) [0..<80]"
    by (simp_all add: sha256_K_def sha512_K_def upt_rec)
  then show "\<forall>i < 64. snd (sha256_K ! i) = i mod 16" "\<forall>i < 80. snd (sha512_K ! i) = i mod 16"
    by (metis (no_types, lifting) add_0 diff_zero length_map length_upt nth_map nth_upt)+
qed

lemma sha256_Transform_ref: "length s = 8 \<Longrightarrow> sha256_Transform s chunk = SHA256_ref_compress s chunk"
proof -
  assume "length s = 8"
  have "sha256_Sigma0 = (\<lambda>x. word_rotr 2 x XOR word_rotr 13 x XOR word_rotr 22 x)"
    "sha256_Sigma1 = (\<lambda>x. word_rotr 6 x XOR word_rotr 11 x XOR word_rotr 25 x)"
    "sha256_sigma0 = (\<lambda>x. word_rotr 7 x XOR word_rotr 18 x XOR drop_bit 3 x)"
    "sha256_sigma1 = (\<lambda>x. word_rotr 17 x XOR word_rotr 19 x XOR drop_bit 10 x)"
    using rotr32 [of 2] rotr32 [of 13] rotr32 [of 22] rotr32 [of 6] rotr32 [of 11] rotr32 [of 25] rotr32 [of 7]
      rotr32 [of 18] rotr32 [of 17] rotr32 [of 19]
    by (simp_all add: sha256_Sigma0_def sha256_Sigma1_def sha256_sigma0_def sha256_sigma1_def fun_eq_iff)
  with sha2_Transform_eq [OF \<open>length s = 8\<close> _ sha2_K_words(1)] show ?thesis
    unfolding sha256_Transform_def SHA256_ref_compress_def by simp
qed

lemma sha512_Transform_ref: "length s = 8 \<Longrightarrow> sha512_Transform s chunk = SHA512_ref_compress s chunk"
proof -
  assume "length s = 8"
  have "sha512_Sigma0 = (\<lambda>x. word_rotr 28 x XOR word_rotr 34 x XOR word_rotr 39 x)"
    "sha512_Sigma1 = (\<lambda>x. word_rotr 14 x XOR word_rotr 18 x XOR word_rotr 41 x)"
    "sha512_sigma0 = (\<lambda>x. word_rotr 1 x XOR word_rotr 8 x XOR drop_bit 7 x)"
    "sha512_sigma1 = (\<lambda>x. word_rotr 19 x XOR word_rotr 61 x XOR drop_bit 6 x)"
    using rotr64 [of 28] rotr64 [of 34] rotr64 [of 39] rotr64 [of 14] rotr64 [of 18] rotr64 [of 41] rotr64 [of 1]
      rotr64 [of 8] rotr64 [of 19] rotr64 [of 61]
    by (simp_all add: sha512_Sigma0_def sha512_Sigma1_def sha512_sigma0_def sha512_sigma1_def fun_eq_iff)
  with sha2_Transform_eq [OF \<open>length s = 8\<close> _ sha2_K_words(2)] show ?thesis
    unfolding sha512_Transform_def SHA512_ref_compress_def by simp
qed

section \<open>The rounds of SHA-1\<close>

definition sha1_ref_f :: "nat \<Rightarrow> uint32 \<Rightarrow> uint32 \<Rightarrow> uint32 \<Rightarrow> uint32" where
  "sha1_ref_f t = (if t < 20 then Ch_ref else if t < 40 then (\<lambda>x y z. x XOR y XOR z)
     else if t < 60 then Maj_ref else (\<lambda>x y z. x XOR y XOR z))"

definition sha1_step :: "uint32 list \<Rightarrow> nat \<Rightarrow> uint32 \<Rightarrow> uint32 list" where
  "sha1_step v t w =
     [word_rotl 5 (v ! 0) + sha1_ref_f t (v ! 1) (v ! 2) (v ! 3) + v ! 4 + sha1_k t + w,
      v ! 0, word_rotl 30 (v ! 1), v ! 2, v ! 3]"

lemma sha1_f_eq: "sha1_f = sha1_ref_f"
proof -
  have "sha1_f1 = Ch_ref" "sha1_f2 = (\<lambda>x y z. x XOR y XOR z)" "sha1_f3 = Maj_ref"
    by (simp_all add: fun_eq_iff sha1_f1_def sha1_f2_def sha1_f3_def flip: Ch_def Ch_eq Maj_def Maj_eq)
  then show ?thesis by (simp add: fun_eq_iff sha1_f_def sha1_ref_f_def)
qed

lemma sha1_Round_eq: "sha1_Round a b c d e f k w = (word_rotl 30 b, word_rotl 5 a + f + e + k + w)"
  using rotl32 [of 30 b] rotl32 [of 5 a] by (simp add: sha1_Round_def add_ac)

lemma sha1_line_regs:
  assumes "length s = 5"
  shows "regs 5 (Suc i) (fst (sha1_line rd (s, w) i)) = sha1_step (regs 5 i s) i (sha1_word rd i w)"
proof -
  obtain a b c d e where s: "s = [a, b, c, d, e]" using list_5_cases [OF assms] by blast
  obtain r where r: "r < 5" "\<And>j. reg 5 i j = (j + (5 - r)) mod 5" "\<And>j. reg 5 (Suc i) j = (j + (5 - Suc r mod 5)) mod 5"
    using reg_cases [of 5 i] by auto
  from less_5_cases [OF r(1)] show ?thesis
    unfolding s regs_def upt_5 sha1_line_def sha1_step_def sha1_Round_eq sha1_f_eq r(2,3) Let_def
    by (elim disjE) simp_all
qed

lemma sha1_rounds:
  assumes "length s = 5"
  shows "length (fst (foldl (sha1_line rd) (s, replicate 16 0) [0..<n])) = 5 \<and>
    ring (sha1_W rd) n (snd (foldl (sha1_line rd) (s, replicate 16 0) [0..<n])) \<and>
    regs 5 n (fst (foldl (sha1_line rd) (s, replicate 16 0) [0..<n])) =
      foldl (\<lambda>v t. sha1_step v t (sha1_W rd t)) s [0..<n]"
proof (induction n)
  case 0
  then show ?case using assms by (simp add: ring_start regs_start)
next
  case (Suc n)
  obtain r w where rw: "foldl (sha1_line rd) (s, replicate 16 0) [0..<n] = (r, w)" by fastforce
  with Suc have IH: "length r = 5" "ring (sha1_W rd) n w"
    "regs 5 n r = foldl (\<lambda>v t. sha1_step v t (sha1_W rd t)) s [0..<n]" by simp_all
  have "snd (sha1_line rd (r, w) n) = w[n mod 16 := sha1_W rd n]" "length (fst (sha1_line rd (r, w) n)) = 5"
    using IH(1,2) by (simp_all add: sha1_line_def sha1_word_ring Let_def split: prod.split)
  then show ?case
    using sha1_line_regs [OF IH(1), of n rd w] IH ring_update [OF IH(2)] by (simp add: rw sha1_word_ring)
qed

definition SHA1_ref_compress :: "uint32 list \<Rightarrow> valtype \<Rightarrow> uint32 list" where
  "SHA1_ref_compress s chunk =
     map2 (+) s (foldl (\<lambda>v t. sha1_step v t (sha1_W (\<lambda>i. ReadBE32 (drop (4 * i) chunk)) t)) s [0..<80])"

lemma sha1_Transform_ref:
  assumes "length s = 5" shows "sha1_Transform s chunk = SHA1_ref_compress s chunk"
proof -
  let ?rd = "\<lambda>i. ReadBE32 (drop (4 * i) chunk)"
  obtain r w where rw: "foldl (sha1_line ?rd) (s, replicate 16 0) [0..<80] = (r, w)" by fastforce
  with sha1_rounds [OF assms, of ?rd 80] have "length r = 5"
    "regs 5 80 r = foldl (\<lambda>v t. sha1_step v t (sha1_W ?rd t)) s [0..<80]" by simp_all
  with regs_start [OF this(1), of 80] show ?thesis by (simp add: SHA1_ref_compress_def sha1_Transform_def rw)
qed

section \<open>The rounds of RIPEMD-160\<close>

definition rmd_step ::
  "(nat \<Rightarrow> (uint32 \<Rightarrow> uint32 \<Rightarrow> uint32 \<Rightarrow> uint32) \<times> uint32) \<Rightarrow> nat list \<Rightarrow> nat list \<Rightarrow> uint32 list \<Rightarrow> uint32 list \<Rightarrow> nat \<Rightarrow> uint32 list" where
  "rmd_step fk ws rs w v t =
     [v ! 4, word_rotl (rs ! t) (v ! 0 + fst (fk t) (v ! 1) (v ! 2) (v ! 3) + w ! (ws ! t) + snd (fk t)) + v ! 4,
      v ! 1, word_rotl 10 (v ! 2), v ! 3]"

lemma rol_eq: "0 < n \<Longrightarrow> n < 32 \<Longrightarrow> rol x n = word_rotl n x"
  using rotl_eq [of n x] by (simp add: rol_def)

lemma rmd_half_regs:
  assumes "length s = 5" "0 < rs ! i" "rs ! i < 32"
  shows "regs 5 (Suc i) (rmd_half fk ws rs w s i) = rmd_step fk ws rs w (regs 5 i s) i"
proof -
  obtain a b c d e where s: "s = [a, b, c, d, e]" using list_5_cases [OF assms(1)] by blast
  obtain r where r: "r < 5" "\<And>j. reg 5 i j = (j + (5 - r)) mod 5" "\<And>j. reg 5 (Suc i) j = (j + (5 - Suc r mod 5)) mod 5"
    using reg_cases [of 5 i] by auto
  have ten: "rol x 10 = word_rotl 10 x" for x by (simp add: rol_eq)
  from less_5_cases [OF r(1)] show ?thesis
    unfolding s regs_def upt_5 rmd_half_def rmd_step_def rmd_Round_def ten rol_eq [OF assms(2,3)] r(2,3) Let_def
    by (elim disjE) (simp_all split: prod.split)
qed

lemma length_rmd_half: "length (rmd_half fk ws rs w s i) = length s"
  by (simp add: rmd_half_def Let_def split: prod.split)

lemma rmd_rounds:
  assumes "length s = 5" "\<forall>i < n. 0 < rs ! i \<and> rs ! i < 32"
  shows "length (foldl (rmd_half fk ws rs w) s [0..<n]) = 5 \<and>
    regs 5 n (foldl (rmd_half fk ws rs w) s [0..<n]) = foldl (rmd_step fk ws rs w) s [0..<n]"
  using assms(2)
proof (induction n)
  case 0
  then show ?case using assms(1) by (simp add: regs_start)
next
  case (Suc n)
  then show ?case by (simp add: length_rmd_half rmd_half_regs)
qed

lemma rmd_line_split:
  "foldl (rmd_line w) (s, s') is = (foldl (rmd_half rmd_left rmd_w1 rmd_s1 w) s is, foldl (rmd_half rmd_right rmd_w2 rmd_s2 w) s' is)"
  by (induction "is" arbitrary: s s') (simp_all add: rmd_line_def)

definition RIPEMD160_ref_compress :: "uint32 list \<Rightarrow> valtype \<Rightarrow> uint32 list" where
  "RIPEMD160_ref_compress s chunk =
     (let w = map (\<lambda>i. ReadLE32 (drop (4 * i) chunk)) [0..<16] in
      rmd_add s (foldl (rmd_step rmd_left rmd_w1 rmd_s1 w) s [0..<80]) (foldl (rmd_step rmd_right rmd_w2 rmd_s2 w) s [0..<80]))"

lemma rmd_shifts: "\<forall>i < 80. 0 < rmd_s1 ! i \<and> rmd_s1 ! i < 32" "\<forall>i < 80. 0 < rmd_s2 ! i \<and> rmd_s2 ! i < 32"
proof -
  have "list_all (\<lambda>n. 0 < n \<and> n < 32) rmd_s1" "list_all (\<lambda>n. 0 < n \<and> n < 32) rmd_s2" "length rmd_s1 = 80" "length rmd_s2 = 80"
    by (simp_all add: rmd_s1_def rmd_s2_def)
  then show "\<forall>i < 80. 0 < rmd_s1 ! i \<and> rmd_s1 ! i < 32" "\<forall>i < 80. 0 < rmd_s2 ! i \<and> rmd_s2 ! i < 32"
    by (simp_all add: list_all_length)
qed

lemma ripemd160_Transform_ref:
  assumes "length s = 5" shows "ripemd160_Transform s chunk = RIPEMD160_ref_compress s chunk"
proof -
  have "foldl (rmd_half fk ws rs w) s [0..<80] = foldl (rmd_step fk ws rs w) s [0..<80]"
    if "\<forall>i < 80. 0 < rs ! i \<and> rs ! i < 32" for fk ws rs w
    using rmd_rounds [OF assms that, of fk ws w] regs_start [of "foldl (rmd_half fk ws rs w) s [0..<80]" 5 80] by simp
  then show ?thesis
    by (simp add: ripemd160_Transform_def RIPEMD160_ref_compress_def rmd_line_split Let_def rmd_shifts)
qed

section \<open>The hashers compute the reference functions\<close>

interpretation sha256: block_hash 64 sha256_Transform
  by unfold_locales simp_all

interpretation sha1: block_hash 64 sha1_Transform
  by unfold_locales simp_all

interpretation ripemd160: block_hash 64 ripemd160_Transform
  by unfold_locales simp_all

interpretation sha512: block_hash 128 sha512_Transform
  by unfold_locales simp_all

lemma md_fold_cong:
  assumes "\<And>s c. length s = n \<Longrightarrow> T s c = T' s c" "\<And>s c. length s = n \<Longrightarrow> length (T s c) = n" "length s = n"
  shows "md_fold B T s m = md_fold B T' s m \<and> length (md_fold B T s m) = n"
  using assms(3)
proof (induction "length m" arbitrary: s m rule: less_induct)
  case less
  show ?case
  proof (cases "B = 0 \<or> length m < B")
    case True
    with less.prems show ?thesis
      by (simp add: md_fold.simps [of B T s m] md_fold.simps [of B T' s m])
  next
    case False
    then have "length (drop B m) < length m" by auto
    with False less.hyps [of "drop B m" "T s (take B m)"] less.prems show ?thesis
      using assms(1,2) [of s "take B m"] by (auto simp: md_fold.simps [of B T s m] md_fold.simps [of B T' s m])
  qed
qed

lemma length_sha2_Transform:
  assumes "length s = 8" "\<forall>i < n. snd (K ! i) = i mod 16"
  shows "length (let (r, w) = foldl (sha2_line S0 S1 s0 s1 K rd) (s, replicate 16 0) [0..<n] in map2 (+) s r) = 8"
  using sha2_rounds [OF assms, of S0 S1 s0 s1 rd] assms(1) by (auto split: prod.splits)

lemma length_Transforms:
  "length s = 8 \<Longrightarrow> length (sha256_Transform s c) = 8"
  "length s' = 8 \<Longrightarrow> length (sha512_Transform s' c) = 8"
  "length s'' = 5 \<Longrightarrow> length (sha1_Transform s'' c) = 5"
  "length s'' = 5 \<Longrightarrow> length (ripemd160_Transform s'' c) = 5"
proof -
  show "length s = 8 \<Longrightarrow> length (sha256_Transform s c) = 8"
    unfolding sha256_Transform_def by (erule length_sha2_Transform) (rule sha2_K_words)
  show "length s' = 8 \<Longrightarrow> length (sha512_Transform s' c) = 8"
    unfolding sha512_Transform_def by (erule length_sha2_Transform) (rule sha2_K_words)
  show "length s'' = 5 \<Longrightarrow> length (sha1_Transform s'' c) = 5"
    using sha1_rounds [of s'' "\<lambda>i. ReadBE32 (drop (4 * i) c)" 80] by (auto simp: sha1_Transform_def split: prod.splits)
  show "length s'' = 5 \<Longrightarrow> length (ripemd160_Transform s'' c) = 5"
    by (simp add: ripemd160_Transform_def rmd_add_def Let_def split: prod.split)
qed

definition SHA256_ref :: "valtype \<Rightarrow> valtype" where
  "SHA256_ref m = concat (map WriteBE32 (md_hash 64 8 WriteBE64 SHA256_ref_compress sha256_Initialize m))"

definition SHA512_ref :: "valtype \<Rightarrow> valtype" where
  "SHA512_ref m =
     concat (map WriteBE64 (md_hash 128 16 (\<lambda>n. replicate 8 0 @ WriteBE64 n) SHA512_ref_compress sha512_Initialize m))"

definition SHA1_ref :: "valtype \<Rightarrow> valtype" where
  "SHA1_ref m = concat (map WriteBE32 (md_hash 64 8 WriteBE64 SHA1_ref_compress sha1_Initialize m))"

definition RIPEMD160_ref :: "valtype \<Rightarrow> valtype" where
  "RIPEMD160_ref m =
     concat (map WriteLE32 (md_hash 64 8 WriteLE64 RIPEMD160_ref_compress ripemd160_Initialize m))"

lemma initial_lengths:
  "length sha256_Initialize = 8" "length sha512_Initialize = 8" "length sha1_Initialize = 5" "length ripemd160_Initialize = 5"
  by (simp_all add: sha256_Initialize_def sha512_Initialize_def sha1_Initialize_def ripemd160_Initialize_def)

lemma md_hash_ref:
  "md_hash B L enc sha256_Transform sha256_Initialize m = md_hash B L enc SHA256_ref_compress sha256_Initialize m \<and>
   length (md_hash B L enc sha256_Transform sha256_Initialize m) = 8"
  "md_hash B L enc sha512_Transform sha512_Initialize m = md_hash B L enc SHA512_ref_compress sha512_Initialize m \<and>
   length (md_hash B L enc sha512_Transform sha512_Initialize m) = 8"
  "md_hash B L enc sha1_Transform sha1_Initialize m = md_hash B L enc SHA1_ref_compress sha1_Initialize m \<and>
   length (md_hash B L enc sha1_Transform sha1_Initialize m) = 5"
  "md_hash B L enc ripemd160_Transform ripemd160_Initialize m = md_hash B L enc RIPEMD160_ref_compress ripemd160_Initialize m \<and>
   length (md_hash B L enc ripemd160_Transform ripemd160_Initialize m) = 5"
  unfolding md_hash_def
  by (rule md_fold_cong, erule sha256_Transform_ref, erule length_Transforms, rule initial_lengths)
    (rule md_fold_cong, erule sha512_Transform_ref, erule length_Transforms, rule initial_lengths,
     rule md_fold_cong, erule sha1_Transform_ref, erule length_Transforms, rule initial_lengths,
     rule md_fold_cong, erule ripemd160_Transform_ref, erule length_Transforms(4), rule initial_lengths)

lemmas md_hash_refs = md_hash_ref [THEN conjunct1]
lemmas length_md_hash = md_hash_ref [THEN conjunct2, unfolded md_hash_refs]

lemma CSHA256_stream:
  "length buf = 64 \<Longrightarrow> CSHA256_Finalize (foldl CSHA256_Write (CSHA256 buf) parts) = SHA256_ref (concat parts)"
  by (simp add: CSHA256_Finalize_def CSHA256_Write_def CSHA256_def CSHA256_output_def sha256.stream SHA256_ref_def md_hash_refs)

lemma CSHA512_stream:
  "length buf = 128 \<Longrightarrow> CSHA512_Finalize (foldl CSHA512_Write (CSHA512 buf) parts) = SHA512_ref (concat parts)"
  by (simp add: CSHA512_Finalize_def CSHA512_Write_def CSHA512_def sha512.stream SHA512_ref_def md_hash_refs)

lemma CSHA1_stream:
  "length buf = 64 \<Longrightarrow> CSHA1_Finalize (foldl CSHA1_Write (CSHA1 buf) parts) = SHA1_ref (concat parts)"
  by (simp add: CSHA1_Finalize_def CSHA1_Write_def CSHA1_def sha1.stream SHA1_ref_def md_hash_refs)

lemma CRIPEMD160_stream:
  "length buf = 64 \<Longrightarrow> CRIPEMD160_Finalize (foldl CRIPEMD160_Write (CRIPEMD160 buf) parts) = RIPEMD160_ref (concat parts)"
  by (simp add: CRIPEMD160_Finalize_def CRIPEMD160_Write_def CRIPEMD160_def ripemd160.stream RIPEMD160_ref_def md_hash_refs)

lemma length_concat_fixed: "\<forall>x \<in> set xs. length (f x) = k \<Longrightarrow> length (concat (map f xs)) = k * length xs"
  by (induction xs) simp_all

lemma digest_lengths:
  "length (SHA256_ref m) = 32" "length (SHA512_ref m) = 64" "length (SHA1_ref m) = 20" "length (RIPEMD160_ref m) = 20"
proof -
  have l: "length (WriteBE32 x) = 4" "length (WriteBE64 y) = 8" "length (WriteLE32 x) = 4" for x y
    by (simp_all add: WriteBE32_def WriteBE64_def WriteLE32_def)
  show "length (SHA256_ref m) = 32"
    using length_concat_fixed [of _ WriteBE32 4]
    by (simp add: SHA256_ref_def l length_md_hash)
  show "length (SHA512_ref m) = 64"
    using length_concat_fixed [of _ WriteBE64 8]
    by (simp add: SHA512_ref_def l length_md_hash)
  show "length (SHA1_ref m) = 20"
    using length_concat_fixed [of _ WriteBE32 4]
    by (simp add: SHA1_ref_def l length_md_hash)
  show "length (RIPEMD160_ref m) = 20"
    using length_concat_fixed [of _ WriteLE32 4]
    by (simp add: RIPEMD160_ref_def l length_md_hash)
qed

section \<open>Keyed hashes\<close>

definition HMAC_ref :: "nat \<Rightarrow> (valtype \<Rightarrow> valtype) \<Rightarrow> valtype \<Rightarrow> valtype \<Rightarrow> valtype" where
  "HMAC_ref B H key m =
     (let k = hmac_rkey B H key in
      H (map (\<lambda>b. b XOR 0x5c) k @ H (map (\<lambda>b. b XOR 0x36) k @ m)))"

lemma xor_pads: "map (\<lambda>b. b XOR 0x6a) (map (\<lambda>b. b XOR 0x5c) k) = map (\<lambda>b :: byte. b XOR 0x36) k"
  by (simp add: xor.assoc)

lemma HMAC_SHA256_Writes:
  "foldl CHMAC_SHA256_Write mac parts = mac\<lparr> hmac_inner := foldl CSHA256_Write (hmac_inner mac) parts \<rparr>"
  by (induction parts arbitrary: mac) (simp_all add: CHMAC_SHA256_Write_def)

lemma HMAC_SHA512_Writes:
  "foldl CHMAC_SHA512_Write mac parts = mac\<lparr> hmac_inner := foldl CSHA512_Write (hmac_inner mac) parts \<rparr>"
  by (induction parts arbitrary: mac) (simp_all add: CHMAC_SHA512_Write_def)

lemma CHMAC_SHA256_stream:
  assumes "length g1 = 64" "length g2 = 64" "length g3 = 64"
  shows "CHMAC_SHA256_Finalize (foldl CHMAC_SHA256_Write (CHMAC_SHA256 g1 g2 g3 key) parts) =
    HMAC_ref 64 SHA256_ref key (concat parts)"
proof -
  have h: "CSHA256_Finalize (CSHA256_Write (CSHA256 g1) k) = SHA256_ref k" for k
    using CSHA256_stream [OF assms(1), of "[k]"] by simp
  let ?k = "hmac_rkey 64 SHA256_ref key"
  have "CSHA256_Finalize (foldl CSHA256_Write (CSHA256_Write (CSHA256 g3) x) parts) = SHA256_ref (x @ concat parts)" for x
    using CSHA256_stream [OF assms(3), of "x # parts"] by simp
  moreover have "CSHA256_Finalize (CSHA256_Write (CSHA256_Write (CSHA256 g2) x) y) = SHA256_ref (x @ y)" for x y
    using CSHA256_stream [OF assms(2), of "[x, y]"] by simp
  ultimately show ?thesis
    by (simp add: CHMAC_SHA256_Finalize_def HMAC_SHA256_Writes CHMAC_SHA256_def Let_def h HMAC_ref_def xor_pads del: map_map)
qed

lemma CHMAC_SHA512_stream:
  assumes "length g1 = 128" "length g2 = 128" "length g3 = 128"
  shows "CHMAC_SHA512_Finalize (foldl CHMAC_SHA512_Write (CHMAC_SHA512 g1 g2 g3 key) parts) =
    HMAC_ref 128 SHA512_ref key (concat parts)"
proof -
  have h: "CSHA512_Finalize (CSHA512_Write (CSHA512 g1) k) = SHA512_ref k" for k
    using CSHA512_stream [OF assms(1), of "[k]"] by simp
  have "CSHA512_Finalize (foldl CSHA512_Write (CSHA512_Write (CSHA512 g3) x) parts) = SHA512_ref (x @ concat parts)" for x
    using CSHA512_stream [OF assms(3), of "x # parts"] by simp
  moreover have "CSHA512_Finalize (CSHA512_Write (CSHA512_Write (CSHA512 g2) x) y) = SHA512_ref (x @ y)" for x y
    using CSHA512_stream [OF assms(2), of "[x, y]"] by simp
  ultimately show ?thesis
    by (simp add: CHMAC_SHA512_Finalize_def HMAC_SHA512_Writes CHMAC_SHA512_def Let_def h HMAC_ref_def xor_pads del: map_map)
qed

section \<open>Properties\<close>



text \<open>
  Likewise the hashers for SHA-512, SHA-1 and RIPEMD-160 compute the standard functions of the
  concatenated message.
\<close>

theorem hashers_correct:
  assumes "length buf = 64" and "length buf' = 128"
  shows "CSHA512_Finalize (foldl CSHA512_Write (CSHA512 buf') parts) = SHA512_ref (concat parts) \<and>
    CSHA1_Finalize (foldl CSHA1_Write (CSHA1 buf) parts) = SHA1_ref (concat parts) \<and>
    CRIPEMD160_Finalize (foldl CRIPEMD160_Write (CRIPEMD160 buf) parts) = RIPEMD160_ref (concat parts)"
  using assms by (simp add: CSHA512_stream CSHA1_stream CRIPEMD160_stream)

theorem hashers_correct_witness:
  "CRIPEMD160_Finalize (CRIPEMD160_Write (CRIPEMD160 (replicate 64 1)) [0x61, 0x62]) = RIPEMD160_ref [0x61, 0x62]"
  using hashers_correct [of "replicate 64 1" "replicate 128 1" "[[0x61, 0x62]]"] by simp



end
