(* ===== verification/Block.thy ===== *)
theory Block
  imports Transaction Hash_Correctness
begin

unbundle bit_operations_syntax

text \<open>
  Block headers, blocks and their Merkle trees: \<^verbatim>\<open>src/src/primitives/block.h\<close>,
  \<^verbatim>\<open>src/src/primitives/block.cpp\<close> and the double hash of \<^verbatim>\<open>src/src/hash.h\<close>. The tree is kept, as in
  the code, as one vector with the levels one after the other. It is shown to hold the levels of the
  reference definition, a branch leads from a transaction to the root, and two lists of
  transactions with the same root and the same number of levels are equal unless a mutation is reported
  or the hash collides.
\<close>

section \<open>The double hash\<close>

text \<open>\<open>buf\<close> is the content of the uninitialised buffer; what \<^verbatim>\<open>Finalize\<close> leaves in it is not read after \<^verbatim>\<open>Reset\<close>.\<close>

definition CHash256_Finalize :: "uint32 list hasher \<Rightarrow> valtype" where
  "CHash256_Finalize sha = CSHA256_Finalize (CSHA256_Write (CSHA256_Reset sha) (CSHA256_Finalize sha))"

definition CHash160_Finalize :: "valtype \<Rightarrow> uint32 list hasher \<Rightarrow> valtype" where
  "CHash160_Finalize buf sha = CRIPEMD160_Finalize (CRIPEMD160_Write (CRIPEMD160 buf) (CSHA256_Finalize sha))"

definition Hash1 :: "valtype \<Rightarrow> valtype \<Rightarrow> valtype" where
  "Hash1 buf p = CHash256_Finalize (CSHA256_Write (CSHA256 buf) p)"

text \<open>The hash of two blobs, over the double hash \<open>H\<close> of their concatenation.\<close>

definition Hash2 :: "(valtype \<Rightarrow> valtype) \<Rightarrow> uint256 \<Rightarrow> uint256 \<Rightarrow> uint256" where
  "Hash2 H p1 p2 = blob_of_bytes (H (blob_bytes p1 @ blob_bytes p2))"

section \<open>Headers and blocks\<close>

record CBlockHeader =
  block_nVersion :: int
  hashPrevBlock :: uint256
  hashMerkleRoot :: uint256
  hashReserved :: uint256
  nTime :: uint32
  nBits :: uint32
  nNonce :: uint256
  nSolution :: valtype

record CBlock = CBlockHeader +
  vtx :: "CTransaction list"
  vMerkleTree :: "uint256 list"

definition header_SetNull :: CBlockHeader where
  "header_SetNull = \<lparr> block_nVersion = 0, hashPrevBlock = 0, hashMerkleRoot = 0, hashReserved = 0, nTime = 0,
     nBits = 0, nNonce = 0, nSolution = [] \<rparr>"

definition header_IsNull :: "'a CBlockHeader_scheme \<Rightarrow> bool" where
  "header_IsNull h \<longleftrightarrow> nBits h = 0"

definition ser_CBlockHeader :: "'a CBlockHeader_scheme \<Rightarrow> valtype" where
  "ser_CBlockHeader h =
     ser_int32 (block_nVersion h) @ ser_blob (hashPrevBlock h) @ ser_blob (hashMerkleRoot h) @
     ser_blob (hashReserved h) @ ser_writedata32 (nTime h) @ ser_writedata32 (nBits h) @ ser_blob (nNonce h) @
     ser_bytes (nSolution h)"

definition unser_CBlockHeader :: "CBlockHeader reader" where
  "unser_CBlockHeader =
     rd_bind unser_int32 (\<lambda>version. rd_bind unser_blob (\<lambda>prev. rd_bind unser_blob (\<lambda>root. rd_bind unser_blob (\<lambda>res.
     rd_bind ser_readdata32 (\<lambda>time. rd_bind ser_readdata32 (\<lambda>bits. rd_bind unser_blob (\<lambda>nonce. rd_bind unser_bytes (\<lambda>sol.
       rd_return \<lparr> block_nVersion = version, hashPrevBlock = prev, hashMerkleRoot = root, hashReserved = res,
         nTime = time, nBits = bits, nNonce = nonce, nSolution = sol \<rparr>))))))))"

definition header_GetHash :: "(valtype \<Rightarrow> valtype) \<Rightarrow> 'a CBlockHeader_scheme \<Rightarrow> uint256" where
  "header_GetHash H h = SerializeHash H (ser_CBlockHeader h)"

definition header_GetBlockTime :: "'a CBlockHeader_scheme \<Rightarrow> int" where
  "header_GetBlockTime h = int (unat (nTime h))"

definition ser_CEquihashInput :: "'a CBlockHeader_scheme \<Rightarrow> valtype" where
  "ser_CEquihashInput h =
     ser_int32 (block_nVersion h) @ ser_blob (hashPrevBlock h) @ ser_blob (hashMerkleRoot h) @
     ser_blob (hashReserved h) @ ser_writedata32 (nTime h) @ ser_writedata32 (nBits h)"

definition GetBlockHeader :: "CBlock \<Rightarrow> CBlockHeader" where
  "GetBlockHeader b =
     \<lparr> block_nVersion = block_nVersion b, hashPrevBlock = hashPrevBlock b, hashMerkleRoot = hashMerkleRoot b,
       hashReserved = hashReserved b, nTime = nTime b, nBits = nBits b, nNonce = nNonce b, nSolution = nSolution b \<rparr>"

definition CBlock_of :: "CBlockHeader \<Rightarrow> CBlock" where
  "CBlock_of h = CBlockHeader.extend h \<lparr> vtx = [], vMerkleTree = [] \<rparr>"

definition ser_CBlock :: "CBlock \<Rightarrow> valtype" where
  "ser_CBlock b = ser_CBlockHeader b @ ser_vector ser_CTransaction (vtx b)"

text \<open>Every transaction of the vector is read into a default-constructed one; the tree is not serialized.\<close>

definition unser_CBlock :: "CBlock reader" where
  "unser_CBlock =
     rd_bind unser_CBlockHeader (\<lambda>h. rd_bind (unser_vector (unser_CTransaction null_tx)) (\<lambda>txs.
       rd_return ((CBlock_of h)\<lparr> vtx := txs \<rparr>)))"

section \<open>The Merkle tree\<close>

function merkle_inner ::
  "(uint256 \<Rightarrow> uint256 \<Rightarrow> uint256) \<Rightarrow> nat \<Rightarrow> nat \<Rightarrow> nat \<Rightarrow> uint256 list \<Rightarrow> bool \<Rightarrow> uint256 list \<times> bool" where
  "merkle_inner h j nSize i tree mutated =
     (if i < nSize then
        let i2 = min (i + 1) (nSize - 1);
            mutated' = (mutated \<or> (i2 = i + 1 \<and> i2 + 1 = nSize \<and> tree ! (j + i) = tree ! (j + i2)))
        in merkle_inner h j nSize (i + 2) (tree @ [h (tree ! (j + i)) (tree ! (j + i2))]) mutated'
      else (tree, mutated))"
  by pat_completeness auto
termination
  by (relation "measure (\<lambda>(h, j, nSize, i, tree, mutated). nSize - i)") auto

function merkle_outer ::
  "(uint256 \<Rightarrow> uint256 \<Rightarrow> uint256) \<Rightarrow> nat \<Rightarrow> nat \<Rightarrow> uint256 list \<Rightarrow> bool \<Rightarrow> uint256 list \<times> bool" where
  "merkle_outer h j nSize tree mutated =
     (if nSize > 1 then
        let (tree', mutated') = merkle_inner h j nSize 0 tree mutated
        in merkle_outer h (j + nSize) ((nSize + 1) div 2) tree' mutated'
      else (tree, mutated))"
  by pat_completeness auto
termination
  by (relation "measure (\<lambda>(h, j, nSize, tree, mutated). nSize)") auto

declare merkle_inner.simps [simp del] merkle_outer.simps [simp del]

text \<open>The tree left in \<^verbatim>\<open>vMerkleTree\<close>, the root, and whether a mutation was detected.\<close>

definition BuildMerkleTree :: "(valtype \<Rightarrow> valtype) \<Rightarrow> CBlock \<Rightarrow> CBlock \<times> uint256 \<times> bool" where
  "BuildMerkleTree H b =
     (let (tree, mutated) = merkle_outer (Hash2 H) 0 (length (vtx b)) (map (GetHash H) (vtx b)) False in
      (b\<lparr> vMerkleTree := tree \<rparr>, (if tree = [] then 0 else last tree), mutated))"

function merkle_branch :: "uint256 list \<Rightarrow> nat \<Rightarrow> nat \<Rightarrow> nat \<Rightarrow> uint256 list" where
  "merkle_branch tree j nSize nIndex =
     (if nSize > 1 then
        tree ! (j + min (nIndex XOR 1) (nSize - 1)) # merkle_branch tree (j + nSize) ((nSize + 1) div 2) (nIndex div 2)
      else [])"
  by pat_completeness auto
termination
  by (relation "measure (\<lambda>(tree, j, nSize, nIndex). nSize)") auto

declare merkle_branch.simps [simp del]

definition GetMerkleBranch :: "(valtype \<Rightarrow> valtype) \<Rightarrow> CBlock \<Rightarrow> nat \<Rightarrow> uint256 list" where
  "GetMerkleBranch H b nIndex =
     (let b' = (if vMerkleTree b = [] then fst (BuildMerkleTree H b) else b) in
      merkle_branch (vMerkleTree b') 0 (length (vtx b')) nIndex)"

fun check_branch :: "(uint256 \<Rightarrow> uint256 \<Rightarrow> uint256) \<Rightarrow> uint256 \<Rightarrow> uint256 list \<Rightarrow> int \<Rightarrow> uint256" where
  "check_branch h hash [] nIndex = hash"
| "check_branch h hash (it # vMerkleBranch) nIndex =
     check_branch h (if nIndex AND 1 \<noteq> 0 then h it hash else h hash it) vMerkleBranch (nIndex div 2)"

definition CheckMerkleBranch :: "(valtype \<Rightarrow> valtype) \<Rightarrow> uint256 \<Rightarrow> uint256 list \<Rightarrow> int \<Rightarrow> uint256" where
  "CheckMerkleBranch H hash vMerkleBranch nIndex =
     (if nIndex = - 1 then 0 else check_branch (Hash2 H) hash vMerkleBranch nIndex)"

section \<open>Hashing and serialization\<close>

lemma CSHA256_Write_buf: "length buf = 64 \<Longrightarrow> length (hash_buf (CSHA256_Write (CSHA256 buf) p)) = 64"
  using sha256.Write_absorbed [OF sha256.init_absorbed, of buf sha256_Initialize p]
  by (simp add: CSHA256_Write_def CSHA256_def absorbed_def)

lemma Hash1_ref:
  assumes "length buf = 64"
  shows "Hash1 buf p = SHA256_ref (SHA256_ref p)"
proof -
  have "CSHA256_Finalize (CSHA256_Write (CSHA256 b) d) = SHA256_ref d" if "length b = 64" for b d
    using CSHA256_stream [OF that, of "[d]"] by simp
  moreover have "CSHA256_Reset sha = CSHA256 (hash_buf sha)" for sha by (simp add: CSHA256_Reset_def CSHA256_def)
  ultimately show ?thesis using CSHA256_Write_buf [OF assms] assms by (simp add: Hash1_def CHash256_Finalize_def)
qed

definition CBlockHeader_ok :: "'a CBlockHeader_scheme \<Rightarrow> bool" where
  "CBlockHeader_ok h \<longleftrightarrow> in_int32 (block_nVersion h) \<and> length (nSolution h) \<le> MAX_SIZE"

interpretation header: codec CBlockHeader_ok ser_CBlockHeader unser_CBlockHeader
proof
  fix h :: CBlockHeader and rest assume "CBlockHeader_ok h"
  then show "unser_CBlockHeader (ser_CBlockHeader h @ rest) = Some (h, rest)"
    by (cases h) (simp add: unser_CBlockHeader_def ser_CBlockHeader_def CBlockHeader_ok_def reader_simps codec_reads)
next
  fix bs and h :: CBlockHeader and rest assume "unser_CBlockHeader bs = Some (h, rest)"
  then show "CBlockHeader_ok h \<and> bs = ser_CBlockHeader h @ rest"
    by (auto simp: unser_CBlockHeader_def ser_CBlockHeader_def CBlockHeader_ok_def rd_bind_eq_Some_iff rd_return_def
        dest!: codec_writes)
qed

interpretation txs: codec "\<lambda>v. length v \<le> MAX_SIZE \<and> list_all (CTransaction_ok null_tx) v"
    "ser_vector ser_CTransaction" "unser_vector (unser_CTransaction null_tx)"
  by (rule tx.vector)

definition CBlock_ok :: "CBlock \<Rightarrow> bool" where
  "CBlock_ok b \<longleftrightarrow> CBlockHeader_ok b \<and> length (vtx b) \<le> MAX_SIZE \<and> list_all (CTransaction_ok null_tx) (vtx b) \<and> vMerkleTree b = []"

lemma header_of_block:
  "ser_CBlockHeader (CBlock_of h) = ser_CBlockHeader h" "CBlockHeader_ok (CBlock_of h) = CBlockHeader_ok h"
  "ser_CBlockHeader ((b :: CBlock)\<lparr> vtx := t \<rparr>) = ser_CBlockHeader b" "CBlockHeader_ok (b\<lparr> vtx := t \<rparr>) = CBlockHeader_ok b"
  "CBlockHeader_ok (GetBlockHeader b) = CBlockHeader_ok b" "ser_CBlockHeader (GetBlockHeader b) = ser_CBlockHeader b"
  by (cases h, simp_all add: ser_CBlockHeader_def CBlockHeader_ok_def CBlock_of_def CBlockHeader.defs GetBlockHeader_def)

interpretation block: codec CBlock_ok ser_CBlock unser_CBlock
proof
  fix b :: CBlock and rest assume ok: "CBlock_ok b"
  have "unser_CBlockHeader (ser_CBlockHeader (GetBlockHeader b) @ ser_vector ser_CTransaction (vtx b) @ rest) =
      Some (GetBlockHeader b, ser_vector ser_CTransaction (vtx b) @ rest)"
    using ok by (intro header.read_write) (simp add: CBlock_ok_def header_of_block)
  moreover have "(CBlock_of (GetBlockHeader b))\<lparr> vtx := vtx b \<rparr> = b"
    using ok by (cases b) (simp add: CBlock_ok_def CBlock_of_def GetBlockHeader_def CBlockHeader.defs)
  ultimately show "unser_CBlock (ser_CBlock b @ rest) = Some (b, rest)"
    using ok txs.read_write [of "vtx b" rest]
    by (simp add: unser_CBlock_def ser_CBlock_def reader_simps CBlock_ok_def header_of_block)
next
  fix bs and b :: CBlock and rest assume "unser_CBlock bs = Some (b, rest)"
  then obtain h t bs' where h: "unser_CBlockHeader bs = Some (h, bs')"
      and t: "unser_vector (unser_CTransaction null_tx) bs' = Some (t, rest)" and b: "b = (CBlock_of h)\<lparr> vtx := t \<rparr>"
    by (auto simp: unser_CBlock_def rd_bind_eq_Some_iff rd_return_def)
  have "vMerkleTree b = []" "vtx b = t" by (simp_all add: b CBlock_of_def CBlockHeader.defs)
  then show "CBlock_ok b \<and> bs = ser_CBlock b @ rest"
    using header.write_read [OF h] txs.write_read [OF t]
    by (simp add: CBlock_ok_def ser_CBlock_def b header_of_block)
qed

section \<open>The reference Merkle tree\<close>

fun pair_up :: "('a \<Rightarrow> 'a \<Rightarrow> 'a) \<Rightarrow> 'a list \<Rightarrow> 'a list" where
  "pair_up h [] = []"
| "pair_up h [x] = [h x x]"
| "pair_up h (x # y # xs) = h x y # pair_up h xs"

fun dup_end :: "'a list \<Rightarrow> bool" where
  "dup_end (x # y # xs) = (if xs = [] then x = y else dup_end xs)"
| "dup_end _ = False"

lemma length_pair_up [simp]: "length (pair_up h xs) = (length xs + 1) div 2"
  by (induction h xs rule: pair_up.induct) auto

text \<open>All levels, the root, and whether some level ends in two equal hashes.\<close>

function merkle_levels :: "('a \<Rightarrow> 'a \<Rightarrow> 'a) \<Rightarrow> 'a list \<Rightarrow> 'a list list" where
  "merkle_levels h xs = xs # (if length xs > 1 then merkle_levels h (pair_up h xs) else [])"
  by pat_completeness auto
termination
  by (relation "measure (\<lambda>(h, xs). length xs)") auto

declare merkle_levels.simps [simp del]

definition merkle_root :: "('a \<Rightarrow> 'a \<Rightarrow> 'a) \<Rightarrow> 'a list \<Rightarrow> 'a list" where
  "merkle_root h xs = last (merkle_levels h xs)"

definition merkle_mutated :: "('a \<Rightarrow> 'a \<Rightarrow> 'a) \<Rightarrow> 'a list \<Rightarrow> bool" where
  "merkle_mutated h xs = list_ex (\<lambda>l. dup_end l) (merkle_levels h xs)"

lemma merkle_inner_eq:
  "merkle_inner h (length pre) (length xs) i (pre @ xs @ acc) m =
     (pre @ xs @ acc @ pair_up h (drop i xs), m \<or> dup_end (drop i xs))"
proof (induction "length xs - i" arbitrary: i acc m rule: less_induct)
  case less
  show ?case
  proof (cases "i < length xs")
    case False
    then show ?thesis by (simp add: merkle_inner.simps)
  next
    case True
    let ?i2 = "min (i + 1) (length xs - 1)"
    let ?m = "m \<or> (?i2 = i + 1 \<and> ?i2 + 1 = length xs \<and> xs ! i = xs ! ?i2)"
    have i2: "?i2 < length xs" using True by (auto simp: min_def)
    have at: "(pre @ xs @ acc) ! (length pre + i) = xs ! i" "(pre @ xs @ acc) ! (length pre + ?i2) = xs ! ?i2"
      using True i2 by (simp_all add: nth_append)
    have "merkle_inner h (length pre) (length xs) i (pre @ xs @ acc) m =
        merkle_inner h (length pre) (length xs) (i + 2) (pre @ xs @ (acc @ [h (xs ! i) (xs ! ?i2)])) ?m"
      using True by (subst merkle_inner.simps) (simp only: at Let_def if_True append_assoc)
    also have "\<dots> = (pre @ xs @ (acc @ [h (xs ! i) (xs ! ?i2)]) @ pair_up h (drop (i + 2) xs), ?m \<or> dup_end (drop (i + 2) xs))"
      using True by (intro less) simp
    also have "\<dots> = (pre @ xs @ acc @ pair_up h (drop i xs), m \<or> dup_end (drop i xs))"
    proof (cases "i + 1 < length xs")
      case True
      then have d: "drop i xs = xs ! i # xs ! (i + 1) # drop (i + 2) xs"
        by (metis Cons_nth_drop_Suc Suc_eq_plus1 Suc_lessD add_2_eq_Suc')
      have e: "?i2 = i + 1" using True by simp
      show ?thesis unfolding d e using True by (cases "drop (i + 2) xs = []") auto
    next
      case False
      with True have e: "?i2 = i" "drop i xs = [xs ! i]" "drop (i + 2) xs = []"
        by (simp_all add: Cons_nth_drop_Suc [symmetric])
      show ?thesis unfolding e by simp
    qed
    finally show ?thesis .
  qed
qed

lemma merkle_outer_eq:
  "merkle_outer h (length pre) (length xs) (pre @ xs) m = (pre @ concat (merkle_levels h xs), m \<or> merkle_mutated h xs)"
proof (induction h xs arbitrary: pre m rule: merkle_levels.induct)
  case (1 h xs)
  show ?case
  proof (cases "length xs > 1")
    case True
    have "merkle_outer h (length pre) (length xs) (pre @ xs) m =
        merkle_outer h (length (pre @ xs)) (length (pair_up h xs)) ((pre @ xs) @ pair_up h xs) (m \<or> dup_end xs)"
      using True merkle_inner_eq [of h pre xs 0 "[]" m] by (subst merkle_outer.simps) simp
    also have "\<dots> = ((pre @ xs) @ concat (merkle_levels h (pair_up h xs)), (m \<or> dup_end xs) \<or> merkle_mutated h (pair_up h xs))"
      using True by (intro 1) simp
    finally show ?thesis using True by (simp add: merkle_levels.simps [of h xs] merkle_mutated_def)
  next
    case False
    then have "\<not> dup_end xs" by (cases xs rule: dup_end.cases) auto
    with False show ?thesis by (simp add: merkle_outer.simps merkle_levels.simps [of h xs] merkle_mutated_def)
  qed
qed

lemma merkle_levels_nonempty: "xs \<noteq> [] \<Longrightarrow> \<exists>r. last (merkle_levels h xs) = [r]"
proof (induction h xs rule: merkle_levels.induct)
  case (1 h xs)
  show ?case
  proof (cases "length xs > 1")
    case True
    then have "pair_up h xs \<noteq> []" by (cases xs rule: dup_end.cases) auto
    with 1 True obtain r where "last (merkle_levels h (pair_up h xs)) = [r]" by blast
    then show ?thesis using True by (subst merkle_levels.simps) (simp add: merkle_levels.simps [of h "pair_up h xs"])
  next
    case False
    with 1(2) show ?thesis by (subst merkle_levels.simps) (cases xs; auto)
  qed
qed

lemma last_concat_levels: "xs \<noteq> [] \<Longrightarrow> merkle_root h xs = [last (concat (merkle_levels h xs))] \<and> concat (merkle_levels h xs) \<noteq> []"
proof -
  assume "xs \<noteq> []"
  then obtain r where r: "last (merkle_levels h xs) = [r]" using merkle_levels_nonempty by blast
  have ne: "merkle_levels h xs \<noteq> []" by (subst merkle_levels.simps) simp
  then have "concat (merkle_levels h xs) = concat (butlast (merkle_levels h xs)) @ [r]"
    using r by (metis append_butlast_last_id concat.simps concat_append append_Nil2)
  then show ?thesis by (simp add: merkle_root_def r)
qed

lemma BuildMerkleTree_eq:
  "BuildMerkleTree H b =
     (let ids = map (GetHash H) (vtx b) in
      (b\<lparr> vMerkleTree := concat (merkle_levels (Hash2 H) ids) \<rparr>,
       (if ids = [] then 0 else hd (merkle_root (Hash2 H) ids)), merkle_mutated (Hash2 H) ids))"
proof -
  let ?ids = "map (GetHash H) (vtx b)"
  have "merkle_outer (Hash2 H) 0 (length (vtx b)) ?ids False = (concat (merkle_levels (Hash2 H) ?ids), merkle_mutated (Hash2 H) ?ids)"
    using merkle_outer_eq [of "Hash2 H" "[]" ?ids False] by simp
  moreover have "concat (merkle_levels (Hash2 H) []) = []" by (simp add: merkle_levels.simps)
  ultimately show ?thesis
    using last_concat_levels [of ?ids "Hash2 H"] by (auto simp: BuildMerkleTree_def Let_def)
qed

section \<open>Branches\<close>

fun level_branch :: "'a list list \<Rightarrow> nat \<Rightarrow> 'a list" where
  "level_branch (xs # l # ls) i = xs ! (min (i XOR 1) (length xs - 1)) # level_branch (l # ls) (i div 2)"
| "level_branch _ i = []"

lemma merkle_branch_eq:
  "merkle_branch (pre @ concat (merkle_levels h xs) @ post) (length pre) (length xs) i = level_branch (merkle_levels h xs) i"
proof (induction h xs arbitrary: pre i rule: merkle_levels.induct)
  case (1 h xs)
  show ?case
  proof (cases "length xs > 1")
    case True
    let ?k = "min (i XOR 1) (length xs - 1)"
    have k: "?k < length xs" using True by (auto simp: min_def)
    have tree: "pre @ concat (merkle_levels h xs) @ post = (pre @ xs) @ concat (merkle_levels h (pair_up h xs)) @ post"
      using True by (subst merkle_levels.simps) simp
    have "merkle_branch (pre @ concat (merkle_levels h xs) @ post) (length pre) (length xs) i =
        xs ! ?k # merkle_branch ((pre @ xs) @ concat (merkle_levels h (pair_up h xs)) @ post) (length (pre @ xs)) (length (pair_up h xs)) (i div 2)"
      using True k unfolding tree by (subst merkle_branch.simps) (simp add: nth_append)
    also have "\<dots> = xs ! ?k # level_branch (merkle_levels h (pair_up h xs)) (i div 2)" using 1 [OF True] by (simp only:)
    also have "\<dots> = level_branch (merkle_levels h xs) i"
      using True by (simp add: merkle_levels.simps [of h xs] merkle_levels.simps [of h "pair_up h xs"])
    finally show ?thesis .
  next
    case False
    then show ?thesis by (subst merkle_branch.simps) (simp add: merkle_levels.simps [of h xs])
  qed
qed

lemma sibling: "even i \<Longrightarrow> i XOR 1 = Suc i" "odd i \<Longrightarrow> i XOR 1 = i - 1" for i :: nat
  using xor_one_eq [of i] by simp_all

lemma pair_up_nth:
  "i < length xs \<Longrightarrow> pair_up h xs ! (i div 2) =
     (if even i then h (xs ! i) (xs ! min (Suc i) (length xs - 1)) else h (xs ! (i - 1)) (xs ! i))"
proof (induction h xs arbitrary: i rule: pair_up.induct)
  case (3 h x y xs)
  consider "i = 0" | "i = 1" | k where "i = Suc (Suc k)" by (metis One_nat_def not0_implies_Suc)
  then show ?case
  proof cases
    case k: 3
    then have "k < length xs" using 3(2) by simp
    then have "xs \<noteq> []" "min (Suc i) (length (x # y # xs) - 1) = Suc (Suc (min (Suc k) (length xs - 1)))" using k by (auto simp: min_def)
    then show ?thesis using 3(1) [OF \<open>k < length xs\<close>] k by (cases k) simp_all
  qed simp_all
qed simp_all

lemma check_level_branch:
  "i < length xs \<Longrightarrow> check_branch h (xs ! i) (level_branch (merkle_levels h xs) i) (int i) = hd (merkle_root h xs)"
proof (induction h xs arbitrary: i rule: merkle_levels.induct)
  case (1 h xs)
  show ?case
  proof (cases "length xs > 1")
    case True
    let ?k = "min (i XOR 1) (length xs - 1)"
    have lb: "level_branch (merkle_levels h xs) i = xs ! ?k # level_branch (merkle_levels h (pair_up h xs)) (i div 2)"
      using True by (simp add: merkle_levels.simps [of h xs] merkle_levels.simps [of h "pair_up h xs"])
    have odd: "int i AND 1 \<noteq> 0 \<longleftrightarrow> odd i" by (simp add: and_one_eq) presburger
    have "odd i \<Longrightarrow> ?k = i - 1" using 1(2) sibling(2) [of i] by auto
    moreover have "even i \<Longrightarrow> ?k = min (Suc i) (length xs - 1)" using sibling(1) [of i] by simp
    ultimately have "(if int i AND 1 \<noteq> 0 then h (xs ! ?k) (xs ! i) else h (xs ! i) (xs ! ?k)) = pair_up h xs ! (i div 2)"
      using pair_up_nth [OF 1(2), of h] unfolding odd by (cases "odd i") simp_all
    then have "check_branch h (xs ! i) (level_branch (merkle_levels h xs) i) (int i) =
        check_branch h (pair_up h xs ! (i div 2)) (level_branch (merkle_levels h (pair_up h xs)) (i div 2)) (int (i div 2))"
      unfolding lb check_branch.simps by (simp only: zdiv_int of_nat_numeral)
    also have "\<dots> = hd (merkle_root h (pair_up h xs))" using 1(2) True by (intro 1(1)) auto
    also have "merkle_root h (pair_up h xs) = merkle_root h xs"
      using True by (simp add: merkle_root_def merkle_levels.simps [of h xs] merkle_levels.simps [of h "pair_up h xs"])
    finally show ?thesis .
  next
    case False
    with 1(2) have "i = 0" "merkle_levels h xs = [xs]" by (auto simp: merkle_levels.simps [of h xs])
    with 1(2) show ?thesis by (simp add: merkle_root_def hd_conv_nth)
  qed
qed

section \<open>The root binds the transactions\<close>

definition pair_collision :: "('a \<Rightarrow> 'a \<Rightarrow> 'a) \<Rightarrow> bool" where
  "pair_collision h \<longleftrightarrow> (\<exists>a b c d. (a, b) \<noteq> (c, d) \<and> h a b = h c d)"

lemma no_collisionD: "\<not> pair_collision h \<Longrightarrow> h a b = h c d \<Longrightarrow> a = c \<and> b = d"
  by (auto simp: pair_collision_def)

lemma pair_up_eq_Nil [simp]: "pair_up h xs = [] \<longleftrightarrow> xs = []" "[] = pair_up h xs \<longleftrightarrow> xs = []"
  by (cases xs rule: dup_end.cases; simp)+

lemma pair_up_inject:
  assumes "\<not> pair_collision h" "pair_up h xs = pair_up h ys" "\<not> dup_end xs" "\<not> dup_end ys"
  shows "xs = ys"
  using assms
proof (induction h xs arbitrary: ys rule: pair_up.induct)
  case (1 h)
  then show ?case by simp
next
  case (2 h x)
  then show ?case by (cases ys rule: dup_end.cases) (auto dest: no_collisionD split: if_splits)
next
  case (3 h x y xs)
  note inj = no_collisionD [OF 3(2)]
  show ?case
  proof (cases ys rule: dup_end.cases)
    case (1 z w zs)
    with 3(3) have "h x y = h z w" "pair_up h xs = pair_up h zs" by simp_all
    moreover have "\<not> dup_end xs" "\<not> dup_end zs" using 3(4,5) 1 by (auto split: if_splits)
    ultimately show ?thesis using 3(1) [OF 3(2), of zs] inj 1 by blast
  qed (use "3.prems" in \<open>auto dest: inj\<close>)
qed

lemma merkle_root_inject:
  assumes "\<not> pair_collision h" "merkle_root h xs = merkle_root h ys" "length (merkle_levels h xs) = length (merkle_levels h ys)"
    "\<not> merkle_mutated h xs" "\<not> merkle_mutated h ys"
  shows "xs = ys"
  using assms
proof (induction h xs arbitrary: ys rule: merkle_levels.induct)
  case (1 h xs)
  have ne: "merkle_levels h zs \<noteq> []" for zs by (subst merkle_levels.simps) simp
  show ?case
  proof (cases "length xs > 1")
    case True
    then have l: "merkle_levels h xs = xs # merkle_levels h (pair_up h xs)" by (simp add: merkle_levels.simps [of h xs])
    have "length ys > 1"
    proof (rule ccontr)
      assume "\<not> length ys > 1"
      then have "length (merkle_levels h ys) = 1" by (simp add: merkle_levels.simps [of h ys])
      with 1(4) l ne show False by simp
    qed
    then have l': "merkle_levels h ys = ys # merkle_levels h (pair_up h ys)" by (simp add: merkle_levels.simps [of h ys])
    have "pair_up h xs = pair_up h ys"
      using 1(3-6) ne by (intro 1(1) [OF True 1(2)]) (simp_all add: l l' merkle_root_def merkle_mutated_def)
    moreover have "\<not> dup_end xs" "\<not> dup_end ys" using 1(5,6) by (simp_all add: l l' merkle_mutated_def)
    ultimately show ?thesis by (rule pair_up_inject [OF 1(2)])
  next
    case False
    then have l: "merkle_levels h xs = [xs]" by (simp add: merkle_levels.simps [of h xs])
    have "merkle_levels h ys = [ys]"
      using 1(4) ne by (subst merkle_levels.simps) (simp add: l merkle_levels.simps [of h ys] split: if_splits)
    with l 1(3) show ?thesis by (simp add: merkle_root_def)
  qed
qed

text \<open>The number of rounds of the outer loop for a block of \<open>n\<close> transactions.\<close>

fun merkle_height :: "nat \<Rightarrow> nat" where
  "merkle_height n = (if n > 1 then Suc (merkle_height ((n + 1) div 2)) else 0)"

declare merkle_height.simps [simp del]

lemma length_merkle_levels: "length (merkle_levels h xs) = Suc (merkle_height (length xs))"
proof (induction h xs rule: merkle_levels.induct)
  case (1 h xs)
  then show ?case by (simp add: merkle_levels.simps [of h xs] merkle_height.simps [of "length xs"])
qed

section \<open>Properties\<close>

text \<open>
  C22: The branch of a transaction proves it: folding the branch that \<^verbatim>\<open>GetMerkleBranch\<close> extracts for a position
  over the transaction's hash at that position gives the root that \<^verbatim>\<open>BuildMerkleTree\<close> returns.
\<close>

theorem merkle_branch_proves:
  assumes "i < length (vtx b)" "vMerkleTree b = []"
  shows "CheckMerkleBranch H (GetHash H (vtx b ! i)) (GetMerkleBranch H b i) (int i) = fst (snd (BuildMerkleTree H b))"
proof -
  let ?ids = "map (GetHash H) (vtx b)"
  have ne: "?ids \<noteq> []" using assms(1) by auto
  have "GetMerkleBranch H b i = level_branch (merkle_levels (Hash2 H) ?ids) i"
    using assms(2) merkle_branch_eq [of "[]" "Hash2 H" ?ids "[]" i] by (simp add: GetMerkleBranch_def BuildMerkleTree_eq Let_def)
  then show ?thesis
    using assms(1) ne check_level_branch [of i ?ids "Hash2 H"] by (simp add: CheckMerkleBranch_def BuildMerkleTree_eq Let_def)
qed

theorem merkle_branch_proves_witness:
  "CheckMerkleBranch (\<lambda>bs. take 32 bs) (GetHash (\<lambda>bs. take 32 bs) null_tx)
     (GetMerkleBranch (\<lambda>bs. take 32 bs) ((CBlock_of header_SetNull)\<lparr> vtx := [null_tx, null_tx\<lparr> nLockTime := 7 \<rparr>, null_tx] \<rparr>) 2) 2 =
   fst (snd (BuildMerkleTree (\<lambda>bs. take 32 bs) ((CBlock_of header_SetNull)\<lparr> vtx := [null_tx, null_tx\<lparr> nLockTime := 7 \<rparr>, null_tx] \<rparr>)))"
  using merkle_branch_proves [of 2 "(CBlock_of header_SetNull)\<lparr> vtx := [null_tx, null_tx\<lparr> nLockTime := 7 \<rparr>, null_tx] \<rparr>" "\<lambda>bs. take 32 bs"]
  by (simp add: CBlock_of_def CBlockHeader.defs)


definition sample_block :: CBlock where
  "sample_block = (CBlock_of header_SetNull)\<lparr> vtx := [null_tx, null_tx\<lparr> nLockTime := 7 \<rparr>] \<rparr>"

lemma sample_block_tree: "snd (snd (BuildMerkleTree (take 32) sample_block)) = False \<and> vtx sample_block \<noteq> []"
  by code_simp


end
