(* ===== verification/MerkleBlock.thy ===== *)
theory MerkleBlock
  imports Block
begin

unbundle bit_operations_syntax

text \<open>
  Partial Merkle trees: \<^verbatim>\<open>src/src/merkleblock.h\<close> and \<^verbatim>\<open>src/src/merkleblock.cpp\<close>. \<open>h\<close> is the hash of two
  hashes. A tree built for a list of transaction ids and a selection of them gives back the Merkle root and the
  selected ids; a tree from elsewhere that gives the root of a list of ids only matches ids of the list,
  unless two pairs of hashes collide.
\<close>

section \<open>Building and extracting\<close>

record CPartialMerkleTree =
  nTransactions :: nat
  vBits :: "bool list"
  vHash :: "uint256 list"
  fBad :: bool

definition CalcTreeWidth :: "nat \<Rightarrow> nat \<Rightarrow> nat" where
  "CalcTreeWidth n height = (n + 2 ^ height - 1) div 2 ^ height"

fun CalcHash :: "(uint256 \<Rightarrow> uint256 \<Rightarrow> uint256) \<Rightarrow> nat \<Rightarrow> nat \<Rightarrow> nat \<Rightarrow> uint256 list \<Rightarrow> uint256" where
  "CalcHash h n 0 pos vTxid = vTxid ! pos"
| "CalcHash h n (Suc height) pos vTxid =
     (let left = CalcHash h n height (pos * 2) vTxid;
          right = (if pos * 2 + 1 < CalcTreeWidth n height then CalcHash h n height (pos * 2 + 1) vTxid else left)
      in h left right)"

definition parent_of_match :: "nat \<Rightarrow> nat \<Rightarrow> nat \<Rightarrow> bool list \<Rightarrow> bool" where
  "parent_of_match n height pos vMatch = list_ex (\<lambda>p. vMatch ! p) [pos * 2 ^ height ..< min ((pos + 1) * 2 ^ height) n]"

text \<open>The bits and the hashes that the traversal appends.\<close>

fun TraverseAndBuild ::
  "(uint256 \<Rightarrow> uint256 \<Rightarrow> uint256) \<Rightarrow> nat \<Rightarrow> nat \<Rightarrow> nat \<Rightarrow> uint256 list \<Rightarrow> bool list \<Rightarrow> bool list \<times> uint256 list" where
  "TraverseAndBuild h n height pos vTxid vMatch =
     (let fParentOfMatch = parent_of_match n height pos vMatch in
      if height = 0 \<or> \<not> fParentOfMatch then ([fParentOfMatch], [CalcHash h n height pos vTxid])
      else
        let (lb, lh) = TraverseAndBuild h n (height - 1) (pos * 2) vTxid vMatch;
            (rb, rh) = (if pos * 2 + 1 < CalcTreeWidth n (height - 1)
                        then TraverseAndBuild h n (height - 1) (pos * 2 + 1) vTxid vMatch else ([], []))
        in (fParentOfMatch # lb @ rb, lh @ rh))"

record extract_state =
  nBitsUsed :: nat
  nHashUsed :: nat
  matched :: "uint256 list"
  bad :: bool

fun TraverseAndExtract ::
  "(uint256 \<Rightarrow> uint256 \<Rightarrow> uint256) \<Rightarrow> CPartialMerkleTree \<Rightarrow> nat \<Rightarrow> nat \<Rightarrow> extract_state \<Rightarrow> uint256 \<times> extract_state" where
  "TraverseAndExtract h t height pos s =
     (if nBitsUsed s \<ge> length (vBits t) then (0, s\<lparr> bad := True \<rparr>)
      else
        let fParentOfMatch = vBits t ! nBitsUsed s; s1 = s\<lparr> nBitsUsed := nBitsUsed s + 1 \<rparr> in
        if height = 0 \<or> \<not> fParentOfMatch then
          if nHashUsed s1 \<ge> length (vHash t) then (0, s1\<lparr> bad := True \<rparr>)
          else
            let hash = vHash t ! nHashUsed s1; s2 = s1\<lparr> nHashUsed := nHashUsed s1 + 1 \<rparr> in
            (hash, if height = 0 \<and> fParentOfMatch then s2\<lparr> matched := matched s2 @ [hash] \<rparr> else s2)
        else
          let (left, s2) = TraverseAndExtract h t (height - 1) (pos * 2) s1 in
          if pos * 2 + 1 < CalcTreeWidth (nTransactions t) (height - 1) then
            let (right, s3) = TraverseAndExtract h t (height - 1) (pos * 2 + 1) s2 in
            (h left right, if right = left then s3\<lparr> bad := True \<rparr> else s3)
          else (h left left, s2))"

declare TraverseAndBuild.simps [simp del] TraverseAndExtract.simps [simp del]

lemma CalcTreeWidth_less: "p < CalcTreeWidth n height \<longleftrightarrow> p * 2 ^ height < n"
proof -
  have "p < CalcTreeWidth n height \<longleftrightarrow> (p + 1) * 2 ^ height \<le> n + 2 ^ height - 1"
    by (simp add: CalcTreeWidth_def Suc_le_eq [symmetric] less_eq_div_iff_mult_less_eq)
  moreover have "(1 :: nat) \<le> 2 ^ height" by simp
  ultimately show ?thesis unfolding add_mult_distrib nat_mult_1 by arith
qed

function calc_height :: "nat \<Rightarrow> nat \<Rightarrow> nat" where
  "calc_height n nHeight = (if CalcTreeWidth n nHeight > 1 then calc_height n (nHeight + 1) else nHeight)"
  by pat_completeness auto
termination
proof (relation "measure (\<lambda>(n, nHeight). n - nHeight)")
  fix n k :: nat assume "1 < CalcTreeWidth n k"
  then have "2 ^ k < n" by (simp add: CalcTreeWidth_less)
  then have "k < n" using less_exp [of k] by (meson less_trans)
  then show "((n, k + 1), (n, k)) \<in> measure (\<lambda>(n, nHeight). n - nHeight)" by simp
qed simp

declare calc_height.simps [simp del]

definition CPartialMerkleTree_of :: "(uint256 \<Rightarrow> uint256 \<Rightarrow> uint256) \<Rightarrow> uint256 list \<Rightarrow> bool list \<Rightarrow> CPartialMerkleTree" where
  "CPartialMerkleTree_of h vTxid vMatch =
     (let n = length vTxid; (bits, hashes) = TraverseAndBuild h n (calc_height n 0) 0 vTxid vMatch in
      \<lparr> nTransactions = n, vBits = bits, vHash = hashes, fBad = False \<rparr>)"

text \<open>The root, zero on failure, with the matched ids.\<close>

definition ExtractMatches :: "(uint256 \<Rightarrow> uint256 \<Rightarrow> uint256) \<Rightarrow> CPartialMerkleTree \<Rightarrow> uint256 \<times> uint256 list" where
  "ExtractMatches h t =
     (if nTransactions t = 0 then (0, [])
      else if nTransactions t > 2000000 div 60 then (0, [])
      else if length (vHash t) > nTransactions t then (0, [])
      else if length (vBits t) < length (vHash t) then (0, [])
      else
        let (hashMerkleRoot, s) = TraverseAndExtract h t (calc_height (nTransactions t) 0) 0
              \<lparr> nBitsUsed = 0, nHashUsed = 0, matched = [], bad = fBad t \<rparr> in
        if bad s then (0, matched s)
        else if (nBitsUsed s + 7) div 8 \<noteq> (length (vBits t) + 7) div 8 then (0, matched s)
        else if nHashUsed s \<noteq> length (vHash t) then (0, matched s)
        else (hashMerkleRoot, matched s))"

section \<open>Serialized form of the bits\<close>

definition pack_bits :: "bool list \<Rightarrow> valtype" where
  "pack_bits bits =
     foldl (\<lambda>vBytes p. vBytes[p div 8 := vBytes ! (p div 8) OR push_bit (p mod 8) (of_bool (bits ! p))])
       (replicate ((length bits + 7) div 8) 0) [0..<length bits]"

definition unpack_bits :: "valtype \<Rightarrow> bool list" where
  "unpack_bits vBytes = map (\<lambda>p. vBytes ! (p div 8) AND push_bit (p mod 8) 1 \<noteq> 0) [0..<length vBytes * 8]"

definition ser_CPartialMerkleTree :: "CPartialMerkleTree \<Rightarrow> valtype" where
  "ser_CPartialMerkleTree t =
     ser_writedata32 (of_nat (nTransactions t)) @ ser_vector ser_blob (vHash t) @ ser_bytes (pack_bits (vBits t))"

definition unser_CPartialMerkleTree :: "CPartialMerkleTree reader" where
  "unser_CPartialMerkleTree =
     rd_bind ser_readdata32 (\<lambda>n. rd_bind (unser_vector unser_blob) (\<lambda>hashes. rd_bind unser_bytes (\<lambda>vBytes.
       rd_return \<lparr> nTransactions = unat n, vBits = unpack_bits vBytes, vHash = hashes, fBad = False \<rparr>)))"

record CMerkleBlock =
  mb_header :: CBlockHeader
  mb_txn :: CPartialMerkleTree
  vMatchedTxn :: "(nat \<times> uint256) list"

text \<open>\<open>relevant\<close> is \<^verbatim>\<open>filter.IsRelevantAndUpdate\<close>, which may change the filter.\<close>

fun merkle_matches ::
  "(valtype \<Rightarrow> valtype) \<Rightarrow> ('f \<Rightarrow> CTransaction \<Rightarrow> bool \<times> 'f) \<Rightarrow> 'f \<Rightarrow> nat \<Rightarrow> CTransaction list \<Rightarrow>
   bool list \<times> (nat \<times> uint256) list \<times> 'f" where
  "merkle_matches H relevant flt i [] = ([], [], flt)"
| "merkle_matches H relevant flt i (tx # txs) =
     (let (m, flt') = relevant flt tx;
          (ms, matched, flt'') = merkle_matches H relevant flt' (i + 1) txs
      in (m # ms, (if m then (i, GetHash H tx) # matched else matched), flt''))"

definition CMerkleBlock_filtered ::
  "(valtype \<Rightarrow> valtype) \<Rightarrow> ('f \<Rightarrow> CTransaction \<Rightarrow> bool \<times> 'f) \<Rightarrow> CBlock \<Rightarrow> 'f \<Rightarrow> CMerkleBlock \<times> 'f" where
  "CMerkleBlock_filtered H relevant block flt =
     (let (vMatch, matched, flt') = merkle_matches H relevant flt 0 (vtx block);
          vHashes = map (GetHash H) (vtx block)
      in (\<lparr> mb_header = GetBlockHeader block, mb_txn = CPartialMerkleTree_of (Hash2 H) vHashes vMatch,
            vMatchedTxn = matched \<rparr>, flt'))"

definition CMerkleBlock_txids :: "(valtype \<Rightarrow> valtype) \<Rightarrow> CBlock \<Rightarrow> uint256 set \<Rightarrow> CMerkleBlock" where
  "CMerkleBlock_txids H block txids =
     (let vHashes = map (GetHash H) (vtx block) in
      \<lparr> mb_header = GetBlockHeader block,
        mb_txn = CPartialMerkleTree_of (Hash2 H) vHashes (map (\<lambda>x. x \<in> txids) vHashes), vMatchedTxn = [] \<rparr>)"

section \<open>The tree is the Merkle tree\<close>

lemma CalcTreeWidth_0 [simp]: "CalcTreeWidth n 0 = n"
  by (simp add: CalcTreeWidth_def)

lemma CalcTreeWidth_Suc: "CalcTreeWidth n (Suc k) = (CalcTreeWidth n k + 1) div 2"
proof (rule antisym)
  have "p < CalcTreeWidth n (Suc k) \<longleftrightarrow> 2 * p < CalcTreeWidth n k" for p
    unfolding CalcTreeWidth_less by (simp only: power_Suc ac_simps)
  then have eq: "p < CalcTreeWidth n (Suc k) \<longleftrightarrow> p < (CalcTreeWidth n k + 1) div 2" for p by presburger
  show "CalcTreeWidth n (Suc k) \<le> (CalcTreeWidth n k + 1) div 2" using eq [of "(CalcTreeWidth n k + 1) div 2"] by simp
  show "(CalcTreeWidth n k + 1) div 2 \<le> CalcTreeWidth n (Suc k)" using eq [of "CalcTreeWidth n (Suc k)"] by simp
qed

lemma length_level: "length ((pair_up h ^^ k) xs) = CalcTreeWidth (length xs) k"
  by (induction k) (simp_all add: CalcTreeWidth_Suc)

lemma CalcHash_level:
  "pos < CalcTreeWidth (length xs) k \<Longrightarrow> CalcHash h (length xs) k pos xs = (pair_up h ^^ k) xs ! pos"
proof (induction k arbitrary: pos)
  case (Suc k)
  let ?l = "(pair_up h ^^ k) xs"
  have w: "2 * pos < length ?l" using Suc.prems unfolding length_level CalcTreeWidth_less by (simp only: power_Suc ac_simps)
  have "pair_up h ?l ! (2 * pos div 2) = h (?l ! (2 * pos)) (?l ! min (Suc (2 * pos)) (length ?l - 1))"
    by (subst pair_up_nth [OF w]) simp
  moreover have "min (Suc (2 * pos)) (length ?l - 1) = (if Suc (2 * pos) < length ?l then Suc (2 * pos) else 2 * pos)"
    using w by auto
  ultimately show ?case using Suc.IH w by (simp add: Let_def mult.commute length_level)
qed simp

lemma merkle_root_pair_up: "length xs > 1 \<Longrightarrow> merkle_root h (pair_up h xs) = merkle_root h xs"
  by (simp add: merkle_root_def merkle_levels.simps [of h xs] merkle_levels.simps [of h "pair_up h xs"])

lemma calc_height_level:
  "merkle_root h ((pair_up h ^^ k) xs) = (pair_up h ^^ calc_height (length xs) k) xs"
proof (induction "length xs" k rule: calc_height.induct)
  case (1 k)
  show ?case
  proof (cases "CalcTreeWidth (length xs) k > 1")
    case True
    then have "merkle_root h ((pair_up h ^^ k) xs) = merkle_root h ((pair_up h ^^ (k + 1)) xs)"
      using merkle_root_pair_up [of "(pair_up h ^^ k) xs" h] by (simp add: length_level)
    with 1 True show ?thesis by (simp add: calc_height.simps [of _ k])
  next
    case False
    then show ?thesis
      by (simp add: calc_height.simps [of _ k] merkle_root_def merkle_levels.simps [of h "(pair_up h ^^ k) xs"] length_level)
  qed
qed

lemma calc_height_width: "CalcTreeWidth n (calc_height n k) \<le> 1"
  by (induction n k rule: calc_height.induct) (subst calc_height.simps, simp add: calc_height.simps)

lemma CalcHash_root:
  assumes "xs \<noteq> []"
  shows "CalcHash h (length xs) (calc_height (length xs) 0) 0 xs = hd (merkle_root h xs)"
proof -
  have "0 < CalcTreeWidth (length xs) (calc_height (length xs) 0)" using assms by (simp add: CalcTreeWidth_less)
  then show ?thesis using CalcHash_level [of 0 xs "calc_height (length xs) 0" h] calc_height_level [of h 0 xs]
    by (simp add: hd_conv_nth length_level flip: length_greater_0_conv)
qed

section \<open>Extraction inverts building\<close>

definition matches :: "uint256 list \<Rightarrow> bool list \<Rightarrow> nat \<Rightarrow> nat \<Rightarrow> uint256 list" where
  "matches vTxid vMatch a b = map (\<lambda>p. vTxid ! p) (filter (\<lambda>p. vMatch ! p) [a ..< min b (length vTxid)])"

lemma upt_split: "a \<le> b \<Longrightarrow> b \<le> c \<Longrightarrow> [a..<b] @ [b..<c] = [a..<c]"
  by (metis le_Suc_ex upt_add_eq_append)

lemma matches_append: "a \<le> b \<Longrightarrow> b \<le> c \<Longrightarrow> matches t m a b @ matches t m b c = matches t m a c"
proof -
  assume "a \<le> b" "b \<le> c"
  then have "[a ..< min b (length t)] @ [b ..< min c (length t)] = [a ..< min c (length t)]"
    by (cases "b \<le> length t") (auto simp: min_def upt_split)
  then show ?thesis by (simp add: matches_def flip: filter_append map_append)
qed

lemma matches_none: "\<not> parent_of_match (length t) k pos m \<Longrightarrow> matches t m (pos * 2 ^ k) ((pos + 1) * 2 ^ k) = []"
  by (auto simp: matches_def parent_of_match_def list_ex_iff filter_empty_conv)

lemma matches_all: "matches t m 0 (length t) = map fst (filter snd (zip t m))" if "length m = length t"
proof -
  have "zip t m = map (\<lambda>p. (t ! p, m ! p)) [0..<length t]" using that by (intro nth_equalityI) auto
  then show ?thesis by (simp add: matches_def filter_map comp_def)
qed

definition siblings_differ :: "(uint256 \<Rightarrow> uint256 \<Rightarrow> uint256) \<Rightarrow> uint256 list \<Rightarrow> bool" where
  "siblings_differ h vTxid \<longleftrightarrow>
     (\<forall>k pos. 2 * pos + 1 < length ((pair_up h ^^ k) vTxid) \<longrightarrow>
        (pair_up h ^^ k) vTxid ! (2 * pos) \<noteq> (pair_up h ^^ k) vTxid ! (2 * pos + 1))"

lemma range_halves:
  fixes pos k :: nat
  shows "pos * 2 ^ Suc k = pos * 2 * 2 ^ k" "(pos * 2 + 1) * 2 ^ k = (pos * 2 * 2 ^ k) + 2 ^ k"
    "(pos + 1) * 2 ^ Suc k = (pos * 2 + 1 + 1) * 2 ^ k" "pos * 2 * 2 ^ k \<le> (pos * 2 + 1) * 2 ^ k"
    "(pos * 2 + 1) * 2 ^ k \<le> (pos * 2 + 1 + 1) * 2 ^ k"
  by (simp_all add: algebra_simps)

lemma extract_build:
  assumes sib: "siblings_differ h vTxid" and n: "nTransactions t = length vTxid" and m: "length vMatch = length vTxid"
  shows "pos < CalcTreeWidth (length vTxid) k \<Longrightarrow>
    TraverseAndBuild h (length vTxid) k pos vTxid vMatch = (bits, hashes) \<Longrightarrow>
    vBits t = pb @ bits @ qb \<Longrightarrow> vHash t = ph @ hashes @ qh \<Longrightarrow>
    nBitsUsed s = length pb \<Longrightarrow> nHashUsed s = length ph \<Longrightarrow>
    TraverseAndExtract h t k pos s = (CalcHash h (length vTxid) k pos vTxid,
      s\<lparr> nBitsUsed := length (pb @ bits), nHashUsed := length (ph @ hashes),
        matched := matched s @ matches vTxid vMatch (pos * 2 ^ k) ((pos + 1) * 2 ^ k) \<rparr>)"
proof (induction k arbitrary: pos bits hashes pb qb ph qh s)
  case 0
  then have "pos < length vTxid" by simp
  then have "[pos ..< min (Suc pos) (length vTxid)] = [pos]" by (simp add: min_def)
  with 0 show ?case
    by (subst TraverseAndExtract.simps)
      (auto simp: TraverseAndBuild.simps [of _ _ 0] parent_of_match_def matches_def nth_append Let_def)
next
  case (Suc k)
  let ?n = "length vTxid"
  show ?case
  proof (cases "parent_of_match ?n (Suc k) pos vMatch")
    case False
    with Suc.prems show ?thesis
      using matches_none [OF False]
      by (subst TraverseAndExtract.simps) (auto simp: TraverseAndBuild.simps [of _ _ "Suc k"] nth_append Let_def simp del: CalcHash.simps)
  next
    case True
    obtain lb lh where l: "TraverseAndBuild h ?n k (pos * 2) vTxid vMatch = (lb, lh)" by (rule prod.exhaust)
    have posl: "pos * 2 < CalcTreeWidth ?n k" using Suc.prems(1) unfolding CalcTreeWidth_less by (simp only: power_Suc ac_simps)
    let ?s1 = "s\<lparr> nBitsUsed := length (pb @ [True]) \<rparr>"
    show ?thesis
    proof (cases "pos * 2 + 1 < CalcTreeWidth ?n k")
      case two: True
      obtain rb rh where r: "TraverseAndBuild h ?n k (pos * 2 + 1) vTxid vMatch = (rb, rh)" by (rule prod.exhaust)
      have b: "bits = True # lb @ rb" and hh: "hashes = lh @ rh"
        using Suc.prems(2) True two l r by (simp_all add: TraverseAndBuild.simps [of _ _ "Suc k"])
      have neq: "CalcHash h ?n k (pos * 2 + 1) vTxid \<noteq> CalcHash h ?n k (pos * 2) vTxid"
        using sib [unfolded siblings_differ_def, rule_format, of pos k] two posl
        by (simp add: CalcHash_level length_level mult.commute)
      have el: "TraverseAndExtract h t k (pos * 2) ?s1 = (CalcHash h ?n k (pos * 2) vTxid,
          ?s1\<lparr> nBitsUsed := length ((pb @ [True]) @ lb), nHashUsed := length (ph @ lh),
            matched := matched ?s1 @ matches vTxid vMatch (pos * 2 * 2 ^ k) ((pos * 2 + 1) * 2 ^ k) \<rparr>)" (is "_ = (_, ?s2)")
        using Suc.prems by (intro Suc.IH [OF posl l, where qb = "rb @ qb" and qh = "rh @ qh"]) (simp_all add: b hh)
      have er: "TraverseAndExtract h t k (pos * 2 + 1) ?s2 = (CalcHash h ?n k (pos * 2 + 1) vTxid,
          ?s2\<lparr> nBitsUsed := length (((pb @ [True]) @ lb) @ rb), nHashUsed := length ((ph @ lh) @ rh),
            matched := matched ?s2 @ matches vTxid vMatch ((pos * 2 + 1) * 2 ^ k) ((pos * 2 + 1 + 1) * 2 ^ k) \<rparr>)"
        using Suc.prems by (intro Suc.IH [OF two r, where qb = qb and qh = qh]) (simp_all add: b hh)
      have ms: "matches vTxid vMatch (pos * 2 * 2 ^ k) ((pos * 2 + 1) * 2 ^ k) @ matches vTxid vMatch ((pos * 2 + 1) * 2 ^ k) ((pos * 2 + 1 + 1) * 2 ^ k)
          = matches vTxid vMatch (pos * 2 ^ Suc k) ((pos + 1) * 2 ^ Suc k)"
        unfolding range_halves(3) unfolding range_halves(1) by (rule matches_append) (simp_all only: range_halves(4,5))
      have bit: "nBitsUsed s < length (vBits t)" "vBits t ! nBitsUsed s" using Suc.prems by (simp_all add: b nth_append)
      have "TraverseAndExtract h t (Suc k) pos s =
        (case TraverseAndExtract h t k (pos * 2) ?s1 of (left, s2) \<Rightarrow>
           case TraverseAndExtract h t k (pos * 2 + 1) s2 of (right, s3) \<Rightarrow>
             (h left right, if right = left then s3\<lparr> bad := True \<rparr> else s3))"
        using bit two n Suc.prems(5) by (subst TraverseAndExtract.simps) (simp add: Let_def)
      then show ?thesis unfolding el prod.case er ms [symmetric] using neq two by (simp add: b hh Let_def)
    next
      case one: False
      have b: "bits = True # lb" and hh: "hashes = lh"
        using Suc.prems(2) True one l by (simp_all add: TraverseAndBuild.simps [of _ _ "Suc k"])
      have el: "TraverseAndExtract h t k (pos * 2) ?s1 = (CalcHash h ?n k (pos * 2) vTxid,
          ?s1\<lparr> nBitsUsed := length ((pb @ [True]) @ lb), nHashUsed := length (ph @ lh),
            matched := matched ?s1 @ matches vTxid vMatch (pos * 2 * 2 ^ k) ((pos * 2 + 1) * 2 ^ k) \<rparr>)" (is "_ = (_, ?s2)")
        using Suc.prems by (intro Suc.IH [OF posl l, where qb = qb and qh = qh]) (simp_all add: b hh)
      have "matches vTxid vMatch ((pos * 2 + 1) * 2 ^ k) ((pos * 2 + 1 + 1) * 2 ^ k) = []"
        using one by (simp add: matches_def CalcTreeWidth_less)
      then have ms: "matches vTxid vMatch (pos * 2 * 2 ^ k) ((pos * 2 + 1) * 2 ^ k) = matches vTxid vMatch (pos * 2 ^ Suc k) ((pos + 1) * 2 ^ Suc k)"
        unfolding range_halves(3) unfolding range_halves(1) using matches_append [OF range_halves(4,5), of vTxid vMatch pos k] by simp
      have bit: "nBitsUsed s < length (vBits t)" "vBits t ! nBitsUsed s" using Suc.prems by (simp_all add: b nth_append)
      have "TraverseAndExtract h t (Suc k) pos s =
        (case TraverseAndExtract h t k (pos * 2) ?s1 of (left, s2) \<Rightarrow> (h left left, s2))"
        using bit one n Suc.prems(5) by (subst TraverseAndExtract.simps) (simp add: Let_def)
      then show ?thesis unfolding el prod.case ms [symmetric] using one by (simp add: b hh Let_def)
    qed
  qed
qed

lemma build_sizes:
  "pos < CalcTreeWidth n k \<Longrightarrow> TraverseAndBuild h n k pos vTxid vMatch = (bits, hashes) \<Longrightarrow>
   length hashes \<le> length bits \<and> length hashes \<le> min ((pos + 1) * 2 ^ k) n - pos * 2 ^ k"
proof (induction k arbitrary: pos bits hashes)
  case 0
  then show ?case by (auto simp: TraverseAndBuild.simps [of _ _ 0] Let_def)
next
  case (Suc k)
  let ?a = "pos * 2 * 2 ^ k" and ?b = "(pos * 2 + 1) * 2 ^ k" and ?c = "(pos * 2 + 1 + 1) * 2 ^ k"
  have posl: "pos * 2 < CalcTreeWidth n k" using Suc.prems(1) unfolding CalcTreeWidth_less by (simp only: power_Suc ac_simps)
  then have a: "?a < n" by (simp add: CalcTreeWidth_less)
  have ord: "?a \<le> ?b" "?b \<le> ?c" "?a < ?b" by (simp_all add: range_halves(4,5))
  show ?case
  proof (cases "parent_of_match n (Suc k) pos vMatch")
    case False
    with Suc.prems have "length hashes = 1" "length bits = 1" by (auto simp: TraverseAndBuild.simps [of _ _ "Suc k"] Let_def)
    then show ?thesis unfolding range_halves(3) unfolding range_halves(1) using a ord by (auto simp: min_def)
  next
    case True
    obtain lb lh where l: "TraverseAndBuild h n k (pos * 2) vTxid vMatch = (lb, lh)" by (rule prod.exhaust)
    note L = Suc.IH [OF posl l]
    show ?thesis
    proof (cases "pos * 2 + 1 < CalcTreeWidth n k")
      case two: True
      obtain rb rh where r: "TraverseAndBuild h n k (pos * 2 + 1) vTxid vMatch = (rb, rh)" by (rule prod.exhaust)
      have "bits = True # lb @ rb" "hashes = lh @ rh"
        using Suc.prems(2) True two l r by (simp_all add: TraverseAndBuild.simps [of _ _ "Suc k"])
      moreover have "?b < n" using two by (simp add: CalcTreeWidth_less)
      ultimately show ?thesis using L Suc.IH [OF two r] ord a
        unfolding range_halves(3) unfolding range_halves(1) by (auto simp: min_def split: if_splits)
    next
      case False
      then have "bits = True # lb" "hashes = lh" "n \<le> ?b"
        using Suc.prems(2) True l by (simp_all add: TraverseAndBuild.simps [of _ _ "Suc k"] CalcTreeWidth_less)
      then show ?thesis using L ord a
        unfolding range_halves(3) unfolding range_halves(1) by (auto simp: min_def split: if_splits)
    qed
  qed
qed

section \<open>Matches of a foreign tree\<close>

lemma extract_Suc:
  "nBitsUsed s < length (vBits t) \<Longrightarrow> vBits t ! nBitsUsed s \<Longrightarrow>
   TraverseAndExtract h t k (pos * 2) (s\<lparr> nBitsUsed := nBitsUsed s + 1 \<rparr>) = (l, s2) \<Longrightarrow>
   TraverseAndExtract h t k (pos * 2 + 1) s2 = (r, s3) \<Longrightarrow>
   TraverseAndExtract h t (Suc k) pos s =
     (if pos * 2 + 1 < CalcTreeWidth (nTransactions t) k
      then (h l r, if r = l then s3\<lparr> bad := True \<rparr> else s3) else (h l l, s2))"
  by (subst TraverseAndExtract.simps) (simp add: Let_def)

text \<open>Once an error is flagged it stays, and ids are only appended.\<close>

lemma extract_mono:
  "TraverseAndExtract h t k pos s = (x, s') \<Longrightarrow> (bad s \<longrightarrow> bad s') \<and> set (matched s) \<subseteq> set (matched s')"
proof (induction k arbitrary: pos s x s')
  case 0
  then show ?case by (subst (asm) TraverseAndExtract.simps) (auto simp: Let_def split: if_splits)
next
  case (Suc k)
  show ?case
  proof (cases "nBitsUsed s \<ge> length (vBits t) \<or> \<not> vBits t ! nBitsUsed s")
    case True
    with Suc.prems show ?thesis by (subst (asm) TraverseAndExtract.simps) (auto simp: Let_def split: if_splits)
  next
    case False
    obtain l s2 where l: "TraverseAndExtract h t k (pos * 2) (s\<lparr> nBitsUsed := nBitsUsed s + 1 \<rparr>) = (l, s2)" by (rule prod.exhaust)
    obtain r s3 where r: "TraverseAndExtract h t k (pos * 2 + 1) s2 = (r, s3)" by (rule prod.exhaust)
    have "s' = s2 \<or> s' = s3 \<or> s' = s3\<lparr> bad := True \<rparr>"
      using Suc.prems extract_Suc [OF _ _ l r] False by (auto split: if_splits)
    with Suc.IH [OF l] Suc.IH [OF r] show ?thesis by auto
  qed
qed

lemma extract_sound:
  assumes nc: "\<not> pair_collision h" and n: "nTransactions t = length vTxid"
  shows "TraverseAndExtract h t k pos s = (x, s') \<Longrightarrow> \<not> bad s' \<Longrightarrow> pos < CalcTreeWidth (length vTxid) k \<Longrightarrow>
    x = CalcHash h (length vTxid) k pos vTxid \<Longrightarrow> set (matched s') \<subseteq> set (matched s) \<union> set vTxid"
proof (induction k arbitrary: pos s x s')
  case 0
  then show ?case by (subst (asm) TraverseAndExtract.simps) (auto simp: Let_def split: if_splits)
next
  case (Suc k)
  let ?n = "length vTxid"
  show ?case
  proof (cases "nBitsUsed s \<ge> length (vBits t) \<or> \<not> vBits t ! nBitsUsed s")
    case True
    with Suc.prems(1) show ?thesis by (subst (asm) TraverseAndExtract.simps) (auto simp: Let_def split: if_splits)
  next
    case node: False
    have posl: "pos * 2 < CalcTreeWidth ?n k" using Suc.prems(3) unfolding CalcTreeWidth_less by (simp only: power_Suc ac_simps)
    obtain l s2 where l: "TraverseAndExtract h t k (pos * 2) (s\<lparr> nBitsUsed := nBitsUsed s + 1 \<rparr>) = (l, s2)" by (rule prod.exhaust)
    obtain r s3 where r: "TraverseAndExtract h t k (pos * 2 + 1) s2 = (r, s3)" by (rule prod.exhaust)
    show ?thesis
    proof (cases "pos * 2 + 1 < CalcTreeWidth ?n k")
      case two: True
      have e: "x = h l r" "s' = (if r = l then s3\<lparr> bad := True \<rparr> else s3)"
        using Suc.prems(1) extract_Suc [OF _ _ l r] node two n by (auto simp del: One_nat_def split: if_splits)
      then have "\<not> bad s3" "matched s' = matched s3" using Suc.prems(2) by (auto split: if_splits)
      moreover from this have "\<not> bad s2" using extract_mono [OF r] by blast
      moreover have "h l r = h (CalcHash h ?n k (pos * 2) vTxid) (CalcHash h ?n k (pos * 2 + 1) vTxid)"
        using Suc.prems(4) e(1) two by (simp add: Let_def)
      then have "l = CalcHash h ?n k (pos * 2) vTxid" "r = CalcHash h ?n k (pos * 2 + 1) vTxid"
        using no_collisionD [OF nc] by blast+
      ultimately show ?thesis using Suc.IH [OF l _ posl] Suc.IH [OF r _ two] by fastforce
    next
      case False
      have e: "x = h l l" "s' = s2"
        using Suc.prems(1) extract_Suc [OF _ _ l r] node False n by (auto split: if_splits)
      have "h l l = h (CalcHash h ?n k (pos * 2) vTxid) (CalcHash h ?n k (pos * 2) vTxid)"
        using Suc.prems(4) e(1) False by (simp add: Let_def)
      then have "l = CalcHash h ?n k (pos * 2) vTxid" using no_collisionD [OF nc] by blast
      then show ?thesis using Suc.IH [OF l _ posl] Suc.prems(2) e(2) by simp
    qed
  qed
qed

lemma extract_whole:
  assumes n: "0 < length vTxid" "length vTxid \<le> 2000000 div 60" and m: "length vMatch = length vTxid"
    and sib: "siblings_differ h vTxid"
  shows "ExtractMatches h (CPartialMerkleTree_of h vTxid vMatch) = (hd (merkle_root h vTxid), map fst (filter snd (zip vTxid vMatch)))"
proof -
  let ?n = "length vTxid" let ?k = "calc_height ?n 0"
  obtain bits hashes where b: "TraverseAndBuild h ?n ?k 0 vTxid vMatch = (bits, hashes)" by (rule prod.exhaust)
  let ?t = "\<lparr> nTransactions = ?n, vBits = bits, vHash = hashes, fBad = False \<rparr>"
  have w: "0 < CalcTreeWidth ?n ?k" using n(1) by (simp add: CalcTreeWidth_less)
  have t: "CPartialMerkleTree_of h vTxid vMatch = ?t" by (simp add: CPartialMerkleTree_of_def b)
  have ex: "TraverseAndExtract h ?t ?k 0 \<lparr> nBitsUsed = 0, nHashUsed = 0, matched = [], bad = False \<rparr> =
      (CalcHash h ?n ?k 0 vTxid, \<lparr> nBitsUsed = length bits, nHashUsed = length hashes, matched = matches vTxid vMatch 0 (2 ^ ?k), bad = False \<rparr>)"
    using extract_build [OF sib _ m w b, of ?t "[]" "[]" "[]" "[]" "\<lparr> nBitsUsed = 0, nHashUsed = 0, matched = [], bad = False \<rparr>"] by simp
  have "?n \<le> 2 ^ ?k" using calc_height_width [of ?n 0] CalcTreeWidth_less [of 1 ?n ?k] by simp
  then have "matches vTxid vMatch 0 (2 ^ ?k) = matches vTxid vMatch 0 ?n" by (simp add: matches_def min_def)
  then have ms: "matches vTxid vMatch 0 (2 ^ ?k) = map fst (filter snd (zip vTxid vMatch))" using matches_all [OF m] by simp
  have "length hashes \<le> ?n" "length hashes \<le> length bits" using build_sizes [OF w b] by auto
  then show ?thesis
    using n CalcHash_root [of vTxid h] by (simp add: t ExtractMatches_def ex ms)
qed

lemma extract_txids:
  assumes "vtx b \<noteq> []" and "length (vtx b) \<le> 2000000 div 60" and "siblings_differ (Hash2 H) (map (GetHash H) (vtx b))"
  shows "ExtractMatches (Hash2 H) (mb_txn (CMerkleBlock_txids H b txids)) =
    (fst (snd (BuildMerkleTree H b)), filter (\<lambda>x. x \<in> txids) (map (GetHash H) (vtx b)))"
proof -
  have "map fst (filter snd (zip xs (map f xs))) = filter f xs" for xs :: "uint256 list" and f
    by (induction xs) simp_all
  then show ?thesis
    using extract_whole [OF _ _ _ assms(3)] assms(1,2)
    by (simp add: CMerkleBlock_txids_def Let_def BuildMerkleTree_eq del: map_map)
qed

section \<open>Properties\<close>

text \<open>
  C24: What a node sends to a filtered peer is enough: from the partial tree built for a block and a set of
  transaction ids, extraction recovers the block's Merkle root and exactly the ids of the block in the set, in
  order, as long as no two neighbouring hashes of the tree are equal.
\<close>

theorem merkle_block_extracts:
  assumes "vtx b \<noteq> []" and "length (vtx b) \<le> 2000000 div 60" and "siblings_differ (Hash2 H) (map (GetHash H) (vtx b))"
  shows "ExtractMatches (Hash2 H) (mb_txn (CMerkleBlock_txids H b txids)) =
    (fst (snd (BuildMerkleTree H b)), filter (\<lambda>x. x \<in> txids) (map (GetHash H) (vtx b)))"
  using assms by (rule extract_txids)

lemma sample_block_siblings: "siblings_differ (Hash2 (take 32)) (map (GetHash (take 32)) (vtx sample_block))"
proof -
  let ?ids = "map (GetHash (take 32)) (vtx sample_block)"
  have l: "length ?ids = 2 \<and> ?ids ! 0 \<noteq> ?ids ! 1" by code_simp
  have "k = 0 \<and> pos = 0" if "2 * pos + 1 < CalcTreeWidth 2 k" for k pos
  proof -
    from that have lt: "(2 * pos + 1) * 2 ^ k < 2" by (simp only: CalcTreeWidth_less)
    have "2 ^ k \<le> (2 * pos + 1) * 2 ^ k" by simp
    then have "2 ^ k < (2 :: nat)" using lt by (rule le_less_trans)
    then have "k = 0" by (cases k) simp_all
    with lt show ?thesis by simp
  qed
  then show ?thesis using l unfolding siblings_differ_def length_level by force
qed

theorem merkle_block_extracts_witness:
  "ExtractMatches (Hash2 (take 32)) (mb_txn (CMerkleBlock_txids (take 32) sample_block {GetHash (take 32) null_tx})) =
     (fst (snd (BuildMerkleTree (take 32) sample_block)),
      filter (\<lambda>x. x \<in> {GetHash (take 32) null_tx}) (map (GetHash (take 32)) (vtx sample_block)))"
  by (rule merkle_block_extracts [OF _ _ sample_block_siblings]) code_simp+


lemma sample_block_root:
  "fst (snd (BuildMerkleTree (take 32) sample_block)) \<noteq> 0 \<and> length (vtx sample_block) = 2 \<and>
   filter (\<lambda>x. x \<in> {GetHash (take 32) null_tx}) (map (GetHash (take 32)) (vtx sample_block)) = [GetHash (take 32) null_tx]"
  by code_simp


end
