(* ===== verification/Incremental_Tree.thy ===== *)
theory Incremental_Tree
  imports Transaction Hash_Correctness
begin

unbundle bit_operations_syntax

text \<open>
  The incremental Merkle tree of note commitments: \<^verbatim>\<open>src/src/zcash/IncrementalMerkleTree.hpp\<close> and
  \<^verbatim>\<open>IncrementalMerkleTree.cpp\<close>. The classes are templates over the depth and the hash; the definitions take the depth, the
  function \<^verbatim>\<open>Hash::combine\<close> (\<open>c\<close>) and the default hash (\<open>z\<close>) as arguments, and the instance of
  the program, depth 29 over \<^verbatim>\<open>SHA256Compress\<close>, is at the end. An exception is \<open>Throw\<close>. A tree that keeps only the collapsed
  left subtrees is shown to have the root of the complete tree of its leaves padded with empty ones, and a witness to keep
  authenticating its leaf while leaves are added.
\<close>

section \<open>The tree\<close>

record 'h IncrementalMerkleTree =
  left :: "'h option"
  right :: "'h option"
  parents :: "'h option list"

definition IncrementalMerkleTree_empty :: "'h IncrementalMerkleTree" where
  "IncrementalMerkleTree_empty = \<lparr> left = None, right = None, parents = [] \<rparr>"

primrec empty_root :: "('h \<Rightarrow> 'h \<Rightarrow> 'h) \<Rightarrow> 'h \<Rightarrow> nat \<Rightarrow> 'h" where
  "empty_root c z 0 = z"
| "empty_root c z (Suc d) = c (empty_root c z d) (empty_root c z d)"

text \<open>\<^verbatim>\<open>PathFiller::next\<close>: the next queued hash, or the empty root of the depth.\<close>

fun filler_next :: "('h \<Rightarrow> 'h \<Rightarrow> 'h) \<Rightarrow> 'h \<Rightarrow> 'h list \<Rightarrow> nat \<Rightarrow> 'h \<times> 'h list" where
  "filler_next c z (h # queue) depth = (h, queue)"
| "filler_next c z [] depth = (empty_root c z depth, [])"

definition wfcheck :: "nat \<Rightarrow> 'h IncrementalMerkleTree \<Rightarrow> (unit, unit) outcome" where
  "wfcheck Depth this =
     (if length (parents this) \<ge> Depth then Throw
      else if parents this \<noteq> [] \<and> last (parents this) = None then Throw
      else if left this = None \<and> right this \<noteq> None then Throw
      else if left this = None \<and> length (parents this) > 0 then Throw
      else Ok ())"

definition imt_last :: "'h IncrementalMerkleTree \<Rightarrow> (unit, 'h) outcome" where
  "imt_last this =
     (case right this of
        Some h \<Rightarrow> Ok h
      | None \<Rightarrow> (case left this of Some h \<Rightarrow> Ok h | None \<Rightarrow> Throw))"

fun size_parents :: "nat \<Rightarrow> 'h option list \<Rightarrow> nat" where
  "size_parents i [] = 0"
| "size_parents i (p # ps) = (if p \<noteq> None then 2 ^ (i + 1) else 0) + size_parents (i + 1) ps"

definition imt_size :: "'h IncrementalMerkleTree \<Rightarrow> nat" where
  "imt_size this =
     (if left this \<noteq> None then 1 else 0) + (if right this \<noteq> None then 1 else 0) + size_parents 0 (parents this)"

definition is_complete :: "'h IncrementalMerkleTree \<Rightarrow> nat \<Rightarrow> bool" where
  "is_complete this depth =
     (if left this = None \<or> right this = None then False
      else if length (parents this) + 1 \<noteq> depth then False
      else list_all (\<lambda>p. p \<noteq> None) (parents this))"

text \<open>The loop of \<^verbatim>\<open>append\<close>, with the number of rounds left.\<close>

fun append_parents :: "('h \<Rightarrow> 'h \<Rightarrow> 'h) \<Rightarrow> nat \<Rightarrow> 'h \<Rightarrow> 'h option list \<Rightarrow> 'h option list" where
  "append_parents c 0 combined ps = ps"
| "append_parents c (Suc n) combined [] = [Some combined]"
| "append_parents c (Suc n) combined (Some p # ps) = None # append_parents c n (c p combined) ps"
| "append_parents c (Suc n) combined (None # ps) = Some combined # ps"

definition imt_append ::
  "nat \<Rightarrow> ('h \<Rightarrow> 'h \<Rightarrow> 'h) \<Rightarrow> 'h IncrementalMerkleTree \<Rightarrow> 'h \<Rightarrow> (unit, 'h IncrementalMerkleTree) outcome" where
  "imt_append Depth c this obj =
     (if is_complete this Depth then Throw
      else
        (case left this of
           None \<Rightarrow> Ok (this\<lparr> left := Some obj \<rparr>)
         | Some l \<Rightarrow>
             (case right this of
                None \<Rightarrow> Ok (this\<lparr> right := Some obj \<rparr>)
              | Some r \<Rightarrow>
                  Ok (this\<lparr> left := Some obj, right := None,
                        parents := append_parents c Depth (c l r) (parents this) \<rparr>))))"

text \<open>The loop of \<^verbatim>\<open>next_depth\<close> over the parents.\<close>

fun next_depth_parents :: "nat \<Rightarrow> nat \<Rightarrow> 'h option list \<Rightarrow> nat" where
  "next_depth_parents skip d [] = d + skip"
| "next_depth_parents skip d (Some p # ps) = next_depth_parents skip (d + 1) ps"
| "next_depth_parents skip d (None # ps) = (if skip > 0 then next_depth_parents (skip - 1) (d + 1) ps else d)"

definition next_depth :: "'h IncrementalMerkleTree \<Rightarrow> nat \<Rightarrow> nat" where
  "next_depth this skip =
     (if left this = None \<and> skip = 0 then 0
      else
        let skip1 = (if left this = None then skip - 1 else skip) in
        if right this = None \<and> skip1 = 0 then 0
        else
          let skip2 = (if right this = None then skip1 - 1 else skip1) in
          next_depth_parents skip2 1 (parents this))"

fun root_parents ::
  "('h \<Rightarrow> 'h \<Rightarrow> 'h) \<Rightarrow> 'h \<Rightarrow> nat \<Rightarrow> 'h \<Rightarrow> 'h list \<Rightarrow> 'h option list \<Rightarrow> nat \<times> 'h \<times> 'h list" where
  "root_parents c z d rt filler [] = (d, rt, filler)"
| "root_parents c z d rt filler (Some p # ps) = root_parents c z (d + 1) (c p rt) filler ps"
| "root_parents c z d rt filler (None # ps) =
     (let (h, filler') = filler_next c z filler d in root_parents c z (d + 1) (c rt h) filler' ps)"

text \<open>The last loop of \<^verbatim>\<open>root\<close>, with the number of rounds left.\<close>

fun root_fill :: "('h \<Rightarrow> 'h \<Rightarrow> 'h) \<Rightarrow> 'h \<Rightarrow> nat \<Rightarrow> nat \<Rightarrow> 'h \<Rightarrow> 'h list \<Rightarrow> 'h" where
  "root_fill c z 0 d rt filler = rt"
| "root_fill c z (Suc n) d rt filler =
     (let (h, filler') = filler_next c z filler d in root_fill c z n (d + 1) (c rt h) filler')"

definition imt_root :: "('h \<Rightarrow> 'h \<Rightarrow> 'h) \<Rightarrow> 'h \<Rightarrow> 'h IncrementalMerkleTree \<Rightarrow> nat \<Rightarrow> 'h list \<Rightarrow> 'h" where
  "imt_root c z this depth filler_hashes =
     (let (combine_left, filler1) =
            (case left this of Some h \<Rightarrow> (h, filler_hashes) | None \<Rightarrow> filler_next c z filler_hashes 0);
          (combine_right, filler2) =
            (case right this of Some h \<Rightarrow> (h, filler1) | None \<Rightarrow> filler_next c z filler1 0);
          (d, rt, filler3) = root_parents c z 1 (c combine_left combine_right) filler2 (parents this) in
      root_fill c z (depth - d) d rt filler3)"

section \<open>Authentication paths\<close>

fun path_parents ::
  "('h \<Rightarrow> 'h \<Rightarrow> 'h) \<Rightarrow> 'h \<Rightarrow> nat \<Rightarrow> 'h list \<Rightarrow> 'h option list \<Rightarrow> nat \<times> (bool \<times> 'h) list \<times> 'h list" where
  "path_parents c z d filler [] = (d, [], filler)"
| "path_parents c z d filler (Some p # ps) =
     (let (d', steps, filler') = path_parents c z (d + 1) filler ps in (d', (True, p) # steps, filler'))"
| "path_parents c z d filler (None # ps) =
     (let (h, filler1) = filler_next c z filler d; (d', steps, filler') = path_parents c z (d + 1) filler1 ps in
      (d', (False, h) # steps, filler'))"

fun path_fill :: "('h \<Rightarrow> 'h \<Rightarrow> 'h) \<Rightarrow> 'h \<Rightarrow> nat \<Rightarrow> nat \<Rightarrow> 'h list \<Rightarrow> (bool \<times> 'h) list" where
  "path_fill c z 0 d filler = []"
| "path_fill c z (Suc n) d filler =
     (let (h, filler') = filler_next c z filler d in (False, h) # path_fill c z n (d + 1) filler')"

record MerklePath =
  authentication_path :: "bool list list"
  index :: "bool list"

definition convertBytesVectorToVector :: "valtype \<Rightarrow> bool list" where
  "convertBytesVectorToVector bytes = concat (map (\<lambda>b. map (\<lambda>j. bit b (7 - j)) [0..<8]) bytes)"

text \<open>The hashes and the index bits that \<^verbatim>\<open>path\<close> collects, from the leaf to the root, before it converts and reverses them.\<close>

definition imt_path_steps ::
  "nat \<Rightarrow> ('h \<Rightarrow> 'h \<Rightarrow> 'h) \<Rightarrow> 'h \<Rightarrow> 'h IncrementalMerkleTree \<Rightarrow> 'h list \<Rightarrow> (unit, (bool \<times> 'h) list) outcome" where
  "imt_path_steps Depth c z this filler_hashes =
     (case left this of
        None \<Rightarrow> Throw
      | Some l \<Rightarrow>
          let (first, filler1) =
                (if right this \<noteq> None then ((True, l), filler_hashes)
                 else let (h, filler') = filler_next c z filler_hashes 0 in ((False, h), filler'));
              (d, steps, filler2) = path_parents c z 1 filler1 (parents this) in
          Ok (first # steps @ path_fill c z (Depth - d) d filler2))"

definition imt_path ::
  "nat \<Rightarrow> ('h \<Rightarrow> 'h \<Rightarrow> 'h) \<Rightarrow> 'h \<Rightarrow> ('h \<Rightarrow> valtype) \<Rightarrow> 'h IncrementalMerkleTree \<Rightarrow> 'h list \<Rightarrow> (unit, MerklePath) outcome" where
  "imt_path Depth c z bytes this filler_hashes =
     rbind (imt_path_steps Depth c z this filler_hashes) (\<lambda>steps.
       Ok \<lparr> authentication_path = rev (map (\<lambda>(_, b). convertBytesVectorToVector (bytes b)) steps),
            index = rev (map fst steps) \<rparr>)"

section \<open>Witnesses\<close>

record 'h IncrementalWitness =
  tree :: "'h IncrementalMerkleTree"
  filled :: "'h list"
  cursor :: "'h IncrementalMerkleTree option"
  cursor_depth :: nat

definition imt_witness :: "'h IncrementalMerkleTree \<Rightarrow> 'h IncrementalWitness" where
  "imt_witness this = \<lparr> tree = this, filled = [], cursor = None, cursor_depth = 0 \<rparr>"

definition partial_path :: "('h \<Rightarrow> 'h \<Rightarrow> 'h) \<Rightarrow> 'h \<Rightarrow> 'h IncrementalWitness \<Rightarrow> 'h list" where
  "partial_path c z this =
     filled this @ (case cursor this of None \<Rightarrow> [] | Some t \<Rightarrow> [imt_root c z t (cursor_depth this) []])"

definition witness_element :: "'h IncrementalWitness \<Rightarrow> (unit, 'h) outcome" where
  "witness_element this = imt_last (tree this)"

definition witness_root :: "nat \<Rightarrow> ('h \<Rightarrow> 'h \<Rightarrow> 'h) \<Rightarrow> 'h \<Rightarrow> 'h IncrementalWitness \<Rightarrow> 'h" where
  "witness_root Depth c z this = imt_root c z (tree this) Depth (partial_path c z this)"

definition witness_path ::
  "nat \<Rightarrow> ('h \<Rightarrow> 'h \<Rightarrow> 'h) \<Rightarrow> 'h \<Rightarrow> ('h \<Rightarrow> valtype) \<Rightarrow> 'h IncrementalWitness \<Rightarrow> (unit, MerklePath) outcome" where
  "witness_path Depth c z bytes this = imt_path Depth c z bytes (tree this) (partial_path c z this)"

definition witness_append ::
  "nat \<Rightarrow> ('h \<Rightarrow> 'h \<Rightarrow> 'h) \<Rightarrow> 'h \<Rightarrow> 'h IncrementalWitness \<Rightarrow> 'h \<Rightarrow> (unit, 'h IncrementalWitness) outcome" where
  "witness_append Depth c z this obj =
     (case cursor this of
        Some t \<Rightarrow>
          rbind (imt_append Depth c t obj) (\<lambda>t'.
            if is_complete t' (cursor_depth this)
            then Ok (this\<lparr> filled := filled this @ [imt_root c z t' (cursor_depth this) []], cursor := None \<rparr>)
            else Ok (this\<lparr> cursor := Some t' \<rparr>))
      | None \<Rightarrow>
          let depth = next_depth (tree this) (length (filled this)) in
          if depth \<ge> Depth then Throw
          else if depth = 0 then Ok (this\<lparr> filled := filled this @ [obj], cursor_depth := depth \<rparr>)
          else
            rbind (imt_append Depth c IncrementalMerkleTree_empty obj) (\<lambda>t.
              Ok (this\<lparr> cursor := Some t, cursor_depth := depth \<rparr>)))"

section \<open>The instance of the program\<close>

abbreviation (input) INCREMENTAL_MERKLE_TREE_DEPTH :: nat where "INCREMENTAL_MERKLE_TREE_DEPTH \<equiv> 29"

text \<open>\<open>buf\<close> is what the buffer of the hasher holds before it is written.\<close>

definition SHA256Compress_combine :: "valtype \<Rightarrow> uint256 \<Rightarrow> uint256 \<Rightarrow> (unit, uint256) outcome" where
  "SHA256Compress_combine buf a b =
     rbind (CSHA256_FinalizeNoPadding True (CSHA256_Write (CSHA256_Write (CSHA256 buf) (blob_bytes a)) (blob_bytes b)))
       (\<lambda>res. Ok (blob_of_bytes res))"

section \<open>The complete tree\<close>

text \<open>The reference: the root of the complete binary tree over the leaves, with empty leaves after them.\<close>

primrec full_root :: "('h \<Rightarrow> 'h \<Rightarrow> 'h) \<Rightarrow> 'h \<Rightarrow> nat \<Rightarrow> 'h list \<Rightarrow> 'h" where
  "full_root c z 0 xs = (case xs of [] \<Rightarrow> z | x # _ \<Rightarrow> x)"
| "full_root c z (Suc d) xs = c (full_root c z d (take (2 ^ d) xs)) (full_root c z d (drop (2 ^ d) xs))"

lemma full_root_Nil [simp]: "full_root c z d [] = empty_root c z d"
  by (induction d) auto

lemma full_root_join:
  assumes "length xs \<le> 2 ^ d" and "length xs = 2 ^ d \<or> ys = []"
  shows "c (full_root c z d xs) (full_root c z d ys) = full_root c z (Suc d) (xs @ ys)"
  using assms by auto

text \<open>The leaves behind the collapsed subtrees: an entry of depth \<open>d\<close> is the root of \<open>2 ^ d\<close> leaves.\<close>

fun holds :: "('h \<Rightarrow> 'h \<Rightarrow> 'h) \<Rightarrow> 'h \<Rightarrow> nat \<Rightarrow> 'h option list \<Rightarrow> 'h list \<Rightarrow> bool" where
  "holds c z d [] xs \<longleftrightarrow> xs = []"
| "holds c z d (None # ps) xs \<longleftrightarrow> holds c z (Suc d) ps xs"
| "holds c z d (Some p # ps) xs \<longleftrightarrow>
     (\<exists>us vs. xs = us @ vs \<and> length vs = 2 ^ d \<and> p = full_root c z d vs \<and> holds c z (Suc d) ps us)"

definition represents :: "nat \<Rightarrow> ('h \<Rightarrow> 'h \<Rightarrow> 'h) \<Rightarrow> 'h \<Rightarrow> 'h IncrementalMerkleTree \<Rightarrow> 'h list \<Rightarrow> bool" where
  "represents Depth c z t xs \<longleftrightarrow>
     wfcheck Depth t = Ok () \<and>
     (\<exists>us. holds c z 1 (parents t) us \<and>
       (case (left t, right t) of
          (Some a, Some b) \<Rightarrow> xs = us @ [a, b] | (Some a, None) \<Rightarrow> xs = us @ [a] | _ \<Rightarrow> xs = []))"

lemma wfcheck_iff:
  "wfcheck Depth t = Ok () \<longleftrightarrow>
     length (parents t) < Depth \<and> (parents t \<noteq> [] \<longrightarrow> last (parents t) \<noteq> None) \<and>
     (left t = None \<longrightarrow> right t = None \<and> parents t = [])"
  by (auto simp: wfcheck_def)

lemma representsE:
  assumes "represents Depth c z t xs"
  obtains (empty) "left t = None" "right t = None" "parents t = []" "xs = []"
    | (one) us a where "left t = Some a" "right t = None" "xs = us @ [a]" "holds c z 1 (parents t) us"
    | (two) us a b where "left t = Some a" "right t = Some b" "xs = us @ [a, b]" "holds c z 1 (parents t) us"
proof -
  obtain us where "wfcheck Depth t = Ok ()" "holds c z 1 (parents t) us"
    "case (left t, right t) of
       (Some a, Some b) \<Rightarrow> xs = us @ [a, b] | (Some a, None) \<Rightarrow> xs = us @ [a] | _ \<Rightarrow> xs = []"
    using assms unfolding represents_def by blast
  then show thesis using that by (cases "left t"; cases "right t") (auto simp: wfcheck_iff)
qed

subsection \<open>Counting leaves\<close>

lemma holds_size: "holds c z (Suc d) ps us \<Longrightarrow> size_parents d ps = length us"
  by (induction c z d ps us rule: holds.induct) (auto simp del: power_Suc)

lemma represents_size: "represents Depth c z t xs \<Longrightarrow> imt_size t = length xs"
  by (erule representsE) (auto simp: imt_size_def holds_size)

lemma size_parents_le: "size_parents d ps + 2 ^ Suc d \<le> 2 ^ (Suc d + length ps)"
proof (induction ps arbitrary: d)
  case (Cons p ps)
  have "size_parents d (p # ps) + 2 ^ Suc d \<le> 2 ^ Suc d + size_parents (Suc d) ps + 2 ^ Suc d" by simp
  also have "\<dots> = size_parents (Suc d) ps + 2 ^ Suc (Suc d)" by simp
  also have "\<dots> \<le> 2 ^ (Suc (Suc d) + length ps)" by (rule Cons.IH)
  finally show ?case by simp
qed simp

lemma size_parents_eq: "size_parents d ps + 2 ^ Suc d = 2 ^ (Suc d + length ps) \<longleftrightarrow> list_all (\<lambda>p. p \<noteq> None) ps"
proof (induction ps arbitrary: d)
  case (Cons p ps)
  show ?case
  proof (cases p)
    case None
    have "size_parents (Suc d) ps + 2 ^ Suc d < size_parents (Suc d) ps + 2 ^ Suc (Suc d)" by simp
    also have "\<dots> \<le> 2 ^ (Suc (Suc d) + length ps)" by (rule size_parents_le)
    finally show ?thesis using None by simp
  next
    case (Some q)
    then have "size_parents d (p # ps) + 2 ^ Suc d = size_parents (Suc d) ps + 2 ^ Suc (Suc d)" by simp
    then show ?thesis using Cons.IH [of "Suc d"] Some by (simp add: add.commute)
  qed
qed simp

lemma size_parents_ge: "ps \<noteq> [] \<Longrightarrow> last ps \<noteq> None \<Longrightarrow> 2 ^ (d + length ps) \<le> size_parents d ps"
proof (induction ps arbitrary: d)
  case (Cons p ps)
  then show ?case
  proof (cases "ps = []")
    case False
    with Cons.prems have "2 ^ (Suc d + length ps) \<le> size_parents (Suc d) ps" by (intro Cons.IH) auto
    then show ?thesis by simp
  qed auto
qed simp

lemma is_complete_iff:
  assumes "represents Depth c z t xs" and "0 < d"
  shows "is_complete t d \<longleftrightarrow> length xs = 2 ^ d"
  using assms(1)
proof (cases rule: representsE)
  case (one us a)
  have wf: "parents t \<noteq> [] \<longrightarrow> last (parents t) \<noteq> None" using assms(1) by (simp add: represents_def wfcheck_iff)
  have len: "length us = size_parents 0 (parents t)" using holds_size [of c z 0] one by simp
  have "length xs \<noteq> 2 ^ d"
  proof
    assume eq: "length xs = 2 ^ d"
    have "even (size_parents i (ps :: 'a option list))" for i ps by (induction ps arbitrary: i) auto
    then have "odd (length xs)" using one len by simp
    with eq \<open>0 < d\<close> show False by simp
  qed
  with one show ?thesis by (simp add: is_complete_def)
next
  case (two us a b)
  let ?L = "length (parents t)"
  have wf: "parents t \<noteq> [] \<longrightarrow> last (parents t) \<noteq> None" using assms(1) by (simp add: represents_def wfcheck_iff)
  have len: "length xs = size_parents 0 (parents t) + 2" using holds_size [of c z 0] two by simp
  have hi: "length xs \<le> 2 ^ (?L + 1)" using size_parents_le [of 0 "parents t"] len by simp
  have lo: "2 ^ ?L < length xs" using size_parents_ge [of "parents t" 0] wf len by (cases "parents t = []") auto
  have "length xs = 2 ^ d \<longleftrightarrow> d = ?L + 1 \<and> length xs = 2 ^ (?L + 1)"
  proof
    assume eq: "length xs = 2 ^ d"
    have "(2 :: nat) ^ ?L < 2 ^ d" "(2 :: nat) ^ d \<le> 2 ^ (?L + 1)" using hi lo eq by simp_all
    then have "?L < d" "d \<le> ?L + 1" using power_less_imp_less_exp [of 2 ?L d] power_le_imp_le_exp [of 2 d "?L + 1"] by simp_all
    then have "d = ?L + 1" by simp
    with eq show "d = ?L + 1 \<and> length xs = 2 ^ (?L + 1)" by simp
  qed simp
  then show ?thesis using two size_parents_eq [of 0 "parents t"] len by (auto simp: is_complete_def)
qed (use assms(2) in \<open>simp add: is_complete_def\<close>)

lemma represents_le:
  assumes "represents Depth c z t xs" shows "length xs \<le> 2 ^ Depth"
proof -
  have L: "length (parents t) < Depth" using assms by (simp add: represents_def wfcheck_iff)
  have "length xs \<le> size_parents 0 (parents t) + 2"
    using assms by (cases rule: representsE) (auto dest: holds_size [of c z 0, simplified])
  also have "\<dots> \<le> 2 ^ (Suc 0 + length (parents t))" using size_parents_le [of 0 "parents t"] by simp
  also have "\<dots> \<le> 2 ^ Depth" using L by (intro power_increasing) auto
  finally show ?thesis .
qed

subsection \<open>Appending\<close>

lemma append_parents_holds:
  "holds c z d ps us \<Longrightarrow> length vs = 2 ^ d \<Longrightarrow> length ps < n \<Longrightarrow>
   holds c z d (append_parents c n (full_root c z d vs) ps) (us @ vs)"
proof (induction ps arbitrary: d us vs n)
  case Nil
  then show ?case by (cases n) auto
next
  case (Cons p ps)
  then obtain m where n: "n = Suc m" and m: "length ps < m" by (cases n) auto
  show ?case
  proof (cases p)
    case None
    with Cons.prems n show ?thesis by auto
  next
    case (Some q)
    with Cons.prems obtain xs ys where us: "us = xs @ ys" "length ys = 2 ^ d" "q = full_root c z d ys" "holds c z (Suc d) ps xs"
      by auto
    have "c q (full_root c z d vs) = full_root c z (Suc d) (ys @ vs)" using us by simp
    moreover have "length (ys @ vs) = 2 ^ Suc d" using us Cons.prems by simp
    ultimately show ?thesis using Cons.IH [OF us(4) _ m, of "ys @ vs"] us n Some by simp
  qed
qed

lemma append_parents_length:
  "length ps < n \<Longrightarrow> length (append_parents c n x ps) = (if list_all (\<lambda>p. p \<noteq> None) ps then Suc (length ps) else length ps)"
  by (induction c n x ps rule: append_parents.induct) auto

lemma append_parents_last:
  "length ps < n \<Longrightarrow> ps = [] \<or> last ps \<noteq> None \<Longrightarrow>
   append_parents c n x ps \<noteq> [] \<and> last (append_parents c n x ps) \<noteq> None"
  by (induction c n x ps rule: append_parents.induct) (auto split: if_splits)

lemma represents_empty: "0 < Depth \<Longrightarrow> represents Depth c z IncrementalMerkleTree_empty []"
  by (auto simp: represents_def wfcheck_iff IncrementalMerkleTree_empty_def)

lemma imt_append_ok:
  assumes rep: "represents Depth c z t xs" and "length xs < 2 ^ Depth" and "0 < Depth"
  shows "\<exists>t'. imt_append Depth c t x = Ok t' \<and> represents Depth c z t' (xs @ [x])"
proof -
  have nc: "\<not> is_complete t Depth" using is_complete_iff [OF rep \<open>0 < Depth\<close>] assms(2) by simp
  have wf: "wfcheck Depth t = Ok ()" using rep by (simp add: represents_def)
  show ?thesis using rep
  proof (cases rule: representsE)
    case empty
    then show ?thesis using nc wf by (auto simp: imt_append_def represents_def wfcheck_iff)
  next
    case (one us a)
    then show ?thesis using nc wf by (auto simp: imt_append_def represents_def wfcheck_iff)
  next
    case (two us a b)
    let ?ps = "append_parents c Depth (c a b) (parents t)"
    have L: "length (parents t) < Depth" using wf by (simp add: wfcheck_iff)
    have "holds c z 1 ?ps (us @ [a, b])"
      using append_parents_holds [OF two(4), of "[a, b]" Depth] L by simp
    moreover have "length ?ps < Depth"
      using nc two L by (auto simp: append_parents_length is_complete_def split: if_splits)
    moreover have "?ps \<noteq> [] \<and> last ?ps \<noteq> None" using append_parents_last [OF L] wf by (auto simp: wfcheck_iff)
    ultimately show ?thesis using nc two by (auto simp: imt_append_def represents_def wfcheck_iff)
  qed
qed

lemma imt_append_full: "represents Depth c z t xs \<Longrightarrow> length xs = 2 ^ Depth \<Longrightarrow> 0 < Depth \<Longrightarrow> imt_append Depth c t x = Throw"
  using is_complete_iff [of Depth c z t xs Depth] by (simp add: imt_append_def)

subsection \<open>Roots\<close>

text \<open>
  The uncles of a path: \<open>fills ds q ys\<close> says that the hashes \<open>q\<close> are the roots, at the depths \<open>ds\<close>, of the successive parts of the
  leaves \<open>ys\<close>; only the last part may be incomplete.
\<close>

inductive fills :: "('h \<Rightarrow> 'h \<Rightarrow> 'h) \<Rightarrow> 'h \<Rightarrow> nat list \<Rightarrow> 'h list \<Rightarrow> 'h list \<Rightarrow> bool" for c z where
  none: "fills c z ds [] []"
| part: "length s \<le> 2 ^ d \<Longrightarrow> fills c z (d # ds) [full_root c z d s] s"
| full: "length s = 2 ^ d \<Longrightarrow> fills c z ds q ys \<Longrightarrow> fills c z (d # ds) (full_root c z d s # q) (s @ ys)"

lemma fills_next:
  assumes "fills c z (d # ds) q ys"
  obtains s rest q' where "filler_next c z q d = (full_root c z d s, q')" "ys = s @ rest" "length s \<le> 2 ^ d"
    "length s = 2 ^ d \<or> rest = []" "fills c z ds q' rest"
  using assms
proof (cases rule: fills.cases)
  case none
  then show ?thesis by (intro that [of "[]" "[]" "[]"]) (auto intro: fills.none)
next
  case part
  then show ?thesis by (intro that [of ys "[]" "[]"]) (auto intro: fills.none)
next
  case (full s q' rest)
  then show ?thesis by (intro that [of s q' rest]) auto
qed

lemma fills_Nil: "fills c z [] q ys \<Longrightarrow> q = [] \<and> ys = []"
  by (erule fills.cases) auto

text \<open>The depths of the missing subtrees above the leaves, towards the root.\<close>

fun gaps :: "nat \<Rightarrow> 'h option list \<Rightarrow> nat list" where
  "gaps d [] = []"
| "gaps d (Some p # ps) = gaps (Suc d) ps"
| "gaps d (None # ps) = d # gaps (Suc d) ps"

lemma root_parents_val:
  "holds c z d ps us \<Longrightarrow> length zs \<le> 2 ^ d \<Longrightarrow> length zs = 2 ^ d \<or> ys = [] \<Longrightarrow> fills c z (gaps d ps @ ds) q ys \<Longrightarrow>
   \<exists>rest as q'. root_parents c z d (full_root c z d zs) q ps = (d + length ps, full_root c z (d + length ps) (us @ zs @ as), q') \<and>
     ys = as @ rest \<and> length (us @ zs @ as) \<le> 2 ^ (d + length ps) \<and>
     (length (us @ zs @ as) = 2 ^ (d + length ps) \<or> rest = []) \<and> fills c z ds q' rest"
proof (induction ps arbitrary: d us zs ys q)
  case Nil
  then show ?case by auto
next
  case (Cons p ps)
  show ?case
  proof (cases p)
    case (Some r)
    with Cons.prems obtain xs vs where us: "us = xs @ vs" "length vs = 2 ^ d" "r = full_root c z d vs" "holds c z (Suc d) ps xs"
      by auto
    have "c r (full_root c z d zs) = full_root c z (Suc d) (vs @ zs)" using us by simp
    then show ?thesis using Cons.IH [OF us(4), of "vs @ zs" ys q] us Cons.prems Some by simp
  next
    case None
    with Cons.prems have "fills c z (d # (gaps (Suc d) ps @ ds)) q ys" by simp
    then obtain s rest q' where s: "filler_next c z q d = (full_root c z d s, q')" "ys = s @ rest" "length s \<le> 2 ^ d"
      "length s = 2 ^ d \<or> rest = []" "fills c z (gaps (Suc d) ps @ ds) q' rest" by (rule fills_next)
    have r: "c (full_root c z d zs) (full_root c z d s) = full_root c z (Suc d) (zs @ s)"
      using Cons.prems s by (intro full_root_join) auto
    have h: "holds c z (Suc d) ps us" using Cons.prems None by simp
    have l: "length (zs @ s) \<le> 2 ^ Suc d" "length (zs @ s) = 2 ^ Suc d \<or> rest = []" using Cons.prems s by auto
    from Cons.IH [OF h l s(5)] obtain rest' as q'' where
        "root_parents c z (Suc d) (full_root c z (Suc d) (zs @ s)) q' ps =
           (Suc d + length ps, full_root c z (Suc d + length ps) (us @ (zs @ s) @ as), q'')"
        "rest = as @ rest'" "length (us @ (zs @ s) @ as) \<le> 2 ^ (Suc d + length ps)"
        "length (us @ (zs @ s) @ as) = 2 ^ (Suc d + length ps) \<or> rest' = []" "fills c z ds q'' rest'" by blast
    then show ?thesis using s(1,2) r None
      by (intro exI [of _ rest'] exI [of _ "s @ as"] exI [of _ q'']) simp
  qed
qed

lemma root_fill_val:
  "length xs \<le> 2 ^ d \<Longrightarrow> length xs = 2 ^ d \<or> ys = [] \<Longrightarrow> fills c z [d..<d + n] q ys \<Longrightarrow>
   root_fill c z n d (full_root c z d xs) q = full_root c z (d + n) (xs @ ys)"
proof (induction n arbitrary: d xs ys q)
  case 0
  then show ?case by (auto dest: fills_Nil)
next
  case (Suc n)
  have "[d..<d + Suc n] = d # [Suc d..<Suc d + n]" by (simp add: upt_conv_Cons del: upt_Suc)
  with Suc.prems have "fills c z (d # [Suc d..<Suc d + n]) q ys" by simp
  then obtain s rest q' where s: "filler_next c z q d = (full_root c z d s, q')" "ys = s @ rest" "length s \<le> 2 ^ d"
    "length s = 2 ^ d \<or> rest = []" "fills c z [Suc d..<Suc d + n] q' rest" by (rule fills_next)
  have "c (full_root c z d xs) (full_root c z d s) = full_root c z (Suc d) (xs @ s)"
    using Suc.prems s by (intro full_root_join) auto
  then show ?case using Suc.IH [of "xs @ s" "Suc d" rest q'] Suc.prems s by auto
qed

text \<open>The gaps of a tree, up to the depth.\<close>

definition tree_gaps :: "nat \<Rightarrow> 'h IncrementalMerkleTree \<Rightarrow> nat list" where
  "tree_gaps Depth t =
     (if right t = None then [0] else []) @ gaps 1 (parents t) @ [1 + length (parents t)..<Depth]"

lemma imt_root_val:
  assumes rep: "represents D c z t xs" "xs \<noteq> []" and "length (parents t) < Depth" and fills: "fills c z (tree_gaps Depth t) q ys"
  shows "imt_root c z t Depth q = full_root c z Depth (xs @ ys)"
proof -
  obtain us l rt zs rest q1 where t: "holds c z 1 (parents t) us" "left t = Some l" "xs @ ys = us @ zs @ rest"
      "(case right t of Some h \<Rightarrow> (h, q) | None \<Rightarrow> filler_next c z q 0) = (rt, q1)"
      "c l rt = full_root c z 1 zs" "length zs \<le> 2" "length zs = 2 \<or> rest = []"
      "fills c z (gaps 1 (parents t) @ [1 + length (parents t)..<Depth]) q1 rest"
    using rep(1)
  proof (cases rule: representsE)
    case (one us a)
    with fills have "fills c z (0 # gaps 1 (parents t) @ [1 + length (parents t)..<Depth]) q ys" by (simp add: tree_gaps_def)
    then obtain s rest q' where s: "filler_next c z q 0 = (full_root c z 0 s, q')" "ys = s @ rest" "length s \<le> 2 ^ 0"
      "length s = 2 ^ 0 \<or> rest = []" "fills c z (gaps 1 (parents t) @ [1 + length (parents t)..<Depth]) q' rest"
      by (rule fills_next)
    with one show ?thesis by (intro that [of us a "a # s" rest "full_root c z 0 s" q']) (auto split: list.splits)
  next
    case (two us a b)
    with fills show ?thesis by (intro that [of us a "[a, b]" ys b q]) (auto simp: tree_gaps_def)
  qed (use rep(2) in simp)
  have "length zs \<le> 2 ^ 1" "length zs = 2 ^ 1 \<or> rest = []" using t by simp_all
  from root_parents_val [OF t(1) this t(8)] obtain rest' as q' where
      p: "root_parents c z 1 (full_root c z 1 zs) q1 (parents t) =
            (1 + length (parents t), full_root c z (1 + length (parents t)) (us @ zs @ as), q')"
         "rest = as @ rest'" "length (us @ zs @ as) \<le> 2 ^ (1 + length (parents t))"
         "length (us @ zs @ as) = 2 ^ (1 + length (parents t)) \<or> rest' = []"
         "fills c z [1 + length (parents t)..<Depth] q' rest'" by blast
  have "1 + length (parents t) + (Depth - (1 + length (parents t))) = Depth" using assms(3) by simp
  with root_fill_val [OF p(3,4), of c z "Depth - (1 + length (parents t))" q'] p(5) 
  have "root_fill c z (Depth - (1 + length (parents t))) (1 + length (parents t))
          (full_root c z (1 + length (parents t)) (us @ zs @ as)) q' = full_root c z Depth (xs @ ys)"
    using t(3) p(2) by simp
  with p(1) t(2,4,5) show ?thesis unfolding imt_root_def Let_def by (simp split: option.splits)
qed

lemma empty_parents_root: "root_fill c z n d (empty_root c z d) [] = empty_root c z (d + n)"
  by (induction n arbitrary: d) (simp_all flip: empty_root.simps(2))

lemma imt_root_represents:
  assumes rep: "represents D c z t xs" and "length (parents t) < Depth"
  shows "imt_root c z t Depth [] = full_root c z Depth xs"
proof (cases "xs = []")
  case True
  have "imt_root c z t Depth [] = root_fill c z (Depth - 1) 1 (empty_root c z 1) []"
    using rep True by (auto elim!: representsE simp: imt_root_def)
  then show ?thesis using empty_parents_root [of c z "Depth - 1" 1] True assms(2) by simp
next
  case False
  then show ?thesis using imt_root_val [OF rep False assms(2) fills.none] by simp
qed

subsection \<open>Room for more leaves\<close>

abbreviation capacity :: "nat list \<Rightarrow> nat" where "capacity ds \<equiv> sum_list (map (\<lambda>d. 2 ^ d) ds)"

lemma capacity_gaps: "size_parents d ps + capacity (gaps (Suc d) ps) + 2 ^ Suc d = 2 ^ (Suc d + length ps)"
proof (induction ps arbitrary: d)
  case (Cons p ps)
  show ?case using Cons.IH [of "Suc d"] by (cases p) simp_all
qed simp

lemma capacity_upt: "capacity [k..<k + n] + 2 ^ k = 2 ^ (k + n)"
  by (induction n) auto

lemma represents_room:
  assumes "represents Depth c z t xs" "xs \<noteq> []"
  shows "length xs + capacity (tree_gaps Depth t) = 2 ^ Depth"
proof -
  let ?k = "1 + length (parents t)"
  have "?k + (Depth - ?k) = Depth" using assms by (simp add: represents_def wfcheck_iff)
  then have up: "capacity [?k..<Depth] + 2 ^ ?k = 2 ^ Depth" using capacity_upt [of ?k "Depth - ?k"] by simp
  have low: "size_parents 0 (parents t) + capacity (gaps 1 (parents t)) + 2 = 2 ^ ?k" using capacity_gaps [of 0 "parents t"] by simp
  show ?thesis using assms(1)
  proof (cases rule: representsE)
    case (one us a)
    then show ?thesis using holds_size [of c z 0 "parents t" us] up low by (simp add: tree_gaps_def)
  next
    case (two us a b)
    then show ?thesis using holds_size [of c z 0 "parents t" us] up low by (simp add: tree_gaps_def)
  qed (use assms(2) in simp)
qed

lemma represents_parents:
  assumes "represents D c z t xs" "length xs \<le> 2 ^ d" "0 < d"
  shows "length (parents t) < d"
proof (cases "parents t = []")
  case False
  have wf: "last (parents t) \<noteq> None" using assms(1) False by (simp add: represents_def wfcheck_iff)
  have "2 ^ length (parents t) \<le> size_parents 0 (parents t)" using size_parents_ge [OF False wf, of 0] by simp
  also have "\<dots> < length xs" using assms(1) False
    by (cases rule: representsE) (auto dest: holds_size [of c z 0, simplified])
  also have "\<dots> \<le> 2 ^ d" by fact
  finally show ?thesis by (rule power_less_imp_less_exp [rotated]) simp
qed (use assms(3) in simp)

lemma next_depth_parents_val:
  "next_depth_parents skip d ps =
     (if skip < length (gaps d ps) then gaps d ps ! skip else d + length ps + (skip - length (gaps d ps)))"
  by (induction skip d ps rule: next_depth_parents.induct) (auto simp: nth_Cons')

lemma next_depth_val:
  assumes "left t \<noteq> None" and "length (parents t) < Depth"
  shows "next_depth t i = (if i < length (tree_gaps Depth t) then tree_gaps Depth t ! i else next_depth t i)"
    and "length (tree_gaps Depth t) \<le> i \<Longrightarrow> Depth \<le> next_depth t i"
  using assms by (auto simp: next_depth_def tree_gaps_def next_depth_parents_val nth_append nth_Cons' Let_def)

subsection \<open>Complete uncles\<close>

fun segments :: "('h \<Rightarrow> 'h \<Rightarrow> 'h) \<Rightarrow> 'h \<Rightarrow> nat list \<Rightarrow> 'h list \<Rightarrow> 'h list \<Rightarrow> bool" where
  "segments c z ds [] ys \<longleftrightarrow> ys = []"
| "segments c z [] (h # q) ys \<longleftrightarrow> False"
| "segments c z (d # ds) (h # q) ys \<longleftrightarrow>
     (\<exists>s rest. ys = s @ rest \<and> length s = 2 ^ d \<and> h = full_root c z d s \<and> segments c z ds q rest)"

lemma segments_fills: "segments c z ds q ys \<Longrightarrow> fills c z ds q ys"
  by (induction c z ds q ys rule: segments.induct) (auto intro: fills.intros)

lemma segments_length: "segments c z ds q ys \<Longrightarrow> length q \<le> length ds \<and> length ys = capacity (take (length q) ds)"
  by (induction c z ds q ys rule: segments.induct) auto

lemma segments_part:
  "segments c z ds q ys \<Longrightarrow> length q < length ds \<Longrightarrow> length s \<le> 2 ^ (ds ! length q) \<Longrightarrow>
   fills c z ds (q @ [full_root c z (ds ! length q) s]) (ys @ s)"
proof (induction c z ds q ys rule: segments.induct)
  case (1 c z ds ys)
  then show ?case by (cases ds) (auto intro: fills.part)
next
  case (3 c z d ds h q ys)
  then obtain s1 rest where "ys = s1 @ rest" "length s1 = 2 ^ d" "h = full_root c z d s1" "segments c z ds q rest" by auto
  with 3 show ?case using fills.full [of s1 d c z ds "q @ [full_root c z (ds ! length q) s]" "rest @ s"] by simp
qed simp

lemma segments_more:
  "segments c z ds q ys \<Longrightarrow> length q < length ds \<Longrightarrow> length s = 2 ^ (ds ! length q) \<Longrightarrow>
   segments c z ds (q @ [full_root c z (ds ! length q) s]) (ys @ s)"
proof (induction c z ds q ys rule: segments.induct)
  case (1 c z ds ys)
  then show ?case by (cases ds) auto
next
  case (3 c z d ds h q ys)
  then show ?case by fastforce
qed simp

subsection \<open>Witnesses\<close>

definition witnesses ::
  "nat \<Rightarrow> ('h \<Rightarrow> 'h \<Rightarrow> 'h) \<Rightarrow> 'h \<Rightarrow> 'h IncrementalWitness \<Rightarrow> 'h list \<Rightarrow> 'h list \<Rightarrow> bool" where
  "witnesses Depth c z w xs ys \<longleftrightarrow>
     represents Depth c z (tree w) xs \<and> xs \<noteq> [] \<and>
     (let ds = tree_gaps Depth (tree w); k = length (filled w) in
      case cursor w of
        None \<Rightarrow> segments c z ds (filled w) ys
      | Some t \<Rightarrow>
          k < length ds \<and> cursor_depth w = ds ! k \<and> 0 < ds ! k \<and>
          (\<exists>us rs. ys = us @ rs \<and> segments c z ds (filled w) us \<and> represents Depth c z t rs \<and> rs \<noteq> [] \<and> length rs < 2 ^ (ds ! k)))"

lemma tree_gaps_less: "d \<in> set (tree_gaps Depth t) \<Longrightarrow> length (parents t) < Depth \<Longrightarrow> d < Depth"
proof -
  have "d \<in> set (gaps e ps) \<Longrightarrow> d < e + length ps" for e and ps :: "'a option list" by (induction e ps rule: gaps.induct) auto
  then show "d \<in> set (tree_gaps Depth t) \<Longrightarrow> length (parents t) < Depth \<Longrightarrow> d < Depth"
    by (force simp: tree_gaps_def split: if_splits)
qed

lemma partial_path_fills:
  assumes "witnesses Depth c z w xs ys"
  shows "fills c z (tree_gaps Depth (tree w)) (partial_path c z w) ys"
proof (cases "cursor w")
  case None
  then show ?thesis using assms by (auto simp: witnesses_def partial_path_def Let_def segments_fills)
next
  case (Some t)
  let ?ds = "tree_gaps Depth (tree w)"
  from assms Some obtain us rs where w: "length (filled w) < length ?ds" "cursor_depth w = ?ds ! length (filled w)"
      "0 < ?ds ! length (filled w)" "ys = us @ rs" "segments c z ?ds (filled w) us" "represents Depth c z t rs"
      "length rs < 2 ^ (?ds ! length (filled w))"
    by (auto simp: witnesses_def Let_def)
  have "length (parents t) < cursor_depth w" using represents_parents [OF w(6) _ w(3)] w by simp
  then have "partial_path c z w = filled w @ [full_root c z (?ds ! length (filled w)) rs]"
    using imt_root_represents [OF w(6)] Some w(2) by (simp add: partial_path_def)
  with segments_part [OF w(5,1), of rs] w(4,7) show ?thesis by simp
qed

lemma witness_root_val: "witnesses Depth c z w xs ys \<Longrightarrow> witness_root Depth c z w = full_root c z Depth (xs @ ys)"
  unfolding witness_root_def
  by (intro imt_root_val partial_path_fills) (auto simp: witnesses_def represents_def wfcheck_iff Let_def split: option.splits)

lemma witness_append_ok:
  assumes W: "witnesses Depth c z w xs ys" and room: "length xs + length ys < 2 ^ Depth"
  shows "\<exists>w'. witness_append Depth c z w y = Ok w' \<and> witnesses Depth c z w' xs (ys @ [y]) \<and> tree w' = tree w"
proof -
  let ?ds = "tree_gaps Depth (tree w)" and ?k = "length (filled w)"
  have rep: "represents Depth c z (tree w) xs" "xs \<noteq> []" using W by (simp_all add: witnesses_def Let_def split: option.splits)
  have P: "length (parents (tree w)) < Depth" using rep by (simp add: represents_def wfcheck_iff)
  have total: "length xs + capacity ?ds = 2 ^ Depth" by (rule represents_room [OF rep])
  have lt: "i < length ?ds \<Longrightarrow> ?ds ! i < Depth" for i using tree_gaps_less [OF nth_mem P] by simp
  show ?thesis
  proof (cases "cursor w")
    case None
    then have seg: "segments c z ?ds (filled w) ys" using W by (simp add: witnesses_def Let_def)
    have k: "?k < length ?ds"
    proof (rule ccontr)
      assume "\<not> ?k < length ?ds"
      with segments_length [OF seg] total room show False by simp
    qed
    have "left (tree w) \<noteq> None" using rep by (auto elim!: representsE)
    then have nd: "next_depth (tree w) ?k = ?ds ! ?k" using next_depth_val(1) [OF _ P, of ?k] k by simp
    show ?thesis
    proof (cases "?ds ! ?k = 0")
      case True
      then show ?thesis using segments_more [OF seg k, of "[y]"] nd lt [OF k] rep None
        by (simp add: witness_append_def witnesses_def Let_def)
    next
      case False
      obtain t where t: "imt_append Depth c IncrementalMerkleTree_empty y = Ok t" "represents Depth c z t ([] @ [y])"
        using imt_append_ok [OF represents_empty [of Depth c z], of y] P by auto
      let ?w = "w\<lparr> cursor := Some t, cursor_depth := ?ds ! ?k \<rparr>"
      have "length [y] < 2 ^ (?ds ! ?k)" using False one_less_power [of "2 :: nat" "?ds ! ?k"] by simp
      with seg t(2) have "\<exists>us rs. ys @ [y] = us @ rs \<and> segments c z ?ds (filled w) us \<and> represents Depth c z t rs \<and> rs \<noteq> [] \<and>
          length rs < 2 ^ (?ds ! ?k)" by (intro exI [of _ ys] exI [of _ "[y]"]) simp
      then have "witnesses Depth c z ?w xs (ys @ [y])" using k False rep by (simp add: witnesses_def Let_def)
      then show ?thesis using t(1) nd lt [OF k] None False by (simp add: witness_append_def Let_def)
    qed
  next
    case (Some t)
    then obtain us rs where w: "?k < length ?ds" "cursor_depth w = ?ds ! ?k" "0 < ?ds ! ?k" "ys = us @ rs"
        "segments c z ?ds (filled w) us" "represents Depth c z t rs" "rs \<noteq> []" "length rs < 2 ^ (?ds ! ?k)"
      using W by (auto simp: witnesses_def Let_def)
    have "length rs < 2 ^ Depth" using room w by simp
    then obtain t' where t': "imt_append Depth c t y = Ok t'" "represents Depth c z t' (rs @ [y])"
      using imt_append_ok [OF w(6), of y] P by auto
    have full: "is_complete t' (?ds ! ?k) \<longleftrightarrow> length (rs @ [y]) = 2 ^ (?ds ! ?k)" by (rule is_complete_iff [OF t'(2) w(3)])
    have "length (parents t') < ?ds ! ?k" using represents_parents [OF t'(2) _ w(3)] w(8) by simp
    then have rt: "imt_root c z t' (?ds ! ?k) [] = full_root c z (?ds ! ?k) (rs @ [y])" by (rule imt_root_represents [OF t'(2)])
    show ?thesis
    proof (cases "is_complete t' (?ds ! ?k)")
      case True
      then show ?thesis using segments_more [OF w(5,1), of "rs @ [y]"] full rt t' w(2,4) rep Some
        by (simp add: witness_append_def witnesses_def Let_def)
    next
      case False
      let ?w = "w\<lparr> cursor := Some t' \<rparr>"
      have "length (rs @ [y]) < 2 ^ (?ds ! ?k)" using False full w(8) by simp
      with w(4,5) t'(2) have "\<exists>us' rs'. ys @ [y] = us' @ rs' \<and> segments c z ?ds (filled w) us' \<and> represents Depth c z t' rs' \<and>
          rs' \<noteq> [] \<and> length rs' < 2 ^ (?ds ! ?k)" by (intro exI [of _ us] exI [of _ "rs @ [y]"]) simp
      then have "witnesses Depth c z ?w xs (ys @ [y])" using w(1-3) rep by (simp add: witnesses_def Let_def)
      then show ?thesis using False t'(1) w(2) Some by (simp add: witness_append_def)
    qed
  qed
qed

subsection \<open>Paths\<close>

text \<open>What a verifier computes from a leaf and a path, and the number that the index bits spell.\<close>

fun auth_root :: "('h \<Rightarrow> 'h \<Rightarrow> 'h) \<Rightarrow> 'h \<Rightarrow> (bool \<times> 'h) list \<Rightarrow> 'h" where
  "auth_root c x [] = x"
| "auth_root c x ((b, h) # steps) = auth_root c (if b then c h x else c x h) steps"

fun index_value :: "bool list \<Rightarrow> nat" where
  "index_value [] = 0"
| "index_value (b # bs) = (if b then 1 else 0) + 2 * index_value bs"

lemma path_fill_auth: "auth_root c x (path_fill c z n d q) = root_fill c z n d x q"
  by (induction n arbitrary: d x q) (auto split: prod.splits)

lemma path_fill_shape: "length (path_fill c z n d q) = n" "index_value (map fst (path_fill c z n d q)) = 0"
  by (induction n arbitrary: d q) (auto split: prod.splits)

lemma path_parents_auth:
  "path_parents c z d q ps = (d', steps, q') \<Longrightarrow> root_parents c z d x q ps = (d'', rt, q'') \<Longrightarrow>
   q'' = q' \<and> d'' = d' \<and> rt = auth_root c x steps \<and> d' = d + length ps \<and> length steps = length ps"
proof (induction ps arbitrary: d q x steps)
  case (Cons p ps)
  then show ?case by (cases p) (fastforce split: prod.splits)+
qed simp

lemma path_parents_index:
  "index_value bs = 0 \<Longrightarrow> path_parents c z d q ps = (d', steps, q') \<Longrightarrow>
   size_parents e ps = 2 ^ Suc e * index_value (map fst steps @ bs)"
proof (induction ps arbitrary: d q e steps)
  case (Cons p ps)
  then show ?case by (cases p) (fastforce split: prod.splits)+
qed simp

lemma path_authenticates:
  assumes rep: "represents Depth c z t xs" "xs \<noteq> []"
  obtains steps where "imt_path_steps Depth c z t q = Ok steps" "length steps = Depth"
    "auth_root c (last xs) steps = imt_root c z t Depth q" "index_value (map fst steps) = length xs - 1"
proof -
  have P: "length (parents t) < Depth" using rep by (simp add: represents_def wfcheck_iff)
  obtain l where l: "left t = Some l" using rep by (auto elim!: representsE)
  obtain first q1 rt where f: "(if right t \<noteq> None then ((True, l), q) else let (h, q') = filler_next c z q 0 in ((False, h), q')) = (first, q1)"
      "(case right t of Some h \<Rightarrow> (h, q) | None \<Rightarrow> filler_next c z q 0) = (rt, q1)"
      "auth_root c (last xs) [first] = c l rt" "fst first \<longleftrightarrow> right t \<noteq> None"
    using rep l by (cases rule: representsE [OF rep(1)]; cases "filler_next c z q 0") (auto split: prod.splits)
  obtain d steps q2 where s: "path_parents c z 1 q1 (parents t) = (d, steps, q2)" by (metis prod_cases3)
  obtain d' rt' q3 where r: "root_parents c z 1 (c l rt) q1 (parents t) = (d', rt', q3)" by (metis prod_cases3)
  let ?all = "first # steps @ path_fill c z (Depth - d) d q2"
  have same: "q3 = q2" "rt' = auth_root c (c l rt) steps" "d' = d" "d = 1 + length (parents t)" "length steps = length (parents t)"
    using path_parents_auth [OF s r] by simp_all
  have split: "auth_root c y (as @ bs) = auth_root c (auth_root c y as) bs" for y as bs
    by (induction c y as rule: auth_root.induct) auto
  show thesis
  proof (rule that [of ?all])
    show "imt_path_steps Depth c z t q = Ok ?all" using f(1) s l by (simp add: imt_path_steps_def)
    show "length ?all = Depth" using same P by (simp add: path_fill_shape)
    show "auth_root c (last xs) ?all = imt_root c z t Depth q"
      using f(2,3) r l same split [of "last xs" "[first]" "steps @ path_fill c z (Depth - d) d q2"]
      by (simp add: imt_root_def split path_fill_auth)
    have "size_parents 0 (parents t) = 2 * index_value (map fst (steps @ path_fill c z (Depth - d) d q2))"
      using path_parents_index [OF _ s, of "map fst (path_fill c z (Depth - d) d q2)" 0] by (simp add: path_fill_shape)
    moreover have "imt_size t = length xs" by (rule represents_size [OF rep(1)])
    ultimately show "index_value (map fst ?all) = length xs - 1" using f(4) l by (simp add: imt_size_def)
  qed
qed

subsection \<open>Sequences of leaves\<close>

fun imt_appends ::
  "nat \<Rightarrow> ('h \<Rightarrow> 'h \<Rightarrow> 'h) \<Rightarrow> 'h IncrementalMerkleTree \<Rightarrow> 'h list \<Rightarrow> (unit, 'h IncrementalMerkleTree) outcome" where
  "imt_appends Depth c t [] = Ok t"
| "imt_appends Depth c t (x # xs) = rbind (imt_append Depth c t x) (\<lambda>t'. imt_appends Depth c t' xs)"

fun witness_appends ::
  "nat \<Rightarrow> ('h \<Rightarrow> 'h \<Rightarrow> 'h) \<Rightarrow> 'h \<Rightarrow> 'h IncrementalWitness \<Rightarrow> 'h list \<Rightarrow> (unit, 'h IncrementalWitness) outcome" where
  "witness_appends Depth c z w [] = Ok w"
| "witness_appends Depth c z w (y # ys) = rbind (witness_append Depth c z w y) (\<lambda>w'. witness_appends Depth c z w' ys)"

lemma imt_appends_val:
  "0 < Depth \<Longrightarrow> represents Depth c z t us \<Longrightarrow>
   if length us + length xs \<le> 2 ^ Depth
   then \<exists>t'. imt_appends Depth c t xs = Ok t' \<and> represents Depth c z t' (us @ xs) else imt_appends Depth c t xs = Throw"
proof (induction xs arbitrary: t us)
  case Nil
  then show ?case using represents_le [of Depth c z t us] by auto
next
  case (Cons x xs)
  show ?case
  proof (cases "length us < 2 ^ Depth")
    case True
    then obtain t' where "imt_append Depth c t x = Ok t'" "represents Depth c z t' (us @ [x])"
      using imt_append_ok [OF Cons.prems(2) True Cons.prems(1)] by blast
    with Cons.IH [OF Cons.prems(1), of t' "us @ [x]"] show ?thesis by (simp split: if_splits)
  next
    case False
    then have "imt_append Depth c t x = Throw"
      using imt_append_full [OF Cons.prems(2)] represents_le [OF Cons.prems(2)] Cons.prems(1) by simp
    with False show ?thesis by simp
  qed
qed

lemma witness_appends_val:
  "witnesses Depth c z w xs ys \<Longrightarrow> length xs + length ys + length vs \<le> 2 ^ Depth \<Longrightarrow>
   \<exists>w'. witness_appends Depth c z w vs = Ok w' \<and> witnesses Depth c z w' xs (ys @ vs) \<and> tree w' = tree w"
proof (induction vs arbitrary: w ys)
  case (Cons v vs)
  then obtain w' where "witness_append Depth c z w v = Ok w'" "witnesses Depth c z w' xs (ys @ [v])" "tree w' = tree w"
    using witness_append_ok [of Depth c z w xs ys v] by auto
  with Cons.IH [of w' "ys @ [v]"] Cons.prems show ?case by simp
qed simp

lemma witness_start: "represents Depth c z t xs \<Longrightarrow> xs \<noteq> [] \<Longrightarrow> witnesses Depth c z (imt_witness t) xs []"
  by (simp add: witnesses_def imt_witness_def Let_def)

lemma imt_last_val: "represents Depth c z t xs \<Longrightarrow> xs \<noteq> [] \<Longrightarrow> imt_last t = Ok (last xs)"
  by (auto elim!: representsE simp: imt_last_def)

subsection \<open>The compression function of the program\<close>

text \<open>\<^verbatim>\<open>combine\<close> never throws and is one application of the SHA-256 compression function.\<close>

definition sha256_compress :: "uint256 \<Rightarrow> uint256 \<Rightarrow> uint256" where
  "sha256_compress a b = blob_of_bytes (CSHA256_output (SHA256_ref_compress sha256_Initialize (blob_bytes a @ blob_bytes b)))"

lemma SHA256Compress_combine_ok:
  assumes "length buf = 64"
  shows "SHA256Compress_combine buf a b = Ok (sha256_compress a b)"
proof -
  let ?m = "blob_bytes a @ blob_bytes b"
  let ?h = "foldl (hasher_Write 64 sha256_Transform) (CSHA256 buf) [blob_bytes a, blob_bytes b]"
  have len: "length ?m = 64" by (simp add: blob_bytes_def)
  have "absorbed 64 sha256_Transform sha256_Initialize ?h ([] @ concat [blob_bytes a, blob_bytes b])"
    unfolding CSHA256_def by (rule sha256.Writes_absorbed [OF sha256.init_absorbed [OF assms]])
  moreover have "md_fold 64 sha256_Transform sha256_Initialize ?m = sha256_Transform sha256_Initialize ?m"
    using len by (subst md_fold.simps) (simp add: md_fold_short)
  ultimately have "hash_bytes ?h = 64" "hash_s ?h = sha256_Transform sha256_Initialize ?m"
    using len by (simp_all add: absorbed_def blob_bytes_def)
  then show ?thesis
    by (simp add: SHA256Compress_combine_def CSHA256_FinalizeNoPadding_def CSHA256_Write_def sha256_compress_def
        sha256_Transform_ref sha256_Initialize_def)
qed

section \<open>Properties\<close>

text \<open>
  C32: Appending leaves to an empty tree succeeds exactly as long as the complete tree has room for them. The tree then
  passes its well-formedness check, counts the leaves, and its root is the root of the complete tree over the leaves padded
  with empty ones, although it stores only one hash for each depth.
\<close>

theorem incremental_root:
  assumes "0 < Depth"
  shows "if length xs \<le> 2 ^ Depth
    then \<exists>t. imt_appends Depth c IncrementalMerkleTree_empty xs = Ok t \<and> wfcheck Depth t = Ok () \<and> imt_size t = length xs \<and>
           imt_root c z t Depth [] = full_root c z Depth xs
    else imt_appends Depth c IncrementalMerkleTree_empty xs = Throw"
proof (cases "length xs \<le> 2 ^ Depth")
  case True
  then obtain t where t: "imt_appends Depth c IncrementalMerkleTree_empty xs = Ok t" "represents Depth c z t xs"
    using imt_appends_val [OF assms represents_empty [OF assms], of xs c z] by auto
  moreover have "length (parents t) < Depth" using t(2) by (simp add: represents_def wfcheck_iff)
  ultimately show ?thesis using True represents_size imt_root_represents by (fastforce simp: represents_def)
next
  case False
  then show ?thesis using imt_appends_val [OF assms represents_empty [OF assms], of xs] by simp
qed

theorem incremental_root_witness:
  "\<exists>t. imt_appends INCREMENTAL_MERKLE_TREE_DEPTH sha256_compress IncrementalMerkleTree_empty [1, 2, 3] = Ok t \<and>
     imt_size t = 3 \<and> imt_root sha256_compress 0 t INCREMENTAL_MERKLE_TREE_DEPTH [] = full_root sha256_compress 0 INCREMENTAL_MERKLE_TREE_DEPTH [1, 2, 3]"
proof -
  have "length [1 :: uint256, 2, 3] \<le> 2 ^ INCREMENTAL_MERKLE_TREE_DEPTH" and "length [1 :: uint256, 2, 3] = 3" by simp_all
  then show ?thesis
    using incremental_root [of INCREMENTAL_MERKLE_TREE_DEPTH "[1, 2, 3]" sha256_compress 0] unfolding if_P
    by (metis zero_less_numeral)
qed

text \<open>
  C33: A witness made when a leaf was the last one keeps authenticating that leaf. However many leaves are appended to it
  afterwards, up to the capacity, every step succeeds, its root is the root of the tree over all the leaves, and its path leads from
  the leaf to that root, with index bits that spell the position of the leaf.
\<close>

theorem witness_authenticates:
  assumes "imt_appends Depth c IncrementalMerkleTree_empty xs = Ok t" and "xs \<noteq> []"
    and "length xs + length ys \<le> 2 ^ Depth" and "0 < Depth"
  shows "\<exists>w steps. witness_appends Depth c z (imt_witness t) ys = Ok w \<and>
     witness_root Depth c z w = full_root c z Depth (xs @ ys) \<and> witness_element w = Ok (last xs) \<and>
     witness_path Depth c z bytes w =
       Ok \<lparr> authentication_path = rev (map (\<lambda>(_, h). convertBytesVectorToVector (bytes h)) steps), index = rev (map fst steps) \<rparr> \<and>
     length steps = Depth \<and> auth_root c (last xs) steps = full_root c z Depth (xs @ ys) \<and>
     index_value (map fst steps) = length xs - 1"
proof -
  have rep: "represents Depth c z t xs"
    using imt_appends_val [OF assms(4) represents_empty [OF assms(4)], of xs c z] assms(1,3) by auto
  obtain w where w: "witness_appends Depth c z (imt_witness t) ys = Ok w" "witnesses Depth c z w xs ys" "tree w = t"
    using witness_appends_val [OF witness_start [OF rep assms(2)], of ys] assms(3) by (auto simp: imt_witness_def)
  obtain steps where s: "imt_path_steps Depth c z t (partial_path c z w) = Ok steps" "length steps = Depth"
      "auth_root c (last xs) steps = imt_root c z t Depth (partial_path c z w)" "index_value (map fst steps) = length xs - 1"
    by (rule path_authenticates [OF rep assms(2)])
  have rt: "witness_root Depth c z w = full_root c z Depth (xs @ ys)" by (rule witness_root_val [OF w(2)])
  show ?thesis
    using w(1,3) s rt imt_last_val [OF rep assms(2)]
    by (intro exI [of _ w] exI [of _ steps]) (simp add: witness_element_def witness_path_def imt_path_def witness_root_def)
qed

theorem witness_authenticates_witness:
  "\<exists>w steps. witness_appends 4 sha256_compress 0 (imt_witness \<lparr> left = Some 1, right = Some 2, parents = [] \<rparr>) [3, 4, 5] = Ok w \<and>
     witness_root 4 sha256_compress 0 w = full_root sha256_compress 0 4 [1, 2, 3, 4, 5] \<and>
     auth_root sha256_compress 2 steps = full_root sha256_compress 0 4 [1, 2, 3, 4, 5] \<and> index_value (map fst steps) = 1"
proof -
  have "imt_appends 4 sha256_compress IncrementalMerkleTree_empty [1, 2] = Ok \<lparr> left = Some 1, right = Some 2, parents = [] \<rparr>"
    by (simp add: imt_append_def is_complete_def IncrementalMerkleTree_empty_def)
  moreover have "[1, 2] @ [3, 4, 5] = [1, 2, 3, 4, 5 :: uint256]" "last [1, 2 :: uint256] = 2" "length [1, 2 :: uint256] - 1 = 1" by simp_all
  moreover have "[1, 2 :: uint256] \<noteq> []" "length [1, 2 :: uint256] + length [3, 4, 5 :: uint256] \<le> 2 ^ 4" by simp_all
  ultimately show ?thesis
    using witness_authenticates [of 4 sha256_compress "[1, 2]" _ "[3, 4, 5]" 0] by (metis zero_less_numeral)
qed

end
