(* ===== verification/Coins.thy ===== *)
theory Coins
  imports Incremental_Tree "HOL-Library.AList"
begin

text \<open>
  The set of unspent outputs: \<^verbatim>\<open>src/src/coins.h\<close>, \<^verbatim>\<open>src/src/coins.cpp\<close> and the database view of
  \<^verbatim>\<open>src/src/txdb.cpp\<close>. A view is the database with a list of caches above it, the top one first; the \<^verbatim>\<open>base\<close> of a cache
  is the rest of the list. Reading through a cache fills it and the caches below, so the readers return the new list. The maps of
  a cache are association lists in the order of the iteration, the database maps functions. The counters of
  memory use are left out. A \<^verbatim>\<open>CCoinsModifier\<close> is the function that is applied between its construction and its
  destruction, so two of them never overlap and \<^verbatim>\<open>hasModifier\<close> is always false outside. A failed assertion is \<open>Abort\<close>.
\<close>

section \<open>Coins\<close>

record CCoins =
  fCoinBase :: bool
  coins_vout :: "CTxOut list"
  coins_nHeight :: int
  coins_nVersion :: int

definition coins_Clear :: CCoins where
  "coins_Clear = \<lparr> fCoinBase = False, coins_vout = [], coins_nHeight = 0, coins_nVersion = 0 \<rparr>"

definition Cleanup :: "CCoins \<Rightarrow> CCoins" where
  "Cleanup coins = coins\<lparr> coins_vout := rev (dropWhile CTxOut_IsNull (rev (coins_vout coins))) \<rparr>"

definition ClearUnspendable :: "CCoins \<Rightarrow> CCoins" where
  "ClearUnspendable coins =
     Cleanup (coins\<lparr> coins_vout :=
       map (\<lambda>txout. if IsUnspendable (scriptPubKey txout) then CTxOut_SetNull else txout) (coins_vout coins) \<rparr>)"

definition FromTx :: "CTransaction \<Rightarrow> int \<Rightarrow> CCoins" where
  "FromTx tx nHeightIn =
     ClearUnspendable
       \<lparr> fCoinBase = IsCoinBase tx, coins_vout = vout tx, coins_nHeight = nHeightIn, coins_nVersion = nVersion tx \<rparr>"

definition IsPruned :: "CCoins \<Rightarrow> bool" where
  "IsPruned coins \<longleftrightarrow> list_all CTxOut_IsNull (coins_vout coins)"

definition coins_equal :: "CCoins \<Rightarrow> CCoins \<Rightarrow> bool" where
  "coins_equal a b =
     (if IsPruned a \<and> IsPruned b then True
      else fCoinBase a = fCoinBase b \<and> coins_nHeight a = coins_nHeight b \<and> coins_nVersion a = coins_nVersion b \<and>
           coins_vout a = coins_vout b)"

definition IsAvailable :: "CCoins \<Rightarrow> uint32 \<Rightarrow> bool" where
  "IsAvailable coins nPos \<longleftrightarrow> unat nPos < length (coins_vout coins) \<and> \<not> CTxOut_IsNull (coins_vout coins ! unat nPos)"

definition Spend :: "CCoins \<Rightarrow> uint32 \<Rightarrow> CCoins \<times> bool" where
  "Spend coins nPos =
     (if unat nPos \<ge> length (coins_vout coins) \<or> CTxOut_IsNull (coins_vout coins ! unat nPos) then (coins, False)
      else (Cleanup (coins\<lparr> coins_vout := (coins_vout coins)[unat nPos := CTxOut_SetNull] \<rparr>), True))"

section \<open>Cache entries and views\<close>

text \<open>The two bits of \<^verbatim>\<open>flags\<close> are two fields.\<close>

record CCoinsCacheEntry =
  entry_coins :: CCoins
  entry_DIRTY :: bool
  entry_FRESH :: bool

type_synonym ZCIncrementalMerkleTree = "uint256 IncrementalMerkleTree"

definition tree_root :: "ZCIncrementalMerkleTree \<Rightarrow> uint256" where
  "tree_root t = imt_root sha256_compress 0 t INCREMENTAL_MERKLE_TREE_DEPTH []"

definition tree_empty_root :: uint256 where
  "tree_empty_root = empty_root sha256_compress 0 INCREMENTAL_MERKLE_TREE_DEPTH"

record CAnchorsCacheEntry =
  anchor_entered :: bool
  anchor_tree :: ZCIncrementalMerkleTree
  anchor_DIRTY :: bool
  anchor_postBurn :: bool

record CNullifiersCacheEntry =
  nf_entered :: bool
  nf_DIRTY :: bool

type_synonym CCoinsMap = "(uint256 \<times> CCoinsCacheEntry) list"
type_synonym CAnchorsMap = "(uint256 \<times> CAnchorsCacheEntry) list"
type_synonym CNullifiersMap = "(uint256 \<times> CNullifiersCacheEntry) list"

record CCoinsViewCache =
  cv_hashBlock :: uint256
  cacheCoins :: CCoinsMap
  cv_hashAnchor :: uint256
  cacheAnchors :: CAnchorsMap
  cacheNullifiers :: CNullifiersMap

definition CCoinsViewCache_new :: CCoinsViewCache where
  "CCoinsViewCache_new =
     \<lparr> cv_hashBlock = 0, cacheCoins = [], cv_hashAnchor = 0, cacheAnchors = [], cacheNullifiers = [] \<rparr>"

text \<open>The key-value store of \<^verbatim>\<open>CCoinsViewDB\<close>, one map for each kind of key.\<close>

record CCoinsViewDB =
  db_coins :: "uint256 \<Rightarrow> CCoins option"
  db_anchor :: "uint256 \<Rightarrow> ZCIncrementalMerkleTree option"
  db_anchor_post :: "uint256 \<Rightarrow> bool"
  db_nullifier :: "uint256 \<Rightarrow> bool"
  db_best_block :: "uint256 option"
  db_best_anchor :: "uint256 option"

section \<open>Reading\<close>

definition db_GetAnchorAt :: "CCoinsViewDB \<Rightarrow> uint256 \<Rightarrow> bool \<Rightarrow> ZCIncrementalMerkleTree option" where
  "db_GetAnchorAt db rt postBurn =
     (if rt = tree_empty_root then Some IncrementalMerkleTree_empty
      else if postBurn \<and> \<not> db_anchor_post db rt then None
      else db_anchor db rt)"

definition db_GetBestBlock :: "CCoinsViewDB \<Rightarrow> uint256" where
  "db_GetBestBlock db = (case db_best_block db of Some h \<Rightarrow> h | None \<Rightarrow> 0)"

definition db_GetBestAnchor :: "CCoinsViewDB \<Rightarrow> uint256" where
  "db_GetBestAnchor db = (case db_best_anchor db of Some h \<Rightarrow> h | None \<Rightarrow> tree_empty_root)"

fun FetchCoins ::
    "CCoinsViewDB \<Rightarrow> CCoinsViewCache \<Rightarrow> CCoinsViewCache list \<Rightarrow> uint256 \<Rightarrow> CCoinsCacheEntry option \<times> CCoinsViewCache list"
  and view_GetCoins :: "CCoinsViewDB \<Rightarrow> CCoinsViewCache list \<Rightarrow> uint256 \<Rightarrow> CCoins option \<times> CCoinsViewCache list" where
  "FetchCoins db c base txid =
     (case map_of (cacheCoins c) txid of
        Some entry \<Rightarrow> (Some entry, c # base)
      | None \<Rightarrow>
          (case view_GetCoins db base txid of
             (None, base') \<Rightarrow> (None, c # base')
           | (Some tmp, base') \<Rightarrow>
               let entry = \<lparr> entry_coins = tmp, entry_DIRTY = False, entry_FRESH = IsPruned tmp \<rparr> in
               (Some entry, c\<lparr> cacheCoins := AList.update txid entry (cacheCoins c) \<rparr> # base')))"
| "view_GetCoins db [] txid = (db_coins db txid, [])"
| "view_GetCoins db (c # base) txid =
     (case FetchCoins db c base txid of
        (None, cs) \<Rightarrow> (None, cs) | (Some entry, cs) \<Rightarrow> (Some (entry_coins entry), cs))"

fun view_HaveCoins :: "CCoinsViewDB \<Rightarrow> CCoinsViewCache list \<Rightarrow> uint256 \<Rightarrow> bool \<times> CCoinsViewCache list" where
  "view_HaveCoins db [] txid = (db_coins db txid \<noteq> None, [])"
| "view_HaveCoins db (c # base) txid =
     (case FetchCoins db c base txid of
        (None, cs) \<Rightarrow> (False, cs) | (Some entry, cs) \<Rightarrow> (coins_vout (entry_coins entry) \<noteq> [], cs))"

fun GetNullifier :: "CCoinsViewDB \<Rightarrow> CCoinsViewCache list \<Rightarrow> uint256 \<Rightarrow> bool \<times> CCoinsViewCache list" where
  "GetNullifier db [] nullifier = (db_nullifier db nullifier, [])"
| "GetNullifier db (c # base) nullifier =
     (case map_of (cacheNullifiers c) nullifier of
        Some entry \<Rightarrow> (nf_entered entry, c # base)
      | None \<Rightarrow>
          let (tmp, base') = GetNullifier db base nullifier in
          (tmp, c\<lparr> cacheNullifiers :=
                   AList.update nullifier \<lparr> nf_entered = tmp, nf_DIRTY = False \<rparr> (cacheNullifiers c) \<rparr> # base'))"

text \<open>\<open>None\<close> is the answer false; the tree is an output parameter that matters only for the answer true.\<close>

fun GetAnchorAt ::
  "CCoinsViewDB \<Rightarrow> CCoinsViewCache list \<Rightarrow> uint256 \<Rightarrow> bool \<Rightarrow> ZCIncrementalMerkleTree option \<times> CCoinsViewCache list" where
  "GetAnchorAt db [] rt postBurn = (db_GetAnchorAt db rt postBurn, [])"
| "GetAnchorAt db (c # base) rt postBurn =
     (case map_of (cacheAnchors c) rt of
        Some entry \<Rightarrow>
          (if anchor_entered entry then if \<not> postBurn \<or> anchor_postBurn entry then Some (anchor_tree entry) else None else None,
           c # base)
      | None \<Rightarrow>
          (case GetAnchorAt db base rt postBurn of
             (None, base') \<Rightarrow> (None, c # base')
           | (Some t, base') \<Rightarrow>
               (Some t,
                c\<lparr> cacheAnchors :=
                  AList.update rt
                    \<lparr> anchor_entered = True, anchor_tree = t, anchor_DIRTY = False, anchor_postBurn = postBurn \<rparr>
                    (cacheAnchors c) \<rparr> # base')))"

fun GetBestBlock :: "CCoinsViewDB \<Rightarrow> CCoinsViewCache list \<Rightarrow> uint256 \<times> CCoinsViewCache list" where
  "GetBestBlock db [] = (db_GetBestBlock db, [])"
| "GetBestBlock db (c # base) =
     (if cv_hashBlock c = 0 then
        let (h, base') = GetBestBlock db base in (h, c\<lparr> cv_hashBlock := h \<rparr> # base')
      else (cv_hashBlock c, c # base))"

fun GetBestAnchor :: "CCoinsViewDB \<Rightarrow> CCoinsViewCache list \<Rightarrow> uint256 \<times> CCoinsViewCache list" where
  "GetBestAnchor db [] = (db_GetBestAnchor db, [])"
| "GetBestAnchor db (c # base) =
     (if cv_hashAnchor c = 0 then
        let (h, base') = GetBestAnchor db base in (h, c\<lparr> cv_hashAnchor := h \<rparr> # base')
      else (cv_hashAnchor c, c # base))"

definition AccessCoins :: "CCoinsViewDB \<Rightarrow> CCoinsViewCache \<Rightarrow> CCoinsViewCache list \<Rightarrow> uint256 \<Rightarrow> CCoins option \<times> CCoinsViewCache list" where
  "AccessCoins db c base txid =
     (case FetchCoins db c base txid of (None, cs) \<Rightarrow> (None, cs) | (Some entry, cs) \<Rightarrow> (Some (entry_coins entry), cs))"

section \<open>Writing\<close>

definition SetBestBlock :: "uint256 \<Rightarrow> CCoinsViewCache \<Rightarrow> CCoinsViewCache" where
  "SetBestBlock hashBlockIn c = c\<lparr> cv_hashBlock := hashBlockIn \<rparr>"

definition SetNullifier :: "CCoinsViewCache \<Rightarrow> uint256 \<Rightarrow> bool \<Rightarrow> CCoinsViewCache" where
  "SetNullifier c nullifier spent =
     c\<lparr> cacheNullifiers :=
       AList.update nullifier \<lparr> nf_entered = spent, nf_DIRTY = True \<rparr> (cacheNullifiers c) \<rparr>"

definition CAnchorsCacheEntry_new :: CAnchorsCacheEntry where
  "CAnchorsCacheEntry_new =
     \<lparr> anchor_entered = False, anchor_tree = IncrementalMerkleTree_empty, anchor_DIRTY = False, anchor_postBurn = False \<rparr>"

definition PushAnchor :: "CCoinsViewDB \<Rightarrow> CCoinsViewCache list \<Rightarrow> ZCIncrementalMerkleTree \<Rightarrow> bool \<Rightarrow> CCoinsViewCache list" where
  "PushAnchor db cs t postBurn =
     (let newrt = tree_root t in
      case GetBestAnchor db cs of
        (currentRoot, c # base) \<Rightarrow>
          (if currentRoot \<noteq> newrt then
             c\<lparr> cacheAnchors :=
                 AList.update newrt
                   \<lparr> anchor_entered = True, anchor_tree = t, anchor_DIRTY = True, anchor_postBurn = postBurn \<rparr> (cacheAnchors c),
               cv_hashAnchor := newrt \<rparr> # base
           else c # base)
      | (_, []) \<Rightarrow> [])"

definition PopAnchor :: "CCoinsViewDB \<Rightarrow> CCoinsViewCache list \<Rightarrow> uint256 \<Rightarrow> bool \<Rightarrow> (unit, CCoinsViewCache list) outcome" where
  "PopAnchor db cs newrt postBurn =
     (case GetBestAnchor db cs of
        (currentRoot, cs1) \<Rightarrow>
          (if currentRoot \<noteq> newrt then
             case GetAnchorAt db cs1 currentRoot postBurn of
               (Some t, c # base) \<Rightarrow>
                 let entry = (case map_of (cacheAnchors c) currentRoot of Some e \<Rightarrow> e | None \<Rightarrow> CAnchorsCacheEntry_new) in
                 Ok (c\<lparr> cacheAnchors :=
                         AList.update currentRoot
                           (entry\<lparr> anchor_entered := False, anchor_postBurn := postBurn, anchor_DIRTY := True \<rparr>)
                           (cacheAnchors c),
                       cv_hashAnchor := newrt \<rparr> # base)
             | _ \<Rightarrow> Abort
           else Ok cs1))"

text \<open>
  \<^verbatim>\<open>ModifyCoins\<close>, the change \<open>f\<close> made through the modifier, and its destructor. \<open>f\<close> also computes a result.
\<close>

definition ModifyCoins_entry ::
  "CCoinsViewDB \<Rightarrow> CCoinsViewCache \<Rightarrow> CCoinsViewCache list \<Rightarrow> uint256 \<Rightarrow> CCoinsCacheEntry \<times> CCoinsViewCache list" where
  "ModifyCoins_entry db c base txid =
     (case map_of (cacheCoins c) txid of
        Some entry \<Rightarrow> (entry\<lparr> entry_DIRTY := True \<rparr>, base)
      | None \<Rightarrow>
          (case view_GetCoins db base txid of
             (None, base') \<Rightarrow> (\<lparr> entry_coins = coins_Clear, entry_DIRTY = True, entry_FRESH = True \<rparr>, base')
           | (Some coins, base') \<Rightarrow> (\<lparr> entry_coins = coins, entry_DIRTY = True, entry_FRESH = IsPruned coins \<rparr>, base')))"

definition CCoinsModifier_release :: "CCoinsViewCache \<Rightarrow> uint256 \<Rightarrow> CCoinsCacheEntry \<Rightarrow> CCoinsViewCache" where
  "CCoinsModifier_release c txid entry =
     (let entry' = entry\<lparr> entry_coins := Cleanup (entry_coins entry) \<rparr> in
      if entry_FRESH entry' \<and> IsPruned (entry_coins entry') then c\<lparr> cacheCoins := AList.delete txid (cacheCoins c) \<rparr>
      else c\<lparr> cacheCoins := AList.update txid entry' (cacheCoins c) \<rparr>)"

definition ModifyCoins ::
  "CCoinsViewDB \<Rightarrow> CCoinsViewCache \<Rightarrow> CCoinsViewCache list \<Rightarrow> uint256 \<Rightarrow> (CCoins \<Rightarrow> CCoins \<times> 'a) \<Rightarrow> 'a \<times> CCoinsViewCache list" where
  "ModifyCoins db c base txid f =
     (let (entry, base') = ModifyCoins_entry db c base txid; (coins', r) = f (entry_coins entry) in
      (r, CCoinsModifier_release c txid (entry\<lparr> entry_coins := coins' \<rparr>) # base'))"

section \<open>Flushing\<close>

fun batch_coins :: "CCoinsMap \<Rightarrow> CCoinsMap \<Rightarrow> (unit, CCoinsMap) outcome" where
  "batch_coins cache [] = Ok cache"
| "batch_coins cache ((txid, entry) # mapCoins) =
     (if entry_DIRTY entry then
        case map_of cache txid of
          None \<Rightarrow>
            (if \<not> IsPruned (entry_coins entry) then
               if \<not> entry_FRESH entry then Abort
               else batch_coins (AList.update txid \<lparr> entry_coins = entry_coins entry, entry_DIRTY = True, entry_FRESH = True \<rparr> cache) mapCoins
             else batch_coins cache mapCoins)
        | Some us \<Rightarrow>
            (if entry_FRESH us \<and> IsPruned (entry_coins entry) then batch_coins (AList.delete txid cache) mapCoins
             else batch_coins (AList.update txid (us\<lparr> entry_coins := entry_coins entry, entry_DIRTY := True \<rparr>) cache) mapCoins)
      else batch_coins cache mapCoins)"

fun batch_anchors :: "CAnchorsMap \<Rightarrow> CAnchorsMap \<Rightarrow> CAnchorsMap" where
  "batch_anchors cache [] = cache"
| "batch_anchors cache ((rt, child) # mapAnchors) =
     (if anchor_DIRTY child then
        case map_of cache rt of
          None \<Rightarrow> batch_anchors (AList.update rt (child\<lparr> anchor_DIRTY := True \<rparr>) cache) mapAnchors
        | Some parent \<Rightarrow>
            let parent1 = (if anchor_entered parent \<noteq> anchor_entered child
                           then parent\<lparr> anchor_entered := anchor_entered child, anchor_DIRTY := True \<rparr> else parent);
                parent2 = (if anchor_postBurn parent1 \<noteq> anchor_postBurn child
                           then parent1\<lparr> anchor_postBurn := anchor_postBurn child, anchor_DIRTY := True \<rparr> else parent1) in
            batch_anchors (AList.update rt parent2 cache) mapAnchors
      else batch_anchors cache mapAnchors)"

fun batch_nullifiers :: "CNullifiersMap \<Rightarrow> CNullifiersMap \<Rightarrow> CNullifiersMap" where
  "batch_nullifiers cache [] = cache"
| "batch_nullifiers cache ((nf, child) # mapNullifiers) =
     (if nf_DIRTY child then
        case map_of cache nf of
          None \<Rightarrow> batch_nullifiers (AList.update nf \<lparr> nf_entered = nf_entered child, nf_DIRTY = True \<rparr> cache) mapNullifiers
        | Some parent \<Rightarrow>
            batch_nullifiers
              (if nf_entered parent \<noteq> nf_entered child
               then AList.update nf \<lparr> nf_entered = nf_entered child, nf_DIRTY = True \<rparr> cache else cache) mapNullifiers
      else batch_nullifiers cache mapNullifiers)"

definition BatchWrite ::
  "CCoinsViewCache \<Rightarrow> CCoinsMap \<Rightarrow> uint256 \<Rightarrow> uint256 \<Rightarrow> CAnchorsMap \<Rightarrow> CNullifiersMap \<Rightarrow> (unit, CCoinsViewCache) outcome" where
  "BatchWrite c mapCoins hashBlockIn hashAnchorIn mapAnchors mapNullifiers =
     rbind (batch_coins (cacheCoins c) mapCoins) (\<lambda>coins.
       Ok (c\<lparr> cacheCoins := coins, cacheAnchors := batch_anchors (cacheAnchors c) mapAnchors,
             cacheNullifiers := batch_nullifiers (cacheNullifiers c) mapNullifiers,
             cv_hashAnchor := hashAnchorIn, cv_hashBlock := hashBlockIn \<rparr>))"

text \<open>The batch of the database; it is written at once.\<close>

definition BatchWriteCoins :: "CCoinsViewDB \<Rightarrow> uint256 \<Rightarrow> CCoins \<Rightarrow> CCoinsViewDB" where
  "BatchWriteCoins db hash coins =
     db\<lparr> db_coins := (db_coins db)(hash := (if IsPruned coins then None else Some coins)) \<rparr>"

definition BatchWriteAnchor :: "CCoinsViewDB \<Rightarrow> uint256 \<Rightarrow> ZCIncrementalMerkleTree \<Rightarrow> bool \<Rightarrow> bool \<Rightarrow> CCoinsViewDB" where
  "BatchWriteAnchor db croot t entered postBurn =
     db\<lparr> db_anchor := (db_anchor db)(croot := (if entered then Some t else None)),
        db_anchor_post := (if postBurn then (db_anchor_post db)(croot := entered) else db_anchor_post db) \<rparr>"

definition BatchWriteNullifier :: "CCoinsViewDB \<Rightarrow> uint256 \<Rightarrow> bool \<Rightarrow> CCoinsViewDB" where
  "BatchWriteNullifier db nf entered = db\<lparr> db_nullifier := (db_nullifier db)(nf := entered) \<rparr>"

definition db_BatchWrite ::
  "CCoinsViewDB \<Rightarrow> CCoinsMap \<Rightarrow> uint256 \<Rightarrow> uint256 \<Rightarrow> CAnchorsMap \<Rightarrow> CNullifiersMap \<Rightarrow> CCoinsViewDB" where
  "db_BatchWrite db mapCoins hashBlock hashAnchor mapAnchors mapNullifiers =
     (let db1 = fold (\<lambda>(h, e) d. if entry_DIRTY e then BatchWriteCoins d h (entry_coins e) else d) mapCoins db;
          db2 = fold (\<lambda>(h, e) d. if anchor_DIRTY e
                  then BatchWriteAnchor d h (anchor_tree e) (anchor_entered e) (anchor_postBurn e) else d) mapAnchors db1;
          db3 = fold (\<lambda>(h, e) d. if nf_DIRTY e then BatchWriteNullifier d h (nf_entered e) else d) mapNullifiers db2;
          db4 = (if hashBlock \<noteq> 0 then db3\<lparr> db_best_block := Some hashBlock \<rparr> else db3) in
      if hashAnchor \<noteq> 0 then db4\<lparr> db_best_anchor := Some hashAnchor \<rparr> else db4)"

fun Flush :: "CCoinsViewDB \<Rightarrow> CCoinsViewCache \<Rightarrow> CCoinsViewCache list \<Rightarrow> (unit, CCoinsViewDB \<times> CCoinsViewCache list) outcome" where
  "Flush db c [] =
     Ok (db_BatchWrite db (cacheCoins c) (cv_hashBlock c) (cv_hashAnchor c) (cacheAnchors c) (cacheNullifiers c),
         [c\<lparr> cacheCoins := [], cacheAnchors := [], cacheNullifiers := [] \<rparr>])"
| "Flush db c (p # base) =
     rbind (BatchWrite p (cacheCoins c) (cv_hashBlock c) (cv_hashAnchor c) (cacheAnchors c) (cacheNullifiers c)) (\<lambda>p'.
       Ok (db, c\<lparr> cacheCoins := [], cacheAnchors := [], cacheNullifiers := [] \<rparr> # p' # base))"

end
