(* ===== verification/Coins_Views.thy ===== *)
theory Coins_Views
  imports Coins
begin

text \<open>
  What the layers of \<^verbatim>\<open>src/src/coins.cpp\<close> guarantee. \<open>view_abs\<close> is the state that a view stands for, \<open>view_ok\<close> the invariant of the
  caches. Every reader is transparent (the locale \<open>transparent_read\<close>), every writer changes one entry of the state, and a flush
  moves the state down unchanged.
\<close>

declare map_of_eq_Some_iff [simp del]

section \<open>What a view shows\<close>

primrec view_coins :: "CCoinsViewDB \<Rightarrow> CCoinsViewCache list \<Rightarrow> uint256 \<Rightarrow> CCoins option" where
  "view_coins db [] = db_coins db"
| "view_coins db (c # base) =
     (\<lambda>txid. case map_of (cacheCoins c) txid of Some e \<Rightarrow> Some (entry_coins e) | None \<Rightarrow> view_coins db base txid)"

definition unspent :: "CCoins option \<Rightarrow> CCoins option" where
  "unspent r = (case r of Some coins \<Rightarrow> if IsPruned coins then None else Some coins | None \<Rightarrow> None)"

text \<open>The unspent outputs: a record with nothing left to spend counts as absent.\<close>

definition view_unspent :: "CCoinsViewDB \<Rightarrow> CCoinsViewCache list \<Rightarrow> uint256 \<Rightarrow> CCoins option" where
  "view_unspent db cs txid = unspent (view_coins db cs txid)"

primrec view_nullifier :: "CCoinsViewDB \<Rightarrow> CCoinsViewCache list \<Rightarrow> uint256 \<Rightarrow> bool" where
  "view_nullifier db [] = db_nullifier db"
| "view_nullifier db (c # base) =
     (\<lambda>n. case map_of (cacheNullifiers c) n of Some e \<Rightarrow> nf_entered e | None \<Rightarrow> view_nullifier db base n)"

text \<open>Whether an anchor is known, without the condition on the burn.\<close>

primrec view_anchor :: "CCoinsViewDB \<Rightarrow> CCoinsViewCache list \<Rightarrow> uint256 \<Rightarrow> bool" where
  "view_anchor db [] = (\<lambda>rt. db_GetAnchorAt db rt False \<noteq> None)"
| "view_anchor db (c # base) =
     (\<lambda>rt. case map_of (cacheAnchors c) rt of Some e \<Rightarrow> anchor_entered e | None \<Rightarrow> view_anchor db base rt)"

primrec view_best_block :: "CCoinsViewDB \<Rightarrow> CCoinsViewCache list \<Rightarrow> uint256" where
  "view_best_block db [] = db_GetBestBlock db"
| "view_best_block db (c # base) = (if cv_hashBlock c = 0 then view_best_block db base else cv_hashBlock c)"

primrec view_best_anchor :: "CCoinsViewDB \<Rightarrow> CCoinsViewCache list \<Rightarrow> uint256" where
  "view_best_anchor db [] = db_GetBestAnchor db"
| "view_best_anchor db (c # base) = (if cv_hashAnchor c = 0 then view_best_anchor db base else cv_hashAnchor c)"

lemmas view_defs = view_unspent_def view_coins.simps view_nullifier.simps view_anchor.simps view_best_block.simps view_best_anchor.simps

text \<open>
  The invariant of a cache above the rest of a view: an entry that is not dirty repeats what the base shows, the base has nothing
  unspent for a fresh entry, and an entry that is not fresh was taken from the cache below.
\<close>

definition coins_entry_ok :: "CCoinsViewDB \<Rightarrow> CCoinsViewCache list \<Rightarrow> uint256 \<Rightarrow> CCoinsCacheEntry \<Rightarrow> bool" where
  "coins_entry_ok db base txid e \<longleftrightarrow>
     (if entry_FRESH e then view_unspent db base txid = None
      else (case base of [] \<Rightarrow> True | p # _ \<Rightarrow> txid \<in> fst ` set (cacheCoins p))) \<and>
     (\<not> entry_DIRTY e \<longrightarrow> view_coins db base txid = Some (entry_coins e))"

definition cache_ok :: "CCoinsViewDB \<Rightarrow> CCoinsViewCache \<Rightarrow> CCoinsViewCache list \<Rightarrow> bool" where
  "cache_ok db c base \<longleftrightarrow>
     distinct (map fst (cacheCoins c)) \<and> distinct (map fst (cacheNullifiers c)) \<and> distinct (map fst (cacheAnchors c)) \<and>
     (\<forall>(txid, e) \<in> set (cacheCoins c). coins_entry_ok db base txid e) \<and>
     (\<forall>(n, e) \<in> set (cacheNullifiers c). \<not> nf_DIRTY e \<longrightarrow> nf_entered e = view_nullifier db base n) \<and>
     (\<forall>(rt, e) \<in> set (cacheAnchors c). \<not> anchor_DIRTY e \<longrightarrow> anchor_entered e = view_anchor db base rt)"

fun view_ok :: "CCoinsViewDB \<Rightarrow> CCoinsViewCache list \<Rightarrow> bool" where
  "view_ok db [] = True"
| "view_ok db (c # base) = (cache_ok db c base \<and> view_ok db base)"

lemma ball_alist:
  "distinct (map fst al) \<Longrightarrow> (\<forall>(k, v) \<in> set al. P k v) \<longleftrightarrow> (\<forall>k v. map_of al k = Some v \<longrightarrow> P k v)"
  by (auto simp: map_of_eq_Some_iff)

lemma distinct_alist [simp]:
  "distinct (map fst al) \<Longrightarrow> distinct (map fst (AList.update k v al))"
  "distinct (map fst al) \<Longrightarrow> distinct (map fst (AList.delete k al))"
  by (simp_all add: distinct_update distinct_delete)

lemma cache_ok_iff:
  "cache_ok db c base \<longleftrightarrow>
     distinct (map fst (cacheCoins c)) \<and> distinct (map fst (cacheNullifiers c)) \<and> distinct (map fst (cacheAnchors c)) \<and>
     (\<forall>txid e. map_of (cacheCoins c) txid = Some e \<longrightarrow> coins_entry_ok db base txid e) \<and>
     (\<forall>n e. map_of (cacheNullifiers c) n = Some e \<longrightarrow> \<not> nf_DIRTY e \<longrightarrow> nf_entered e = view_nullifier db base n) \<and>
     (\<forall>rt e. map_of (cacheAnchors c) rt = Some e \<longrightarrow> \<not> anchor_DIRTY e \<longrightarrow> anchor_entered e = view_anchor db base rt)"
  by (simp add: cache_ok_def ball_alist cong: conj_cong)

text \<open>What is the same in two views of the same shape, the second possibly with fuller caches.\<close>

definition filled_view :: "CCoinsViewDB \<Rightarrow> CCoinsViewCache list \<Rightarrow> CCoinsViewCache list \<Rightarrow> bool" where
  "filled_view db cs cs' \<longleftrightarrow>
     length cs' = length cs \<and> view_ok db cs' \<and>
     view_coins db cs' = view_coins db cs \<and> view_nullifier db cs' = view_nullifier db cs \<and> view_anchor db cs' = view_anchor db cs \<and>
     view_best_block db cs' = view_best_block db cs \<and> view_best_anchor db cs' = view_best_anchor db cs \<and>
     (case (cs, cs') of (p # _, p' # _) \<Rightarrow> fst ` set (cacheCoins p) \<subseteq> fst ` set (cacheCoins p') | _ \<Rightarrow> True)"

lemma filled_refl: "view_ok db cs \<Longrightarrow> filled_view db cs cs"
  by (auto simp: filled_view_def split: list.splits)

lemma filled_entry_ok: "filled_view db cs cs' \<Longrightarrow> coins_entry_ok db cs txid e \<Longrightarrow> coins_entry_ok db cs' txid e"
  by (auto simp: filled_view_def coins_entry_ok_def view_unspent_def split: list.splits if_splits)

lemma filled_below:
  assumes "filled_view db base base'" "cache_ok db c base"
  shows "filled_view db (c # base) (c # base')"
proof -
  have "cache_ok db c base'"
    using assms filled_entry_ok [OF assms(1)] by (simp add: cache_ok_iff filled_view_def)
  with assms show ?thesis by (simp add: filled_view_def cong: option.case_cong)
qed

section \<open>Reading is transparent\<close>

lemma dom_alist: "fst ` set al = dom (map_of al)"
  by (simp add: dom_map_of_conv_image_fst)

lemma GetCoins_filled:
  "view_ok db cs \<Longrightarrow>
   fst (view_GetCoins db cs txid) = view_coins db cs txid \<and> filled_view db cs (snd (view_GetCoins db cs txid)) \<and>
   (case snd (view_GetCoins db cs txid) of [] \<Rightarrow> True
    | p # _ \<Rightarrow> view_coins db cs txid \<noteq> None \<longrightarrow> txid \<in> fst ` set (cacheCoins p))"
proof (induction cs)
  case Nil
  then show ?case by (simp add: filled_refl)
next
  case (Cons c base)
  then have ok: "cache_ok db c base" "view_ok db base" by simp_all
  show ?case
  proof (cases "map_of (cacheCoins c) txid")
    case (Some e)
    then show ?thesis using filled_refl [OF Cons.prems] by (auto simp: dom_alist)
  next
    case None
    obtain r base' where g: "view_GetCoins db base txid = (r, base')" by (cases "view_GetCoins db base txid")
    with Cons.IH ok have r: "r = view_coins db base txid" and f: "filled_view db base base'"
      and top: "\<And>p rest. base' = p # rest \<Longrightarrow> r \<noteq> None \<Longrightarrow> txid \<in> fst ` set (cacheCoins p)" by auto
    show ?thesis
    proof (cases r)
      case None
      then show ?thesis using \<open>map_of (cacheCoins c) txid = None\<close> g r filled_below [OF f ok(1)] by simp
    next
      case (Some tmp)
      let ?e = "\<lparr> entry_coins = tmp, entry_DIRTY = False, entry_FRESH = IsPruned tmp \<rparr>"
      let ?c = "c\<lparr> cacheCoins := AList.update txid ?e (cacheCoins c) \<rparr>"
      have "coins_entry_ok db base' txid ?e"
        using Some r f top by (auto simp: coins_entry_ok_def view_unspent_def unspent_def filled_view_def split: list.splits)
      then have "cache_ok db ?c base'"
        using filled_below [OF f ok(1)] by (simp add: filled_view_def cache_ok_iff update_conv')
      moreover have "view_coins db (?c # base') = view_coins db (c # base)"
        using \<open>map_of (cacheCoins c) txid = None\<close> Some r f by (auto simp: update_conv' filled_view_def fun_eq_iff cong: option.case_cong)
      ultimately have "filled_view db (c # base) (?c # base')" using f by (auto simp: filled_view_def dom_alist update_conv' cong: option.case_cong)
      then show ?thesis using \<open>map_of (cacheCoins c) txid = None\<close> g [unfolded Some] r [unfolded Some, symmetric]
        by (simp add: dom_alist update_conv' Let_def)
    qed
  qed
qed

lemma GetNullifier_filled:
  "view_ok db cs \<Longrightarrow>
   fst (GetNullifier db cs n) = view_nullifier db cs n \<and> filled_view db cs (snd (GetNullifier db cs n))"
proof (induction cs)
  case Nil
  then show ?case by (simp add: filled_refl)
next
  case (Cons c base)
  then have ok: "cache_ok db c base" "view_ok db base" by simp_all
  show ?case
  proof (cases "map_of (cacheNullifiers c) n")
    case (Some e)
    then show ?thesis using filled_refl [OF Cons.prems] by simp
  next
    case None
    obtain r base' where g: "GetNullifier db base n = (r, base')" by (cases "GetNullifier db base n")
    with Cons.IH ok have r: "r = view_nullifier db base n" and f: "filled_view db base base'" by auto
    let ?c = "c\<lparr> cacheNullifiers := AList.update n \<lparr> nf_entered = r, nf_DIRTY = False \<rparr> (cacheNullifiers c) \<rparr>"
    have "cache_ok db ?c base'"
      using filled_below [OF f ok(1)] f r by (simp add: filled_view_def cache_ok_iff update_conv')
    moreover have "view_nullifier db (?c # base') = view_nullifier db (c # base)"
      using None r f by (auto simp: update_conv' filled_view_def fun_eq_iff cong: option.case_cong)
    ultimately have "filled_view db (c # base) (?c # base')" using f by (simp add: filled_view_def cong: option.case_cong)
    then show ?thesis using None g r by simp
  qed
qed

lemma GetAnchorAt_filled:
  "view_ok db cs \<Longrightarrow>
   (fst (GetAnchorAt db cs rt postBurn) \<noteq> None \<longrightarrow> view_anchor db cs rt) \<and>
   (\<not> postBurn \<longrightarrow> (fst (GetAnchorAt db cs rt postBurn) \<noteq> None) = view_anchor db cs rt) \<and>
   filled_view db cs (snd (GetAnchorAt db cs rt postBurn))"
proof (induction cs)
  case Nil
  then show ?case by (auto simp: filled_refl db_GetAnchorAt_def)
next
  case (Cons c base)
  then have ok: "cache_ok db c base" "view_ok db base" by simp_all
  show ?case
  proof (cases "map_of (cacheAnchors c) rt")
    case (Some e)
    then show ?thesis using filled_refl [OF Cons.prems] by simp
  next
    case None
    obtain r base' where g: "GetAnchorAt db base rt postBurn = (r, base')" by (cases "GetAnchorAt db base rt postBurn")
    with Cons.IH ok have r: "r \<noteq> None \<longrightarrow> view_anchor db base rt" "\<not> postBurn \<longrightarrow> (r \<noteq> None) = view_anchor db base rt"
      and f: "filled_view db base base'" by auto
    show ?thesis
    proof (cases r)
      case None
      then show ?thesis using \<open>map_of (cacheAnchors c) rt = None\<close> g r filled_below [OF f ok(1)] by (cases postBurn) simp_all
    next
      case (Some t)
      let ?e = "\<lparr> anchor_entered = True, anchor_tree = t, anchor_DIRTY = False, anchor_postBurn = postBurn \<rparr>"
      let ?c = "c\<lparr> cacheAnchors := AList.update rt ?e (cacheAnchors c) \<rparr>"
      have "cache_ok db ?c base'"
        using filled_below [OF f ok(1)] f r Some by (simp add: filled_view_def cache_ok_iff update_conv')
      moreover have "view_anchor db (?c # base') = view_anchor db (c # base)"
        using \<open>map_of (cacheAnchors c) rt = None\<close> r f Some
        by (auto simp: update_conv' filled_view_def fun_eq_iff cong: option.case_cong)
      ultimately have "filled_view db (c # base) (?c # base')" using f by (simp add: filled_view_def cong: option.case_cong)
      then show ?thesis using \<open>map_of (cacheAnchors c) rt = None\<close> g r Some by (cases postBurn) simp_all
    qed
  qed
qed

lemma GetBestBlock_filled:
  "view_ok db cs \<Longrightarrow> fst (GetBestBlock db cs) = view_best_block db cs \<and> filled_view db cs (snd (GetBestBlock db cs))"
proof (induction cs)
  case (Cons c base)
  then have ok: "cache_ok db c base" "view_ok db base" by simp_all
  obtain r base' where g: "GetBestBlock db base = (r, base')" by (cases "GetBestBlock db base")
  with Cons.IH ok have r: "r = view_best_block db base" and f: "filled_view db base base'" by auto
  from filled_below [OF f ok(1)] have "filled_view db (c # base) (c\<lparr> cv_hashBlock := r \<rparr> # base')" if "cv_hashBlock c = 0"
    using that r f by (simp add: filled_view_def cache_ok_def)
  then show ?case using g r filled_refl [OF Cons.prems] by simp
qed (simp add: filled_refl)

lemma GetBestAnchor_filled:
  "view_ok db cs \<Longrightarrow> fst (GetBestAnchor db cs) = view_best_anchor db cs \<and> filled_view db cs (snd (GetBestAnchor db cs))"
proof (induction cs)
  case (Cons c base)
  then have ok: "cache_ok db c base" "view_ok db base" by simp_all
  obtain r base' where g: "GetBestAnchor db base = (r, base')" by (cases "GetBestAnchor db base")
  with Cons.IH ok have r: "r = view_best_anchor db base" and f: "filled_view db base base'" by auto
  from filled_below [OF f ok(1)] have "filled_view db (c # base) (c\<lparr> cv_hashAnchor := r \<rparr> # base')" if "cv_hashAnchor c = 0"
    using that r f by (simp add: filled_view_def cache_ok_def)
  then show ?case using g r filled_refl [OF Cons.prems] by simp
qed (simp add: filled_refl)

section \<open>Writing changes one entry\<close>

text \<open>
  The state that a view stands for. Two views of the same shape with the same state cannot be told apart by reading,
  except through the burn flag of an anchor.
\<close>

record view_state =
  st_unspent :: "uint256 \<Rightarrow> CCoins option"
  st_nullifier :: "uint256 \<Rightarrow> bool"
  st_anchor :: "uint256 \<Rightarrow> bool"
  st_best_block :: uint256
  st_best_anchor :: uint256

definition view_abs :: "CCoinsViewDB \<Rightarrow> CCoinsViewCache list \<Rightarrow> view_state" where
  "view_abs db cs =
     \<lparr> st_unspent = view_unspent db cs, st_nullifier = view_nullifier db cs, st_anchor = view_anchor db cs,
       st_best_block = view_best_block db cs, st_best_anchor = view_best_anchor db cs \<rparr>"

lemma filled_abs: "filled_view db cs cs' \<Longrightarrow> view_ok db cs' \<and> length cs' = length cs \<and> view_abs db cs' = view_abs db cs"
  by (auto simp: filled_view_def view_abs_def view_unspent_def fun_eq_iff)

lemma list_all_dropWhile [simp]: "list_all P (dropWhile P xs) = list_all P xs"
  by (induction xs) auto

lemma IsPruned_Cleanup [simp]: "IsPruned (Cleanup coins) = IsPruned coins"
  by (simp add: IsPruned_def Cleanup_def)

lemma Cleanup_idem [simp]: "Cleanup (Cleanup coins) = Cleanup coins"
  by (simp add: Cleanup_def dropWhile_idem)

text \<open>The record that a modifier starts from.\<close>

definition current_coins :: "CCoinsViewDB \<Rightarrow> CCoinsViewCache list \<Rightarrow> uint256 \<Rightarrow> CCoins" where
  "current_coins db cs txid = (case view_coins db cs txid of Some coins \<Rightarrow> coins | None \<Rightarrow> coins_Clear)"

lemma current_coins_unspent: "view_unspent db cs txid = Some coins \<Longrightarrow> current_coins db cs txid = coins"
  by (auto simp: view_unspent_def unspent_def current_coins_def split: option.splits if_splits)

lemma current_coins_pruned: "view_unspent db cs txid = None \<Longrightarrow> IsPruned (current_coins db cs txid)"
  by (auto simp: view_unspent_def unspent_def current_coins_def coins_Clear_def IsPruned_def split: option.splits if_splits)

lemma ModifyCoins_entry_ok:
  assumes ok: "cache_ok db c base" "view_ok db base" and e: "ModifyCoins_entry db c base txid = (e, base')"
  shows "filled_view db base base' \<and> entry_coins e = current_coins db (c # base) txid \<and> entry_DIRTY e \<and> coins_entry_ok db base' txid e"
proof (cases "map_of (cacheCoins c) txid")
  case (Some e0)
  then have "coins_entry_ok db base txid e0" using ok by (simp add: cache_ok_iff)
  then show ?thesis using Some e filled_refl [OF ok(2)] by (auto simp: ModifyCoins_entry_def current_coins_def coins_entry_ok_def)
next
  case None
  obtain q b where q: "view_GetCoins db base txid = (q, b)" by (cases "view_GetCoins db base txid")
  then have g: "q = view_coins db base txid" "filled_view db base b"
      "case b of [] \<Rightarrow> True | p # _ \<Rightarrow> q \<noteq> None \<longrightarrow> txid \<in> fst ` set (cacheCoins p)"
    using GetCoins_filled [OF ok(2), of txid] by auto
  have vb: "view_unspent db b txid = unspent q" using g(1,2) by (simp add: filled_view_def view_unspent_def)
  have cur: "current_coins db (c # base) txid = (case q of Some coins \<Rightarrow> coins | None \<Rightarrow> coins_Clear)"
    using None g(1) by (simp add: current_coins_def)
  show ?thesis
  proof (cases q)
    case None
    then show ?thesis using \<open>map_of (cacheCoins c) txid = None\<close> e q g(2) vb cur
      by (auto simp: ModifyCoins_entry_def coins_entry_ok_def unspent_def)
  next
    case (Some coins)
    have "coins_entry_ok db b txid \<lparr> entry_coins = coins, entry_DIRTY = True, entry_FRESH = IsPruned coins \<rparr>"
      using g(3) vb Some by (cases b) (simp_all add: coins_entry_ok_def unspent_def del: view_coins.simps)
    then show ?thesis using \<open>map_of (cacheCoins c) txid = None\<close> e q g(2) cur Some by (auto simp: ModifyCoins_entry_def)
  qed
qed

lemma ModifyCoins_abs:
  assumes ok: "view_ok db (c # base)" and f: "f (current_coins db (c # base) txid) = (coins', r)"
  obtains cs' where "ModifyCoins db c base txid f = (r, cs')" "view_ok db cs'" "length cs' = Suc (length base)"
    "view_abs db cs' = (view_abs db (c # base))\<lparr> st_unspent := (view_unspent db (c # base))(txid := unspent (Some (Cleanup coins'))) \<rparr>"
proof -
  have okc: "cache_ok db c base" "view_ok db base" using ok by simp_all
  obtain e base' where e: "ModifyCoins_entry db c base txid = (e, base')" by (cases "ModifyCoins_entry db c base txid")
  from ModifyCoins_entry_ok [OF okc e] have base: "filled_view db base base'" and ec: "entry_coins e = current_coins db (c # base) txid" and d: "entry_DIRTY e"
    and eok: "coins_entry_ok db base' txid e" by simp_all
  let ?e = "e\<lparr> entry_coins := Cleanup coins' \<rparr>"
  let ?c = "CCoinsModifier_release c txid (e\<lparr> entry_coins := coins' \<rparr>)"
  have below: "cache_ok db c base'" using filled_below [OF base okc(1)] by (simp add: filled_view_def)
  have eok': "coins_entry_ok db base' txid ?e" using eok d by (simp add: coins_entry_ok_def split: list.splits)
  have okc': "cache_ok db ?c base'"
    using below eok' by (auto simp: CCoinsModifier_release_def cache_ok_iff update_conv' delete_conv')
  have "view_unspent db (?c # base') = (view_unspent db (c # base))(txid := unspent (Some (Cleanup coins')))"
  proof
    fix k
    have vb: "view_coins db base' = view_coins db base" using base by (simp add: filled_view_def)
    show "view_unspent db (?c # base') k = ((view_unspent db (c # base))(txid := unspent (Some (Cleanup coins')))) k"
      using eok' vb
      by (auto simp: view_unspent_def CCoinsModifier_release_def update_conv' delete_conv' unspent_def coins_entry_ok_def
          split: option.splits if_splits)
  qed
  then have "view_abs db (?c # base') = (view_abs db (c # base))\<lparr> st_unspent := (view_unspent db (c # base))(txid := unspent (Some (Cleanup coins'))) \<rparr>"
    using base by (simp add: view_abs_def filled_view_def CCoinsModifier_release_def Let_def cong: option.case_cong)
  moreover have "ModifyCoins db c base txid f = (r, ?c # base')" using e f ec by (simp add: ModifyCoins_def)
  moreover have "view_ok db (?c # base')" "length (?c # base') = Suc (length base)" using okc' base by (simp_all add: filled_view_def)
  ultimately show thesis by (rule that [rotated 3]) 
qed

lemma SetNullifier_abs:
  assumes "view_ok db (c # base)"
  shows "view_ok db (SetNullifier c n spent # base)"
    and "view_abs db (SetNullifier c n spent # base) =
      (view_abs db (c # base))\<lparr> st_nullifier := (view_nullifier db (c # base))(n := spent) \<rparr>"
  using assms
  by (auto simp: SetNullifier_def cache_ok_iff update_conv' view_abs_def view_unspent_def fun_eq_iff cong: option.case_cong)

lemma SetBestBlock_abs:
  assumes "view_ok db (c # base)" "h \<noteq> 0"
  shows "view_ok db (SetBestBlock h c # base)"
    and "view_abs db (SetBestBlock h c # base) = (view_abs db (c # base))\<lparr> st_best_block := h \<rparr>"
  using assms by (simp_all add: SetBestBlock_def cache_ok_def view_abs_def view_unspent_def fun_eq_iff)

section \<open>Flushing\<close>

text \<open>What a batch does to one key: the entry of the parent, if any, and the entry of the child.\<close>

definition merge_coins :: "CCoinsCacheEntry option \<Rightarrow> CCoinsCacheEntry \<Rightarrow> CCoinsCacheEntry option" where
  "merge_coins u e =
     (if \<not> entry_DIRTY e then u
      else case u of
        None \<Rightarrow> if IsPruned (entry_coins e) then None
                else Some \<lparr> entry_coins = entry_coins e, entry_DIRTY = True, entry_FRESH = True \<rparr>
      | Some us \<Rightarrow> if entry_FRESH us \<and> IsPruned (entry_coins e) then None
                   else Some (us\<lparr> entry_coins := entry_coins e, entry_DIRTY := True \<rparr>))"

definition assert_fresh :: "CCoinsCacheEntry option \<Rightarrow> CCoinsCacheEntry \<Rightarrow> bool" where
  "assert_fresh u e \<longleftrightarrow> entry_DIRTY e \<and> u = None \<and> \<not> IsPruned (entry_coins e) \<longrightarrow> entry_FRESH e"

text \<open>A batch whose steps change one key each changes every key of the child once.\<close>

lemma batch_pointwise:
  assumes step: "\<And>cache k e al. distinct (map fst cache) \<Longrightarrow> ok (map_of cache k) e \<Longrightarrow>
      \<exists>cache'. batch cache ((k, e) # al) = batch cache' al \<and> distinct (map fst cache') \<and>
        map_of cache' = (map_of cache)(k := merge (map_of cache k) e)"
    and Nil: "\<And>cache. batch cache [] = ret cache"
  shows "distinct (map fst al) \<Longrightarrow> distinct (map fst cache) \<Longrightarrow> (\<And>k e. (k, e) \<in> set al \<Longrightarrow> ok (map_of cache k) e) \<Longrightarrow>
   \<exists>cache'. batch cache al = ret cache' \<and> distinct (map fst cache') \<and>
     (\<forall>k. map_of cache' k = (case map_of al k of None \<Rightarrow> map_of cache k | Some e \<Rightarrow> merge (map_of cache k) e))"
proof (induction al arbitrary: cache)
  case (Cons x al)
  obtain k e where x: "x = (k, e)" by (cases x)
  obtain cache1 where c1: "batch cache ((k, e) # al) = batch cache1 al" "distinct (map fst cache1)"
      "map_of cache1 = (map_of cache)(k := merge (map_of cache k) e)"
    using step [OF Cons.prems(2), of k e al] Cons.prems(3) x by auto
  have nin: "k \<notin> fst ` set al" using Cons.prems(1) x by simp
  then have same: "map_of cache1 j = map_of cache j" if "(j, d) \<in> set al" for j d using that c1(3) by force
  have "\<exists>cache'. batch cache1 al = ret cache' \<and> distinct (map fst cache') \<and>
     (\<forall>k. map_of cache' k = (case map_of al k of None \<Rightarrow> map_of cache1 k | Some e \<Rightarrow> merge (map_of cache1 k) e))"
    using Cons.prems(1,3) same by (intro Cons.IH [OF _ c1(2)]) auto
  then obtain cache2 where c2: "batch cache1 al = ret cache2" "distinct (map fst cache2)"
      "\<And>j. map_of cache2 j = (case map_of al j of None \<Rightarrow> map_of cache1 j | Some e \<Rightarrow> merge (map_of cache1 j) e)" by blast
  have "map_of al k = None" using nin by (simp add: map_of_eq_None_iff)
  then have "map_of cache2 j = (case map_of (x # al) j of None \<Rightarrow> map_of cache j | Some e \<Rightarrow> merge (map_of cache j) e)" for j
    using c2(3) [of j] c1(3) x by (cases "j = k") (simp_all split: option.splits)
  with c1(1) c2(1,2) x show ?case by auto
qed (auto simp: Nil)

lemma batch_coins_ok:
  "distinct (map fst al) \<Longrightarrow> distinct (map fst cache) \<Longrightarrow> (\<And>k e. (k, e) \<in> set al \<Longrightarrow> assert_fresh (map_of cache k) e) \<Longrightarrow>
   \<exists>cache'. batch_coins cache al = Ok cache' \<and> distinct (map fst cache') \<and>
     (\<forall>k. map_of cache' k = (case map_of al k of None \<Rightarrow> map_of cache k | Some e \<Rightarrow> merge_coins (map_of cache k) e))"
proof (rule batch_pointwise [where batch = batch_coins and ret = Ok and ok = assert_fresh])
  fix cache :: CCoinsMap and k e al
  assume d: "distinct (map fst cache)" and ok: "assert_fresh (map_of cache k) e"
  let ?r = "\<lambda>cache'. batch_coins cache ((k, e) # al) = batch_coins cache' al \<and> distinct (map fst cache') \<and>
      map_of cache' = (map_of cache)(k := merge_coins (map_of cache k) e)"
  show "\<exists>cache'. ?r cache'"
  proof (cases "\<not> entry_DIRTY e \<or> map_of cache k = None \<and> IsPruned (entry_coins e)")
    case True
    then have "?r cache" using d ok by (auto simp: merge_coins_def assert_fresh_def split: option.splits if_splits)
    then show ?thesis ..
  next
    case False
    show ?thesis
    proof (cases "merge_coins (map_of cache k) e")
      case None
      with False have "?r (AList.delete k cache)" using d ok
        by (auto simp: merge_coins_def assert_fresh_def delete_conv' split: option.splits if_splits)
      then show ?thesis ..
    next
      case (Some v)
      with False have "?r (AList.update k v cache)" using d ok
        by (auto simp: merge_coins_def assert_fresh_def update_conv' split: option.splits if_splits)
      then show ?thesis ..
    qed
  qed
qed simp_all

definition merge_nullifier :: "CNullifiersCacheEntry option \<Rightarrow> CNullifiersCacheEntry \<Rightarrow> CNullifiersCacheEntry option" where
  "merge_nullifier u e =
     (if \<not> nf_DIRTY e then u
      else case u of
        Some us \<Rightarrow> if nf_entered us = nf_entered e then u else Some \<lparr> nf_entered = nf_entered e, nf_DIRTY = True \<rparr>
      | None \<Rightarrow> Some \<lparr> nf_entered = nf_entered e, nf_DIRTY = True \<rparr>)"

lemma batch_nullifiers_ok:
  "distinct (map fst al) \<Longrightarrow> distinct (map fst cache) \<Longrightarrow>
   distinct (map fst (batch_nullifiers cache al)) \<and>
     (\<forall>k. map_of (batch_nullifiers cache al) k = (case map_of al k of None \<Rightarrow> map_of cache k | Some e \<Rightarrow> merge_nullifier (map_of cache k) e))"
proof (rule batch_pointwise [where batch = batch_nullifiers and ret = "\<lambda>c. c" and ok = "\<lambda>_ _. True", THEN exE])
  fix cache :: CNullifiersMap and k e al
  assume d: "distinct (map fst cache)"
  let ?cache = "if merge_nullifier (map_of cache k) e = map_of cache k then cache
    else AList.update k (the (merge_nullifier (map_of cache k) e)) cache"
  have "batch_nullifiers cache ((k, e) # al) = batch_nullifiers ?cache al \<and> distinct (map fst ?cache) \<and>
      map_of ?cache = (map_of cache)(k := merge_nullifier (map_of cache k) e)"
    using d by (auto simp: merge_nullifier_def update_conv' split: option.splits)
  then show "\<exists>cache'. batch_nullifiers cache ((k, e) # al) = batch_nullifiers cache' al \<and> distinct (map fst cache') \<and>
      map_of cache' = (map_of cache)(k := merge_nullifier (map_of cache k) e)" by blast
qed auto

definition merge_anchor :: "CAnchorsCacheEntry option \<Rightarrow> CAnchorsCacheEntry \<Rightarrow> CAnchorsCacheEntry option" where
  "merge_anchor u e =
     (if \<not> anchor_DIRTY e then u
      else case u of
        None \<Rightarrow> Some (e\<lparr> anchor_DIRTY := True \<rparr>)
      | Some us \<Rightarrow>
          Some (us\<lparr> anchor_entered := anchor_entered e, anchor_postBurn := anchor_postBurn e,
            anchor_DIRTY := (anchor_DIRTY us \<or> anchor_entered us \<noteq> anchor_entered e \<or> anchor_postBurn us \<noteq> anchor_postBurn e) \<rparr>))"

lemma batch_anchors_ok:
  "distinct (map fst al) \<Longrightarrow> distinct (map fst cache) \<Longrightarrow>
   distinct (map fst (batch_anchors cache al)) \<and>
     (\<forall>k. map_of (batch_anchors cache al) k = (case map_of al k of None \<Rightarrow> map_of cache k | Some e \<Rightarrow> merge_anchor (map_of cache k) e))"
proof (rule batch_pointwise [where batch = batch_anchors and ret = "\<lambda>c. c" and ok = "\<lambda>_ _. True", THEN exE])
  fix cache :: CAnchorsMap and k e al
  assume d: "distinct (map fst cache)"
  let ?cache = "if anchor_DIRTY e then AList.update k (the (merge_anchor (map_of cache k) e)) cache else cache"
  have "batch_anchors cache ((k, e) # al) = batch_anchors ?cache al \<and> distinct (map fst ?cache) \<and>
      map_of ?cache = (map_of cache)(k := merge_anchor (map_of cache k) e)"
    using d by (cases "map_of cache k"; cases e) (auto simp: merge_anchor_def update_conv' Let_def)
  then show "\<exists>cache'. batch_anchors cache ((k, e) # al) = batch_anchors cache' al \<and> distinct (map fst cache') \<and>
      map_of cache' = (map_of cache)(k := merge_anchor (map_of cache k) e)" by blast
qed auto

lemma cleared_ok: "cache_ok db (c\<lparr> cacheCoins := [], cacheAnchors := [], cacheNullifiers := [] \<rparr>) base"
  by (simp add: cache_ok_def)

text \<open>A flush into a cache.\<close>

lemma flush_coins_entry:
  assumes "cache_ok db p base" and "coins_entry_ok db (p # base) k e"
  shows "assert_fresh (map_of (cacheCoins p) k) e"
    and "merge_coins (map_of (cacheCoins p) k) e = Some v \<Longrightarrow> coins_entry_ok db base k v"
    and "unspent (case merge_coins (map_of (cacheCoins p) k) e of Some v \<Rightarrow> Some (entry_coins v) | None \<Rightarrow> view_coins db base k) =
      unspent (Some (entry_coins e))"
proof -
  have p: "\<And>us. map_of (cacheCoins p) k = Some us \<Longrightarrow> coins_entry_ok db base k us" using assms(1) by (simp add: cache_ok_iff)
  show "assert_fresh (map_of (cacheCoins p) k) e"
    using assms(2) by (auto simp: coins_entry_ok_def assert_fresh_def dom_alist domIff split: if_splits)
  show "merge_coins (map_of (cacheCoins p) k) e = Some v \<Longrightarrow> coins_entry_ok db base k v"
    using assms(2) p
    by (auto simp: coins_entry_ok_def merge_coins_def view_unspent_def dom_alist domIff split: option.splits if_splits)
  show "unspent (case merge_coins (map_of (cacheCoins p) k) e of Some v \<Rightarrow> Some (entry_coins v) | None \<Rightarrow> view_coins db base k) =
      unspent (Some (entry_coins e))"
    using assms(2) p
    by (auto simp: coins_entry_ok_def merge_coins_def view_unspent_def unspent_def dom_alist domIff split: option.splits if_splits)
qed

lemma flush_nullifier_entry:
  assumes "cache_ok db c (p # base)" "cache_ok db p base"
    and r: "r = (case map_of (cacheNullifiers c) k of None \<Rightarrow> map_of (cacheNullifiers p) k
              | Some e \<Rightarrow> merge_nullifier (map_of (cacheNullifiers p) k) e)"
  shows "(case r of Some e \<Rightarrow> nf_entered e | None \<Rightarrow> view_nullifier db base k) = view_nullifier db (c # p # base) k"
    and "r = Some e \<Longrightarrow> \<not> nf_DIRTY e \<Longrightarrow> nf_entered e = view_nullifier db base k"
proof -
  have c: "map_of (cacheNullifiers c) k = Some e \<Longrightarrow> \<not> nf_DIRTY e \<Longrightarrow> nf_entered e = view_nullifier db (p # base) k"
    and p: "map_of (cacheNullifiers p) k = Some e \<Longrightarrow> \<not> nf_DIRTY e \<Longrightarrow> nf_entered e = view_nullifier db base k" for e
    using assms(1,2) by (simp_all add: cache_ok_iff)
  show "(case r of Some e \<Rightarrow> nf_entered e | None \<Rightarrow> view_nullifier db base k) = view_nullifier db (c # p # base) k"
  proof (cases "map_of (cacheNullifiers c) k")
    case (Some e)
    then show ?thesis using c [OF Some] r
      by (cases "map_of (cacheNullifiers p) k"; cases "nf_DIRTY e") (simp_all add: merge_nullifier_def)
  qed (simp add: r)
  show "r = Some e \<Longrightarrow> \<not> nf_DIRTY e \<Longrightarrow> nf_entered e = view_nullifier db base k"
    using p [of e] r
    by (cases "map_of (cacheNullifiers c) k"; cases "map_of (cacheNullifiers p) k") (auto simp: merge_nullifier_def split: if_splits)
qed

lemma flush_anchor_entry:
  assumes "cache_ok db c (p # base)" "cache_ok db p base"
    and r: "r = (case map_of (cacheAnchors c) k of None \<Rightarrow> map_of (cacheAnchors p) k
              | Some e \<Rightarrow> merge_anchor (map_of (cacheAnchors p) k) e)"
  shows "(case r of Some e \<Rightarrow> anchor_entered e | None \<Rightarrow> view_anchor db base k) = view_anchor db (c # p # base) k"
    and "r = Some e \<Longrightarrow> \<not> anchor_DIRTY e \<Longrightarrow> anchor_entered e = view_anchor db base k"
proof -
  have c: "map_of (cacheAnchors c) k = Some e \<Longrightarrow> \<not> anchor_DIRTY e \<Longrightarrow> anchor_entered e = view_anchor db (p # base) k"
    and p: "map_of (cacheAnchors p) k = Some e \<Longrightarrow> \<not> anchor_DIRTY e \<Longrightarrow> anchor_entered e = view_anchor db base k" for e
    using assms(1,2) by (simp_all add: cache_ok_iff)
  show "(case r of Some e \<Rightarrow> anchor_entered e | None \<Rightarrow> view_anchor db base k) = view_anchor db (c # p # base) k"
  proof (cases "map_of (cacheAnchors c) k")
    case (Some e)
    then show ?thesis using c [OF Some] r
      by (cases "map_of (cacheAnchors p) k"; cases "anchor_DIRTY e") (simp_all add: merge_anchor_def)
  qed (simp add: r)
  assume e: "r = Some e" "\<not> anchor_DIRTY e"
  show "anchor_entered e = view_anchor db base k"
  proof (cases "map_of (cacheAnchors p) k")
    case None
    with e r show ?thesis by (auto simp: merge_anchor_def split: option.splits if_splits)
  next
    case (Some us)
    with e r have "\<not> anchor_DIRTY us \<and> anchor_entered us = anchor_entered e"
      by (auto simp: merge_anchor_def split: option.splits if_splits)
    then show ?thesis using p [OF Some] by simp
  qed
qed

lemma Flush_cache:
  assumes ok: "view_ok db (c # p # base)" and hashes: "cv_hashBlock c \<noteq> 0" "cv_hashAnchor c \<noteq> 0"
  shows "\<exists>p' c'. Flush db c (p # base) = Ok (db, c' # p' # base) \<and> view_ok db (c' # p' # base) \<and>
     view_abs db (c' # p' # base) = view_abs db (c # p # base) \<and> view_abs db (p' # base) = view_abs db (c # p # base)"
proof -
  have okc: "cache_ok db c (p # base)" and okp: "cache_ok db p base" and okb: "view_ok db base" using ok by simp_all
  have dc: "distinct (map fst (cacheCoins c))" "distinct (map fst (cacheNullifiers c))" "distinct (map fst (cacheAnchors c))"
    and dp: "distinct (map fst (cacheCoins p))" "distinct (map fst (cacheNullifiers p))" "distinct (map fst (cacheAnchors p))"
    using okc okp by (simp_all add: cache_ok_def)
  have ce: "\<And>k e. map_of (cacheCoins c) k = Some e \<Longrightarrow> coins_entry_ok db (p # base) k e" using okc by (simp add: cache_ok_iff)
  have fresh: "(k, e) \<in> set (cacheCoins c) \<Longrightarrow> assert_fresh (map_of (cacheCoins p) k) e" for k e
    by (rule flush_coins_entry(1) [OF okp ce]) (simp add: dc(1))
  obtain coins where coins: "batch_coins (cacheCoins p) (cacheCoins c) = Ok coins" "distinct (map fst coins)"
      "\<And>k. map_of coins k = (case map_of (cacheCoins c) k of None \<Rightarrow> map_of (cacheCoins p) k
              | Some e \<Rightarrow> merge_coins (map_of (cacheCoins p) k) e)"
    using batch_coins_ok [OF dc(1) dp(1) fresh] by blast
  define nfs ans where nfs_def: "nfs = batch_nullifiers (cacheNullifiers p) (cacheNullifiers c)"
    and ans_def: "ans = batch_anchors (cacheAnchors p) (cacheAnchors c)"
  have nfs: "distinct (map fst nfs)" "map_of nfs k = (case map_of (cacheNullifiers c) k of None \<Rightarrow> map_of (cacheNullifiers p) k
              | Some e \<Rightarrow> merge_nullifier (map_of (cacheNullifiers p) k) e)" for k
    using batch_nullifiers_ok [OF dc(2) dp(2)] by (simp_all add: nfs_def)
  have ans: "distinct (map fst ans)" "map_of ans k = (case map_of (cacheAnchors c) k of None \<Rightarrow> map_of (cacheAnchors p) k
              | Some e \<Rightarrow> merge_anchor (map_of (cacheAnchors p) k) e)" for k
    using batch_anchors_ok [OF dc(3) dp(3)] by (simp_all add: ans_def)
  let ?p = "p\<lparr> cacheCoins := coins, cacheAnchors := ans, cacheNullifiers := nfs, cv_hashAnchor := cv_hashAnchor c, cv_hashBlock := cv_hashBlock c \<rparr>"
  let ?c = "c\<lparr> cacheCoins := [], cacheAnchors := [], cacheNullifiers := [] \<rparr>"
  note nf = flush_nullifier_entry [OF okc okp nfs(2)] and an = flush_anchor_entry [OF okc okp ans(2)]
  have co: "unspent (case map_of coins k of Some e \<Rightarrow> Some (entry_coins e) | None \<Rightarrow> view_coins db base k) = view_unspent db (c # p # base) k \<and>
      (\<forall>e. map_of coins k = Some e \<longrightarrow> coins_entry_ok db base k e)" for k
  proof (cases "map_of (cacheCoins c) k")
    case None
    then show ?thesis using coins(3) [of k] okp by (simp add: view_unspent_def cache_ok_iff)
  next
    case (Some e)
    then show ?thesis using coins(3) [of k] flush_coins_entry(2,3) [OF okp ce [OF Some]] by (simp add: view_unspent_def)
  qed
  have "cache_ok db ?p base" using co nf an coins(2) nfs(1) ans(1) by (simp add: cache_ok_iff)
  moreover have abs: "view_abs db (?p # base) = view_abs db (c # p # base)"
    using co nf an hashes by (simp add: view_abs_def fun_eq_iff view_unspent_def)
  moreover have "view_abs db (?c # ?p # base) = view_abs db (?p # base)"
    using hashes by (simp add: view_abs_def view_unspent_def fun_eq_iff)
  moreover have "Flush db c (p # base) = Ok (db, ?c # ?p # base)"
    using coins(1) by (simp add: BatchWrite_def nfs_def ans_def)
  ultimately show ?thesis using okb cleared_ok [of db c "?p # base"] by (intro exI [of _ ?p] exI [of _ ?c]) simp
qed

text \<open>A flush into the database.\<close>

abbreviation write_coins :: "CCoinsMap \<Rightarrow> CCoinsViewDB \<Rightarrow> CCoinsViewDB" where
  "write_coins \<equiv> fold (\<lambda>(h, e) d. if entry_DIRTY e then BatchWriteCoins d h (entry_coins e) else d)"

abbreviation write_anchors :: "CAnchorsMap \<Rightarrow> CCoinsViewDB \<Rightarrow> CCoinsViewDB" where
  "write_anchors \<equiv> fold (\<lambda>(h, e) d. if anchor_DIRTY e
     then BatchWriteAnchor d h (anchor_tree e) (anchor_entered e) (anchor_postBurn e) else d)"

abbreviation write_nullifiers :: "CNullifiersMap \<Rightarrow> CCoinsViewDB \<Rightarrow> CCoinsViewDB" where
  "write_nullifiers \<equiv> fold (\<lambda>(h, e) d. if nf_DIRTY e then BatchWriteNullifier d h (nf_entered e) else d)"

lemma write_coins_val:
  "distinct (map fst al) \<Longrightarrow>
   \<exists>m. write_coins al db = db\<lparr> db_coins := m \<rparr> \<and>
     (\<forall>k. m k = (case map_of al k of
        Some e \<Rightarrow> if entry_DIRTY e then unspent (Some (entry_coins e)) else db_coins db k | None \<Rightarrow> db_coins db k))"
proof (induction al arbitrary: db)
  case Nil
  show ?case by (intro exI [of _ "db_coins db"]) simp
next
  case (Cons x al)
  obtain k e where x: "x = (k, e)" by (cases x)
  let ?db = "if entry_DIRTY e then BatchWriteCoins db k (entry_coins e) else db"
  have d: "distinct (map fst al)" using Cons.prems by simp
  from Cons.IH [OF d, of ?db] obtain m where m: "write_coins al ?db = ?db\<lparr> db_coins := m \<rparr>"
      "\<forall>k. m k = (case map_of al k of
        Some e \<Rightarrow> if entry_DIRTY e then unspent (Some (entry_coins e)) else db_coins ?db k | None \<Rightarrow> db_coins ?db k)" by blast
  have "map_of al k = None" using Cons.prems x by (simp add: map_of_eq_None_iff)
  then have "m j = (case map_of (x # al) j of
      Some e \<Rightarrow> if entry_DIRTY e then unspent (Some (entry_coins e)) else db_coins db j | None \<Rightarrow> db_coins db j)" for j
    using m(2) [rule_format, of j] x by (cases "j = k"; cases "entry_DIRTY e") (simp_all add: BatchWriteCoins_def unspent_def split: option.splits)
  moreover have "write_coins (x # al) db = db\<lparr> db_coins := m \<rparr>" using m(1) x by (cases "entry_DIRTY e") (simp_all add: BatchWriteCoins_def)
  ultimately show ?case by blast
qed

lemma write_nullifiers_val:
  "distinct (map fst al) \<Longrightarrow>
   \<exists>m. write_nullifiers al db = db\<lparr> db_nullifier := m \<rparr> \<and>
     (\<forall>k. m k = (case map_of al k of Some e \<Rightarrow> if nf_DIRTY e then nf_entered e else db_nullifier db k | None \<Rightarrow> db_nullifier db k))"
proof (induction al arbitrary: db)
  case Nil
  show ?case by (intro exI [of _ "db_nullifier db"]) simp
next
  case (Cons x al)
  obtain k e where x: "x = (k, e)" by (cases x)
  let ?db = "if nf_DIRTY e then BatchWriteNullifier db k (nf_entered e) else db"
  have d: "distinct (map fst al)" using Cons.prems by simp
  from Cons.IH [OF d, of ?db] obtain m where m: "write_nullifiers al ?db = ?db\<lparr> db_nullifier := m \<rparr>"
      "\<forall>k. m k = (case map_of al k of Some e \<Rightarrow> if nf_DIRTY e then nf_entered e else db_nullifier ?db k | None \<Rightarrow> db_nullifier ?db k)" by blast
  have "map_of al k = None" using Cons.prems x by (simp add: map_of_eq_None_iff)
  then have "m j = (case map_of (x # al) j of
      Some e \<Rightarrow> if nf_DIRTY e then nf_entered e else db_nullifier db j | None \<Rightarrow> db_nullifier db j)" for j
    using m(2) [rule_format, of j] x by (cases "j = k"; cases "nf_DIRTY e") (simp_all add: BatchWriteNullifier_def split: option.splits)
  moreover have "write_nullifiers (x # al) db = db\<lparr> db_nullifier := m \<rparr>"
    using m(1) x by (cases "nf_DIRTY e") (simp_all add: BatchWriteNullifier_def)
  ultimately show ?case by blast
qed

lemma write_anchors_val:
  "distinct (map fst al) \<Longrightarrow>
   \<exists>m post. write_anchors al db = db\<lparr> db_anchor := m, db_anchor_post := post \<rparr> \<and>
     (\<forall>k. (m k \<noteq> None) = (case map_of al k of
        Some e \<Rightarrow> if anchor_DIRTY e then anchor_entered e else db_anchor db k \<noteq> None | None \<Rightarrow> db_anchor db k \<noteq> None))"
proof (induction al arbitrary: db)
  case Nil
  show ?case by (intro exI [of _ "db_anchor db"] exI [of _ "db_anchor_post db"]) simp
next
  case (Cons x al)
  obtain k e where x: "x = (k, e)" by (cases x)
  let ?db = "if anchor_DIRTY e then BatchWriteAnchor db k (anchor_tree e) (anchor_entered e) (anchor_postBurn e) else db"
  have d: "distinct (map fst al)" using Cons.prems by simp
  from Cons.IH [OF d, of ?db] obtain m post where m: "write_anchors al ?db = ?db\<lparr> db_anchor := m, db_anchor_post := post \<rparr>"
      "\<forall>k. (m k \<noteq> None) = (case map_of al k of
        Some e \<Rightarrow> if anchor_DIRTY e then anchor_entered e else db_anchor ?db k \<noteq> None | None \<Rightarrow> db_anchor ?db k \<noteq> None)" by blast
  have "map_of al k = None" using Cons.prems x by (simp add: map_of_eq_None_iff)
  then have "(m j \<noteq> None) = (case map_of (x # al) j of
      Some e \<Rightarrow> if anchor_DIRTY e then anchor_entered e else db_anchor db j \<noteq> None | None \<Rightarrow> db_anchor db j \<noteq> None)" for j
    using m(2) [rule_format, of j] x by (cases "j = k"; cases "anchor_DIRTY e") (simp_all add: BatchWriteAnchor_def split: option.splits)
  moreover have "write_anchors (x # al) db = db\<lparr> db_anchor := m, db_anchor_post := post \<rparr>"
    using m(1) x by (cases "anchor_DIRTY e") (simp_all add: BatchWriteAnchor_def)
  ultimately show ?case by blast
qed

lemma Flush_database:
  assumes ok: "view_ok db [c]" and hashes: "cv_hashBlock c \<noteq> 0" "cv_hashAnchor c \<noteq> 0" and "view_anchor db [c] tree_empty_root"
  shows "\<exists>db' c'. Flush db c [] = Ok (db', [c']) \<and> view_ok db' [c'] \<and>
     view_abs db' [c'] = view_abs db [c] \<and> view_abs db' [] = view_abs db [c]"
proof -
  have okc: "cache_ok db c []" using ok by simp
  then have dc: "distinct (map fst (cacheCoins c))" "distinct (map fst (cacheNullifiers c))" "distinct (map fst (cacheAnchors c))"
    by (simp_all add: cache_ok_def)
  obtain m1 where m1: "write_coins (cacheCoins c) db = db\<lparr> db_coins := m1 \<rparr>"
      "\<And>k. m1 k = (case map_of (cacheCoins c) k of
        Some e \<Rightarrow> if entry_DIRTY e then unspent (Some (entry_coins e)) else db_coins db k | None \<Rightarrow> db_coins db k)"
    using write_coins_val [OF dc(1), of db] by blast
  let ?db1 = "db\<lparr> db_coins := m1 \<rparr>"
  obtain m2 post where m2: "write_anchors (cacheAnchors c) ?db1 = ?db1\<lparr> db_anchor := m2, db_anchor_post := post \<rparr>"
      "\<And>k. (m2 k \<noteq> None) = (case map_of (cacheAnchors c) k of
        Some e \<Rightarrow> if anchor_DIRTY e then anchor_entered e else db_anchor ?db1 k \<noteq> None | None \<Rightarrow> db_anchor ?db1 k \<noteq> None)"
    using write_anchors_val [OF dc(3), of ?db1] by blast
  let ?db2 = "?db1\<lparr> db_anchor := m2, db_anchor_post := post \<rparr>"
  obtain m3 where m3: "write_nullifiers (cacheNullifiers c) ?db2 = ?db2\<lparr> db_nullifier := m3 \<rparr>"
      "\<And>k. m3 k = (case map_of (cacheNullifiers c) k of
        Some e \<Rightarrow> if nf_DIRTY e then nf_entered e else db_nullifier ?db2 k | None \<Rightarrow> db_nullifier ?db2 k)"
    using write_nullifiers_val [OF dc(2), of ?db2] by blast
  let ?db = "db\<lparr> db_coins := m1, db_anchor := m2, db_anchor_post := post, db_nullifier := m3,
    db_best_block := Some (cv_hashBlock c), db_best_anchor := Some (cv_hashAnchor c) \<rparr>"
  let ?c = "c\<lparr> cacheCoins := [], cacheAnchors := [], cacheNullifiers := [] \<rparr>"
  have u: "unspent (m1 k) = view_unspent db [c] k" for k
  proof -
    have "\<And>e. map_of (cacheCoins c) k = Some e \<Longrightarrow> coins_entry_ok db [] k e" using okc by (simp add: cache_ok_iff)
    then show ?thesis using m1(2) [of k]
      by (cases "map_of (cacheCoins c) k") (auto simp: view_unspent_def coins_entry_ok_def unspent_def split: if_splits)
  qed
  have a: "(db_GetAnchorAt ?db k False \<noteq> None) = view_anchor db [c] k" for k
  proof -
    have "\<And>e. map_of (cacheAnchors c) k = Some e \<Longrightarrow> \<not> anchor_DIRTY e \<Longrightarrow> anchor_entered e = view_anchor db [] k"
      using okc by (simp add: cache_ok_iff)
    then show ?thesis using m2(2) [of k] assms(4)
      by (cases "map_of (cacheAnchors c) k") (auto simp: db_GetAnchorAt_def split: if_splits option.splits)
  qed
  have n: "m3 k = view_nullifier db [c] k" for k
  proof -
    have "\<And>e. map_of (cacheNullifiers c) k = Some e \<Longrightarrow> \<not> nf_DIRTY e \<Longrightarrow> nf_entered e = db_nullifier db k"
      using okc by (simp add: cache_ok_iff)
    then show ?thesis using m3(2) [of k] by (cases "map_of (cacheNullifiers c) k") auto
  qed
  have "Flush db c [] = Ok (?db, [?c])" using m1(1) m2(1) m3(1) hashes by (simp add: db_BatchWrite_def)
  moreover have "view_abs ?db [] = view_abs db [c]"
    using u a n hashes by (simp add: view_abs_def fun_eq_iff view_unspent_def db_GetBestBlock_def db_GetBestAnchor_def)
  moreover have "view_abs ?db [?c] = view_abs ?db []"
    using hashes by (simp add: view_abs_def view_unspent_def fun_eq_iff db_GetBestBlock_def db_GetBestAnchor_def)
  ultimately show ?thesis using cleared_ok [of ?db c "[]"] by (intro exI [of _ ?db] exI [of _ ?c]) simp
qed

section \<open>The interface of a reader\<close>

text \<open>
  What the users of a view rely on: a reader answers from the state that the view stands for, and leaves that state alone
  although it fills the caches.
\<close>

locale transparent_read =
  fixes read :: "CCoinsViewDB \<Rightarrow> CCoinsViewCache list \<Rightarrow> 'k \<Rightarrow> 'r \<times> CCoinsViewCache list"
    and answer :: "CCoinsViewDB \<Rightarrow> CCoinsViewCache list \<Rightarrow> 'k \<Rightarrow> 'r"
  assumes answers: "view_ok db cs \<Longrightarrow> fst (read db cs k) = answer db cs k"
    and fills: "view_ok db cs \<Longrightarrow> filled_view db cs (snd (read db cs k))"
    and stable: "filled_view db cs cs' \<Longrightarrow> answer db cs' k = answer db cs k"
begin

lemma read_ok: "view_ok db cs \<Longrightarrow> view_ok db (snd (read db cs k))"
  using fills filled_abs by blast

lemma read_length: "view_ok db cs \<Longrightarrow> length (snd (read db cs k)) = length cs"
  using fills filled_abs by blast

lemma read_abs: "view_ok db cs \<Longrightarrow> view_abs db (snd (read db cs k)) = view_abs db cs"
  using fills filled_abs by blast

lemma read_again: "view_ok db cs \<Longrightarrow> fst (read db (snd (read db cs k)) j) = answer db cs j"
  using answers [OF read_ok] stable [OF fills] by simp

end

interpretation coins: transparent_read view_GetCoins view_coins
  using GetCoins_filled by unfold_locales (auto simp: filled_view_def)

interpretation nullifiers: transparent_read GetNullifier view_nullifier
  using GetNullifier_filled by unfold_locales (auto simp: filled_view_def)

interpretation best_block: transparent_read "\<lambda>db cs (_ :: unit). GetBestBlock db cs" "\<lambda>db cs _. view_best_block db cs"
  using GetBestBlock_filled by unfold_locales (auto simp: filled_view_def)

interpretation best_anchor: transparent_read "\<lambda>db cs (_ :: unit). GetBestAnchor db cs" "\<lambda>db cs _. view_best_anchor db cs"
  using GetBestAnchor_filled by unfold_locales (auto simp: filled_view_def)

interpretation anchors: transparent_read
  "\<lambda>db cs rt. case GetAnchorAt db cs rt False of (r, cs') \<Rightarrow> (r \<noteq> None, cs')" view_anchor
proof
  fix db cs k
  assume "view_ok db cs"
  from GetAnchorAt_filled [OF this, of k False]
  show "fst (case GetAnchorAt db cs k False of (r, cs') \<Rightarrow> (r \<noteq> None, cs')) = view_anchor db cs k"
    and "filled_view db cs (snd (case GetAnchorAt db cs k False of (r, cs') \<Rightarrow> (r \<noteq> None, cs')))"
    by (simp_all add: case_prod_beta)
qed (simp add: filled_view_def)

section \<open>Anchors\<close>

lemma anchor_update_abs:
  assumes "view_ok db (c # base)" "anchor_DIRTY e" "h \<noteq> 0"
  shows "view_ok db (c\<lparr> cacheAnchors := AList.update rt e (cacheAnchors c), cv_hashAnchor := h \<rparr> # base)"
    and "view_abs db (c\<lparr> cacheAnchors := AList.update rt e (cacheAnchors c), cv_hashAnchor := h \<rparr> # base) =
      (view_abs db (c # base))\<lparr> st_anchor := (view_anchor db (c # base))(rt := anchor_entered e), st_best_anchor := h \<rparr>"
  using assms
  by (simp_all add: cache_ok_iff update_conv' view_abs_def view_unspent_def fun_eq_iff cong: option.case_cong)

lemma PushAnchor_abs:
  assumes ok: "view_ok db cs" "cs \<noteq> []" and "tree_root t \<noteq> 0"
  shows "view_ok db (PushAnchor db cs t postBurn)" "length (PushAnchor db cs t postBurn) = length cs"
    and "view_abs db (PushAnchor db cs t postBurn) =
      (if view_best_anchor db cs = tree_root t then view_abs db cs
       else (view_abs db cs)\<lparr> st_anchor := (view_anchor db cs)(tree_root t := True), st_best_anchor := tree_root t \<rparr>)"
proof -
  obtain h cs1 where g: "GetBestAnchor db cs = (h, cs1)" by (cases "GetBestAnchor db cs")
  have h: "h = view_best_anchor db cs" and f: "filled_view db cs cs1" using GetBestAnchor_filled [OF ok(1)] g by simp_all
  obtain c base where cs1: "cs1 = c # base" using f ok(2) by (cases cs1) (auto simp: filled_view_def)
  have ok1: "view_ok db (c # base)" "length (c # base) = length cs" and abs1: "view_abs db (c # base) = view_abs db cs"
    using filled_abs [OF f] cs1 by simp_all
  note up = anchor_update_abs [OF ok1(1) _ assms(3), of "\<lparr> anchor_entered = True, anchor_tree = t, anchor_DIRTY = True, anchor_postBurn = postBurn \<rparr>" "tree_root t"]
  have "view_anchor db (c # base) = view_anchor db cs" using abs1 by (simp add: view_abs_def)
  then show "view_ok db (PushAnchor db cs t postBurn)" "length (PushAnchor db cs t postBurn) = length cs"
    "view_abs db (PushAnchor db cs t postBurn) =
      (if view_best_anchor db cs = tree_root t then view_abs db cs
       else (view_abs db cs)\<lparr> st_anchor := (view_anchor db cs)(tree_root t := True), st_best_anchor := tree_root t \<rparr>)"
    using g h cs1 ok1 abs1 up by (simp_all add: PushAnchor_def Let_def del: view_ok.simps view_anchor.simps)
qed

lemma PopAnchor_abs:
  assumes ok: "view_ok db cs" "cs \<noteq> []" and "newrt \<noteq> 0" and pop: "PopAnchor db cs newrt postBurn = Ok cs'"
  shows "view_ok db cs' \<and> length cs' = length cs \<and>
    view_abs db cs' =
      (if view_best_anchor db cs = newrt then view_abs db cs
       else (view_abs db cs)\<lparr> st_anchor := (view_anchor db cs)(view_best_anchor db cs := False), st_best_anchor := newrt \<rparr>)"
proof -
  obtain h cs1 where g: "GetBestAnchor db cs = (h, cs1)" by (cases "GetBestAnchor db cs")
  have h: "h = view_best_anchor db cs" and f: "filled_view db cs cs1" using GetBestAnchor_filled [OF ok(1)] g by simp_all
  have ok1: "view_ok db cs1" "length cs1 = length cs" and abs1: "view_abs db cs1 = view_abs db cs" using filled_abs [OF f] by simp_all
  show ?thesis
  proof (cases "h = newrt")
    case True
    then show ?thesis using pop g h ok1 abs1 by (simp add: PopAnchor_def)
  next
    case False
    obtain r cs2 where a: "GetAnchorAt db cs1 h postBurn = (r, cs2)" by (cases "GetAnchorAt db cs1 h postBurn")
    have f2: "filled_view db cs1 cs2" using GetAnchorAt_filled [OF ok1(1), of h postBurn] a by simp
    obtain c base where cs2: "cs2 = c # base" using f2 ok1 ok(2) by (cases cs2) (auto simp: filled_view_def)
    have ok2: "view_ok db (c # base)" "length (c # base) = length cs" and abs2: "view_abs db (c # base) = view_abs db cs"
      using filled_abs [OF f2] cs2 ok1 abs1 by simp_all
    define e where "e = (case map_of (cacheAnchors c) h of Some e \<Rightarrow> e | None \<Rightarrow> CAnchorsCacheEntry_new)
        \<lparr> anchor_entered := False, anchor_postBurn := postBurn, anchor_DIRTY := True \<rparr>"
    have e: "anchor_DIRTY e" "\<not> anchor_entered e" by (simp_all add: e_def)
    have cs': "cs' = c\<lparr> cacheAnchors := AList.update h e (cacheAnchors c), cv_hashAnchor := newrt \<rparr> # base"
      using pop g a cs2 False by (cases r) (simp_all add: PopAnchor_def Let_def e_def)
    have "view_anchor db (c # base) = view_anchor db cs" using abs2 by (simp add: view_abs_def)
    then show ?thesis using anchor_update_abs [OF ok2(1) e(1) assms(3), of h] e cs' ok2 abs2 h False
      by (simp del: view_ok.simps view_anchor.simps)
  qed
qed

section \<open>Every sequence of operations\<close>

text \<open>
  The life of a view: caches are stacked on the database, read, changed, flushed into what is below them, or thrown away.
\<close>

inductive view_step :: "CCoinsViewDB \<times> CCoinsViewCache list \<Rightarrow> CCoinsViewDB \<times> CCoinsViewCache list \<Rightarrow> bool" where
  stack: "view_step (db, cs) (db, CCoinsViewCache_new # cs)"
| discard: "view_step (db, c # base) (db, base)"
| get_coins: "view_step (db, cs) (db, snd (view_GetCoins db cs txid))"
| get_nullifier: "view_step (db, cs) (db, snd (GetNullifier db cs nf))"
| get_anchor: "view_step (db, cs) (db, snd (GetAnchorAt db cs rt postBurn))"
| get_best_block: "view_step (db, cs) (db, snd (GetBestBlock db cs))"
| get_best_anchor: "view_step (db, cs) (db, snd (GetBestAnchor db cs))"
| modify_coins: "view_step (db, c # base) (db, snd (ModifyCoins db c base txid (f :: CCoins \<Rightarrow> CCoins \<times> unit)))"
| set_nullifier: "view_step (db, c # base) (db, SetNullifier c nf spent # base)"
| set_best_block: "view_step (db, c # base) (db, SetBestBlock h c # base)"
| push_anchor: "tree_root t \<noteq> 0 \<Longrightarrow> view_step (db, c # base) (db, PushAnchor db (c # base) t postBurn)"
| pop_anchor: "newrt \<noteq> 0 \<Longrightarrow> PopAnchor db (c # base) newrt postBurn = Ok cs' \<Longrightarrow> view_step (db, c # base) (db, cs')"
| flush: "Flush db c base = Ok (db', cs') \<Longrightarrow> view_step (db, c # base) (db', cs')"

lemma ModifyCoins_ok: "view_ok db (c # base) \<Longrightarrow> view_ok db (snd (ModifyCoins db c base txid f))"
proof -
  assume ok: "view_ok db (c # base)"
  obtain coins r where "f (current_coins db (c # base) txid) = (coins, r)" by (cases "f (current_coins db (c # base) txid)")
  from ModifyCoins_abs [where f = f, OF ok this] obtain cs' where "ModifyCoins db c base txid f = (r, cs')" "view_ok db cs'" by blast
  then show ?thesis by simp
qed

lemma Flush_cache_ok: "view_ok db (c # p # base) \<Longrightarrow> \<exists>cs'. Flush db c (p # base) = Ok (db, cs') \<and> view_ok db cs'"
proof -
  assume "view_ok db (c # p # base)"
  let ?c = "c\<lparr> cv_hashBlock := 1, cv_hashAnchor := 1 \<rparr>"
  have "view_ok db (?c # p # base)" using \<open>view_ok db (c # p # base)\<close> by (simp add: cache_ok_def)
  from Flush_cache [OF this] obtain p' c' where fl: "Flush db ?c (p # base) = Ok (db, c' # p' # base)" "view_ok db (c' # p' # base)"
    by auto
  from fl(1) obtain coins where b: "batch_coins (cacheCoins p) (cacheCoins c) = Ok coins"
    by (cases "batch_coins (cacheCoins p) (cacheCoins c)") (simp_all add: BatchWrite_def)
  let ?p = "p'\<lparr> cv_hashAnchor := cv_hashAnchor c, cv_hashBlock := cv_hashBlock c \<rparr>"
  have "Flush db c (p # base) = Ok (db, c\<lparr> cacheCoins := [], cacheAnchors := [], cacheNullifiers := [] \<rparr> # ?p # base)"
    using fl(1) b by (auto simp: BatchWrite_def)
  moreover have "view_ok db (c\<lparr> cacheCoins := [], cacheAnchors := [], cacheNullifiers := [] \<rparr> # ?p # base)"
    using fl(2) cleared_ok by (simp add: cache_ok_def)
  ultimately show ?thesis by blast
qed

lemma Flush_ok: "view_ok db (c # base) \<Longrightarrow> \<exists>db' cs'. Flush db c base = Ok (db', cs') \<and> view_ok db' cs'"
proof (cases base)
  case (Cons p rest)
  then show "view_ok db (c # base) \<Longrightarrow> \<exists>db' cs'. Flush db c base = Ok (db', cs') \<and> view_ok db' cs'"
    using Flush_cache_ok [of db c p rest] by blast
qed (simp add: cleared_ok)

lemma view_step_ok: "view_step s s' \<Longrightarrow> view_ok (fst s) (snd s) \<Longrightarrow> view_ok (fst s') (snd s')"
proof (induction rule: view_step.induct)
  case (stack db cs)
  then show ?case by (simp add: cache_ok_def CCoinsViewCache_new_def)
next
  case (set_best_block db c base h)
  then show ?case by (simp add: SetBestBlock_def cache_ok_def)
next
  case (flush db c base db' cs')
  then show ?case using Flush_ok [of db c base] by auto
next
  case (push_anchor t db c base postBurn)
  then show ?case using PushAnchor_abs(1) [of db "c # base" t postBurn] by simp
next
  case (pop_anchor newrt db c base postBurn cs')
  then show ?case using PopAnchor_abs [of db "c # base" newrt postBurn cs'] by simp
next
  case (get_anchor db cs rt postBurn)
  then show ?case using GetAnchorAt_filled [of db cs rt postBurn] filled_abs by fastforce
next
  case (set_nullifier db c base nf spent)
  then show ?case using SetNullifier_abs(1) [of db c base nf spent] by simp
next
  case (modify_coins db c base txid f)
  then show ?case using ModifyCoins_ok [of db c base txid f] by simp
qed (use coins.read_ok nullifiers.read_ok best_block.read_ok best_anchor.read_ok in simp_all)

section \<open>Properties\<close>


definition sample_coins :: CCoins where
  "sample_coins = \<lparr> fCoinBase = False, coins_vout = [\<lparr> nValue = 5, scriptPubKey = [] \<rparr>], coins_nHeight = 9, coins_nVersion = 1 \<rparr>"

definition sample_db :: CCoinsViewDB where
  "sample_db =
     \<lparr> db_coins = (\<lambda>_. None)(7 \<mapsto> sample_coins), db_anchor = \<lambda>_. None, db_anchor_post = \<lambda>_. False, db_nullifier = \<lambda>_. False,
       db_best_block = Some 1, db_best_anchor = None \<rparr>"

definition sample_cache :: CCoinsViewCache where
  "sample_cache =
     \<lparr> cv_hashBlock = 2,
       cacheCoins = [(5, \<lparr> entry_coins = sample_coins, entry_DIRTY = True, entry_FRESH = True \<rparr>),
                     (7, \<lparr> entry_coins = coins_Clear, entry_DIRTY = True, entry_FRESH = False \<rparr>)],
       cv_hashAnchor = 3, cacheAnchors = [], cacheNullifiers = [(4, \<lparr> nf_entered = True, nf_DIRTY = True \<rparr>)] \<rparr>"


text \<open>
  C35: Whatever is done to a view - stacking caches, reading, changing coins, nullifiers and anchors, flushing, dropping a cache, in
  any order - the caches stay consistent with what is below them, and the next flush never fails its assertion.
\<close>

theorem view_invariant:
  assumes "view_step\<^sup>*\<^sup>* (db, []) (db', cs)"
  shows "view_ok db' cs \<and> (\<forall>c base. cs = c # base \<longrightarrow> Flush db' c base \<noteq> Abort)"
proof -
  have "view_ok (fst s) (snd s)" if "view_step\<^sup>*\<^sup>* (db, []) s" for s
    using that by (induction rule: rtranclp_induct) (auto dest: view_step_ok)
  with assms have "view_ok db' cs" by fastforce
  then show ?thesis using Flush_ok by fastforce
qed

theorem view_invariant_witness:
  "view_ok sample_db [SetNullifier CCoinsViewCache_new 4 True, CCoinsViewCache_new] \<and>
   Flush sample_db (SetNullifier CCoinsViewCache_new 4 True) [CCoinsViewCache_new] \<noteq> Abort"
proof -
  have "view_step\<^sup>*\<^sup>* (sample_db, []) (sample_db, [CCoinsViewCache_new])" by (intro r_into_rtranclp view_step.stack)
  also have "view_step\<^sup>*\<^sup>* \<dots> (sample_db, [CCoinsViewCache_new, CCoinsViewCache_new])" by (intro r_into_rtranclp view_step.stack)
  also have "view_step\<^sup>*\<^sup>* \<dots> (sample_db, [SetNullifier CCoinsViewCache_new 4 True, CCoinsViewCache_new])"
    by (intro r_into_rtranclp view_step.set_nullifier)
  finally show ?thesis using view_invariant [of sample_db sample_db "[SetNullifier CCoinsViewCache_new 4 True, CCoinsViewCache_new]"] by blast
qed


end
