(* ===== verification/ArithUint256.thy ===== *)
theory ArithUint256
  imports Prelude
begin

unbundle bit_operations_syntax

text \<open>
  The big integers of \<^verbatim>\<open>src/src/arith_uint256.h\<close> and \<^verbatim>\<open>src/src/arith_uint256.cpp\<close>: an array of 32-bit limbs,
  the lowest first, with the carry loops of the source. \<open>limbs_val\<close> is the number an array stands for, and
  every operation is shown to be the arithmetic operation on it, modulo two to the width.
\<close>

type_synonym base_uint = "uint32 list"

fun limbs_val :: "base_uint \<Rightarrow> nat" where
  "limbs_val [] = 0"
| "limbs_val (x # xs) = unat x + 2 ^ 32 * limbs_val xs"

abbreviation (input) WIDTH :: nat where "WIDTH \<equiv> 8"

section \<open>Operations\<close>

definition base_uint_of :: "uint64 \<Rightarrow> base_uint" where
  "base_uint_of b = [ucast b, ucast (drop_bit 32 b)] @ replicate (WIDTH - 2) 0"

definition base_not :: "base_uint \<Rightarrow> bool" where
  "base_not pn = list_all (\<lambda>x. x = 0) pn"

definition base_compl :: "base_uint \<Rightarrow> base_uint" where
  "base_compl pn = map (\<lambda>x. NOT x) pn"

definition base_xor :: "base_uint \<Rightarrow> base_uint \<Rightarrow> base_uint" where
  "base_xor a b = map2 (\<lambda>x y. x XOR y) a b"

definition base_and :: "base_uint \<Rightarrow> base_uint \<Rightarrow> base_uint" where
  "base_and a b = map2 (\<lambda>x y. x AND y) a b"

definition base_or :: "base_uint \<Rightarrow> base_uint \<Rightarrow> base_uint" where
  "base_or a b = map2 (\<lambda>x y. x OR y) a b"

text \<open>\<^verbatim>\<open>operator++\<close> and \<^verbatim>\<open>operator--\<close>: the loop stops at the last limb.\<close>

fun base_inc :: "base_uint \<Rightarrow> base_uint" where
  "base_inc [] = []"
| "base_inc (x # xs) = (if x + 1 = 0 \<and> xs \<noteq> [] then (x + 1) # base_inc xs else (x + 1) # xs)"

fun base_dec :: "base_uint \<Rightarrow> base_uint" where
  "base_dec [] = []"
| "base_dec (x # xs) = (if x - 1 = - 1 \<and> xs \<noteq> [] then (x - 1) # base_dec xs else (x - 1) # xs)"

definition base_neg :: "base_uint \<Rightarrow> base_uint" where
  "base_neg pn = base_inc (base_compl pn)"

fun add_loop :: "uint64 \<Rightarrow> base_uint \<Rightarrow> base_uint \<Rightarrow> base_uint" where
  "add_loop carry (x # xs) (y # ys) =
     (let n = carry + ucast x + ucast y in ucast (n AND 0xffffffff) # add_loop (drop_bit 32 n) xs ys)"
| "add_loop carry _ _ = []"

definition base_add :: "base_uint \<Rightarrow> base_uint \<Rightarrow> base_uint" where
  "base_add a b = add_loop 0 a b"

definition base_sub :: "base_uint \<Rightarrow> base_uint \<Rightarrow> base_uint" where
  "base_sub a b = base_add a (base_neg b)"

fun mul32_loop :: "uint32 \<Rightarrow> uint64 \<Rightarrow> base_uint \<Rightarrow> base_uint" where
  "mul32_loop b32 carry [] = []"
| "mul32_loop b32 carry (x # xs) =
     (let n = carry + ucast b32 * ucast x in ucast (n AND 0xffffffff) # mul32_loop b32 (drop_bit 32 n) xs)"

definition base_mul32 :: "base_uint \<Rightarrow> uint32 \<Rightarrow> base_uint" where
  "base_mul32 pn b32 = mul32_loop b32 0 pn"

text \<open>The inner loop of \<^verbatim>\<open>operator*=\<close>, on the limbs from \<^verbatim>\<open>j\<close> on.\<close>

fun mul_inner :: "uint64 \<Rightarrow> uint32 \<Rightarrow> base_uint \<Rightarrow> base_uint \<Rightarrow> base_uint" where
  "mul_inner carry aj (p # ps) (b # bs) =
     (let n = carry + ucast p + ucast aj * ucast b in ucast (n AND 0xffffffff) # mul_inner (drop_bit 32 n) aj ps bs)"
| "mul_inner carry aj _ _ = []"

definition base_mul :: "base_uint \<Rightarrow> base_uint \<Rightarrow> base_uint" where
  "base_mul a b =
     foldl (\<lambda>pn j. take j pn @ mul_inner 0 (a ! j) (drop j pn) b) (replicate (length a) 0) [0..<length a]"

definition shl_step :: "base_uint \<Rightarrow> nat \<Rightarrow> nat \<Rightarrow> base_uint \<Rightarrow> nat \<Rightarrow> base_uint" where
  "shl_step a k shift pn i =
     (let pn1 = (if i + k + 1 < length a \<and> shift \<noteq> 0
                 then pn[i + k + 1 := pn ! (i + k + 1) OR drop_bit (32 - shift) (a ! i)] else pn) in
      if i + k < length a then pn1[i + k := pn1 ! (i + k) OR push_bit shift (a ! i)] else pn1)"

definition base_shl :: "base_uint \<Rightarrow> nat \<Rightarrow> base_uint" where
  "base_shl a shift =
     foldl (shl_step a (shift div 32) (shift mod 32)) (replicate (length a) 0) [0..<length a]"

definition shr_step :: "base_uint \<Rightarrow> nat \<Rightarrow> nat \<Rightarrow> base_uint \<Rightarrow> nat \<Rightarrow> base_uint" where
  "shr_step a k shift pn i =
     (let pn1 = (if i \<ge> k + 1 \<and> shift \<noteq> 0
                 then pn[i - k - 1 := pn ! (i - k - 1) OR push_bit (32 - shift) (a ! i)] else pn) in
      if i \<ge> k then pn1[i - k := pn1 ! (i - k) OR drop_bit shift (a ! i)] else pn1)"

definition base_shr :: "base_uint \<Rightarrow> nat \<Rightarrow> base_uint" where
  "base_shr a shift =
     foldl (shr_step a (shift div 32) (shift mod 32)) (replicate (length a) 0) [0..<length a]"

fun compare_from_top :: "base_uint \<Rightarrow> base_uint \<Rightarrow> int" where
  "compare_from_top (x # xs) (y # ys) = (if x < y then - 1 else if x > y then 1 else compare_from_top xs ys)"
| "compare_from_top _ _ = 0"

definition CompareTo :: "base_uint \<Rightarrow> base_uint \<Rightarrow> int" where
  "CompareTo a b = compare_from_top (rev a) (rev b)"

definition EqualTo :: "base_uint \<Rightarrow> uint64 \<Rightarrow> bool" where
  "EqualTo pn b =
     (if \<not> list_all (\<lambda>x. x = 0) (drop 2 pn) then False
      else if ucast (pn ! 1) \<noteq> drop_bit 32 b then False
      else if ucast (pn ! 0) \<noteq> b AND 0xffffffff then False
      else True)"

fun limb_bits :: "uint32 \<Rightarrow> nat \<Rightarrow> nat" where
  "limb_bits x 0 = 1"
| "limb_bits x (Suc n) = (if x AND push_bit (Suc n) 1 \<noteq> 0 then Suc n + 1 else limb_bits x n)"

fun bits_from_top :: "base_uint \<Rightarrow> nat" where
  "bits_from_top [] = 0"
| "bits_from_top (x # xs) = (if x \<noteq> 0 then 32 * length xs + limb_bits x 31 else bits_from_top xs)"

text \<open>The limbs below position \<^verbatim>\<open>pos\<close> are as many as \<^verbatim>\<open>pos\<close>.\<close>

definition base_bits :: "base_uint \<Rightarrow> nat" where
  "base_bits pn = bits_from_top (rev pn)"

definition GetLow64 :: "base_uint \<Rightarrow> uint64" where
  "GetLow64 pn = ucast (pn ! 0) OR push_bit 32 (ucast (pn ! 1))"

text \<open>The loop of \<^verbatim>\<open>operator/=\<close>, for \<open>shift - 1\<close> down to zero.\<close>

fun div_loop :: "nat \<Rightarrow> base_uint \<Rightarrow> base_uint \<Rightarrow> base_uint \<Rightarrow> base_uint \<times> base_uint" where
  "div_loop 0 num dvs pn = (pn, num)"
| "div_loop (Suc shift) num dvs pn =
     (if CompareTo num dvs \<ge> 0
      then div_loop shift (base_sub num dvs) (base_shr dvs 1)
             (pn[shift div 32 := pn ! (shift div 32) OR push_bit (shift mod 32) 1])
      else div_loop shift num (base_shr dvs 1) pn)"

definition base_div :: "base_uint \<Rightarrow> base_uint \<Rightarrow> base_uint option" where
  "base_div a b =
     (let num_bits = base_bits a; div_bits = base_bits b in
      if div_bits = 0 then None
      else if div_bits > num_bits then Some (replicate (length a) 0)
      else
        let shift = num_bits - div_bits in
        Some (fst (div_loop (Suc shift) a (base_shl b shift) (replicate (length a) 0))))"

section \<open>Compact form\<close>

definition SetCompact_word :: "uint32 \<Rightarrow> uint32" where
  "SetCompact_word nCompact =
     (let nSize = unat (drop_bit 24 nCompact); nWord = nCompact AND 0x007fffff in
      if nSize \<le> 3 then drop_bit (8 * (3 - nSize)) nWord else nWord)"

definition SetCompact :: "uint32 \<Rightarrow> base_uint" where
  "SetCompact nCompact =
     (let nSize = unat (drop_bit 24 nCompact); nWord = SetCompact_word nCompact in
      if nSize \<le> 3 then base_uint_of (ucast nWord) else base_shl (base_uint_of (ucast nWord)) (8 * (nSize - 3)))"

definition SetCompact_negative :: "uint32 \<Rightarrow> bool" where
  "SetCompact_negative nCompact \<longleftrightarrow> SetCompact_word nCompact \<noteq> 0 \<and> nCompact AND 0x00800000 \<noteq> 0"

definition SetCompact_overflow :: "uint32 \<Rightarrow> bool" where
  "SetCompact_overflow nCompact \<longleftrightarrow>
     (let nSize = unat (drop_bit 24 nCompact); nWord = SetCompact_word nCompact in
      nWord \<noteq> 0 \<and> (nSize > 34 \<or> (nWord > 0xff \<and> nSize > 33) \<or> (nWord > 0xffff \<and> nSize > 32)))"

definition GetCompact :: "bool \<Rightarrow> base_uint \<Rightarrow> (unit, uint32) outcome" where
  "GetCompact fNegative a =
     (let nSize0 = (base_bits a + 7) div 8;
          c0 = (if nSize0 \<le> 3 then ucast (push_bit (8 * (3 - nSize0)) (GetLow64 a))
                else ucast (GetLow64 (base_shr a (8 * (nSize0 - 3))))) :: uint32;
          sign = c0 AND 0x00800000 \<noteq> 0;
          c1 = (if sign then drop_bit 8 c0 else c0);
          nSize = (if sign then nSize0 + 1 else nSize0) in
      if c1 AND NOT 0x007fffff \<noteq> 0 then Abort
      else if nSize \<ge> 256 then Abort
      else
        let c2 = c1 OR push_bit 24 (of_nat nSize) in
        Ok (c2 OR (if fNegative \<and> c2 AND 0x007fffff \<noteq> 0 then 0x00800000 else 0)))"

section \<open>Conversion\<close>

definition ArithToUint256 :: "base_uint \<Rightarrow> valtype" where
  "ArithToUint256 a = concat (map (\<lambda>x. le_bytes 4 (unat x)) a)"

definition UintToArith256 :: "valtype \<Rightarrow> base_uint" where
  "UintToArith256 a = map (\<lambda>x. word_of_nat (le_nat (take 4 (drop (x * 4) a)))) [0..<WIDTH]"

section \<open>Carries\<close>

abbreviation (input) BASE :: nat where "BASE \<equiv> 4294967296"

lemma limbs_val_less: "limbs_val xs < 2 ^ (32 * length xs)"
proof (induction xs)
  case Nil
  then show ?case by simp
next
  case (Cons x xs)
  have "unat x < BASE" using unsigned_less [where ?'a = nat, of x] by simp
  then have "unat x + BASE * limbs_val xs < BASE * (1 + limbs_val xs)" by simp
  also have "\<dots> \<le> BASE * 2 ^ (32 * length xs)" using Cons.IH by (intro mult_left_mono) simp_all
  finally show ?case by (simp add: power_add)
qed

lemma unat_low_limb: "unat (ucast (n AND 0xffffffff) :: uint32) = unat (n :: uint64) mod BASE"
proof -
  have "n AND 0xffffffff = take_bit 32 n" by (simp add: take_bit_eq_mask mask_eq_decr_exp)
  then show ?thesis by (simp add: unsigned_ucast_eq unsigned_take_bit_eq take_bit_eq_mod unat_mod)
qed

lemma unat_high_limb: "unat (drop_bit 32 (n :: uint64)) = unat n div BASE"
  by (simp add: drop_bit_eq_div unat_div)

lemma unat_ucast_limb: "unat (ucast (x :: uint32) :: uint64) = unat x"
  by (rule unat_ucast_up) simp

lemma unat_limb_less: "unat (x :: uint32) < BASE"
  using unsigned_less [where ?'a = nat, of x] by simp

lemma carry_step:
  "(n + BASE * r) mod (BASE * M) = n mod BASE + BASE * ((n div BASE + r) mod M)" for n r M :: nat
  by (simp add: mod_mult2_eq add.commute)

lemma pow_limb: "(2 :: nat) ^ (32 * Suc k) = BASE * 2 ^ (32 * k)"
  by (simp add: power_add)

section \<open>Addition and subtraction\<close>

lemma add_loop_val:
  assumes "length a = length b" "unat carry \<le> 1"
  shows "limbs_val (add_loop carry a b) = (unat carry + limbs_val a + limbs_val b) mod 2 ^ (32 * length a) \<and>
    length (add_loop carry a b) = length a"
  using assms
proof (induction carry a b rule: add_loop.induct)
  case (1 carry x xs y ys)
  let ?n = "carry + ucast x + ucast y"
  have n: "unat ?n = unat carry + unat x + unat y"
    using 1(3) unat_limb_less [of x] unat_limb_less [of y]
    by (simp add: unat_add_lem [THEN iffD1] unat_ucast_limb)
  have "unat (drop_bit 32 ?n) \<le> 1"
    using 1(3) unat_limb_less [of x] unat_limb_less [of y] unfolding unat_high_limb n by linarith
  then have IH: "limbs_val (add_loop (drop_bit 32 ?n) xs ys) = (unat (drop_bit 32 ?n) + limbs_val xs + limbs_val ys) mod 2 ^ (32 * length xs)"
      "length (add_loop (drop_bit 32 ?n) xs ys) = length xs"
    using 1(1) [OF refl] 1(2) by simp_all
  have "(unat carry + limbs_val (x # xs) + limbs_val (y # ys)) = unat ?n + BASE * (limbs_val xs + limbs_val ys)"
    unfolding n by simp
  then show ?case
    using IH carry_step [of "unat ?n" "limbs_val xs + limbs_val ys" "2 ^ (32 * length xs)"]
    by (simp only: add_loop.simps Let_def limbs_val.simps unat_low_limb unat_high_limb length_Cons pow_limb) (simp add: add.assoc)
qed simp_all

lemma base_add_val:
  "length a = length b \<Longrightarrow> limbs_val (base_add a b) = (limbs_val a + limbs_val b) mod 2 ^ (32 * length a)"
  "length a = length b \<Longrightarrow> length (base_add a b) = length a"
  using add_loop_val [of a b 0] by (simp_all add: base_add_def)

lemma unat_limb_max: "unat (- 1 :: uint32) = BASE - 1"
  by (simp add: unsigned_minus_1_eq_mask mask_eq_exp_minus_1)

lemma base_compl_val: "limbs_val (base_compl a) = 2 ^ (32 * length a) - 1 - limbs_val a"
proof (induction a)
  case Nil
  then show ?case by (simp add: base_compl_def)
next
  case (Cons x xs)
  have "NOT x = - 1 - x" by (simp add: not_eq_complement)
  then have x: "unat (NOT x) = BASE - 1 - unat x" using unat_sub [of x "- 1"] by (simp add: unat_limb_max)
  have "limbs_val xs < 2 ^ (32 * length xs)" by (rule limbs_val_less)
  moreover have "unat x < BASE" by (rule unat_limb_less)
  ultimately show ?case
    using Cons.IH by (simp add: base_compl_def x power_add algebra_simps)
qed

lemma unat_limb_Suc: "x + 1 \<noteq> 0 \<Longrightarrow> unat (x + 1 :: uint32) = Suc (unat x)"
  by (metis add.commute unatSuc)

lemma unat_limb_top: "x + 1 = 0 \<Longrightarrow> Suc (unat (x :: uint32)) = BASE"
proof -
  assume "x + 1 = 0"
  then have "x = - 1" by (simp add: eq_neg_iff_add_eq_0)
  then show ?thesis by (simp add: unat_limb_max)
qed

lemma base_inc_val: "a \<noteq> [] \<Longrightarrow> limbs_val (base_inc a) = (limbs_val a + 1) mod 2 ^ (32 * length a)"
proof (induction a rule: base_inc.induct)
  case (2 x xs)
  let ?M = "2 ^ (32 * length xs) :: nat"
  have e: "(limbs_val (x # xs) + 1) mod 2 ^ (32 * length (x # xs)) =
      Suc (unat x) mod BASE + BASE * ((Suc (unat x) div BASE + limbs_val xs) mod ?M)"
    using carry_step [of "Suc (unat x)" "limbs_val xs" ?M] by (simp only: length_Cons pow_limb) simp
  consider "x + 1 = 0" "xs \<noteq> []" | "x + 1 = 0" "xs = []" | "x + 1 \<noteq> 0" by blast
  then show ?case
  proof cases
    case 1
    then show ?thesis using 2(1) [OF _ 1(2)] unfolding e by (simp add: unat_limb_top)
  next
    case 2
    then show ?thesis unfolding e by (simp add: unat_limb_top)
  next
    case 3
    have "Suc (unat x) < BASE" using unat_limb_Suc [OF 3] unat_limb_less [of "x + 1"] by simp
    then show ?thesis unfolding e using 3 limbs_val_less [of xs] by (simp add: unat_limb_Suc)
  qed
qed simp

lemma length_base_inc [simp]: "length (base_inc a) = length a"
  by (induction a rule: base_inc.induct) simp_all

lemma length_base_compl [simp]: "length (base_compl a) = length a"
  by (simp add: base_compl_def)

lemma base_neg_val: "limbs_val (base_neg a) = (2 ^ (32 * length a) - limbs_val a) mod 2 ^ (32 * length a)"
proof (cases "a = []")
  case True
  then show ?thesis by (simp add: base_neg_def base_compl_def)
next
  case False
  then have "base_compl a \<noteq> []" by (simp add: base_compl_def)
  then show ?thesis
    using base_inc_val [of "base_compl a"] limbs_val_less [of a] by (simp add: base_neg_def base_compl_val Suc_diff_Suc)
qed

lemma length_base_neg [simp]: "length (base_neg a) = length a"
  by (simp add: base_neg_def)

lemma base_sub_val:
  assumes "length a = length b"
  shows "limbs_val (base_sub a b) = (limbs_val a + 2 ^ (32 * length a) - limbs_val b) mod 2 ^ (32 * length a)"
  using base_add_val(1) [of a "base_neg b"] limbs_val_less [of b] assms
  by (simp add: base_sub_def base_neg_val mod_add_right_eq)

lemma base_sub_le:
  assumes "length a = length b" "limbs_val b \<le> limbs_val a"
  shows "limbs_val (base_sub a b) = limbs_val a - limbs_val b"
proof -
  have e: "limbs_val a + 2 ^ (32 * length a) - limbs_val b = (limbs_val a - limbs_val b) + 2 ^ (32 * length a)"
    using assms(2) by simp
  have "limbs_val a - limbs_val b < 2 ^ (32 * length a)" using limbs_val_less [of a] by linarith
  then show ?thesis unfolding base_sub_val [OF assms(1)] e mod_add_self2 by (rule mod_less)
qed

lemma length_base_sub [simp]: "length a = length b \<Longrightarrow> length (base_sub a b) = length b"
  using base_add_val(2) [of a "base_neg b"] by (simp add: base_sub_def)

section \<open>Multiplication\<close>

lemma mul32_loop_val:
  "limbs_val (mul32_loop b32 carry a) = (unat carry + unat b32 * limbs_val a) mod 2 ^ (32 * length a) \<and>
   length (mul32_loop b32 carry a) = length a"
  if "unat carry < BASE"
  using that
proof (induction b32 carry a rule: mul32_loop.induct)
  case (2 b32 carry x xs)
  let ?n = "carry + ucast b32 * ucast x"
  have p: "unat b32 * unat x \<le> (BASE - 1) * (BASE - 1)"
    using unat_limb_less [of b32] unat_limb_less [of x] by (intro mult_mono) simp_all
  have "unat (ucast b32 * ucast x :: uint64) = unat b32 * unat x"
    using p by (simp add: unat_mult_lem [THEN iffD1] unat_ucast_limb)
  then have n: "unat ?n = unat carry + unat b32 * unat x"
    using p 2(2) by (simp add: unat_add_lem [THEN iffD1])
  have "unat (drop_bit 32 ?n) < BASE"
    using p 2(2) unfolding unat_high_limb n by (simp add: div_less_iff_less_mult)
  then have IH: "limbs_val (mul32_loop b32 (drop_bit 32 ?n) xs) = (unat (drop_bit 32 ?n) + unat b32 * limbs_val xs) mod 2 ^ (32 * length xs)"
      "length (mul32_loop b32 (drop_bit 32 ?n) xs) = length xs"
    using 2(1) [OF refl] by simp_all
  have "unat carry + unat b32 * limbs_val (x # xs) = unat ?n + BASE * (unat b32 * limbs_val xs)"
    unfolding n by (simp add: algebra_simps)
  then show ?case
    using IH carry_step [of "unat ?n" "unat b32 * limbs_val xs" "2 ^ (32 * length xs)"]
    by (simp only: mul32_loop.simps Let_def limbs_val.simps unat_low_limb unat_high_limb length_Cons pow_limb) simp
qed simp

lemma base_mul32_val:
  "limbs_val (base_mul32 a b32) = (unat b32 * limbs_val a) mod 2 ^ (32 * length a)"
  "length (base_mul32 a b32) = length a"
  using mul32_loop_val [of 0 b32 a] by (simp_all add: base_mul32_def)

lemma mul_inner_val:
  "limbs_val (mul_inner carry aj ps bs) =
     (unat carry + limbs_val ps + unat aj * limbs_val (take (length ps) bs)) mod 2 ^ (32 * length ps) \<and>
   length (mul_inner carry aj ps bs) = length ps"
  if "unat carry < BASE" "length ps \<le> length bs"
  using that
proof (induction carry aj ps bs rule: mul_inner.induct)
  case (1 carry aj p ps b bs)
  let ?n = "carry + ucast p + ucast aj * ucast b"
  have m: "unat aj * unat b \<le> (BASE - 1) * (BASE - 1)"
    using unat_limb_less [of aj] unat_limb_less [of b] by (intro mult_mono) simp_all
  have "unat (ucast aj * ucast b :: uint64) = unat aj * unat b"
    using m by (simp add: unat_mult_lem [THEN iffD1] unat_ucast_limb)
  moreover have "unat (carry + ucast p) = unat carry + unat p"
    using 1(2) unat_limb_less [of p] by (simp add: unat_add_lem [THEN iffD1] unat_ucast_limb)
  ultimately have n: "unat ?n = unat carry + unat p + unat aj * unat b"
    using m 1(2) unat_limb_less [of p] by (simp add: unat_add_lem [THEN iffD1])
  have "unat (drop_bit 32 ?n) < BASE"
    using m 1(2) unat_limb_less [of p] unfolding unat_high_limb n by (simp add: div_less_iff_less_mult)
  then have IH: "limbs_val (mul_inner (drop_bit 32 ?n) aj ps bs) =
        (unat (drop_bit 32 ?n) + limbs_val ps + unat aj * limbs_val (take (length ps) bs)) mod 2 ^ (32 * length ps)"
      "length (mul_inner (drop_bit 32 ?n) aj ps bs) = length ps"
    using 1(1) [OF refl] 1(3) by simp_all
  have "unat carry + limbs_val (p # ps) + unat aj * limbs_val (take (length (p # ps)) (b # bs)) =
      unat ?n + BASE * (limbs_val ps + unat aj * limbs_val (take (length ps) bs))"
    unfolding n by (simp add: algebra_simps)
  then show ?case
    using IH carry_step [of "unat ?n" "limbs_val ps + unat aj * limbs_val (take (length ps) bs)" "2 ^ (32 * length ps)"]
    by (simp only: mul_inner.simps Let_def limbs_val.simps unat_low_limb unat_high_limb length_Cons pow_limb) (simp add: add.assoc)
qed (auto simp: Suc_le_eq)

lemma limbs_val_append: "limbs_val (xs @ ys) = limbs_val xs + 2 ^ (32 * length xs) * limbs_val ys"
  by (induction xs) (simp_all add: power_add algebra_simps)

lemma limbs_val_take: "limbs_val (take k b) = limbs_val b mod 2 ^ (32 * k)"
proof (cases "k \<le> length b")
  case True
  have "limbs_val b = limbs_val (take k b) + 2 ^ (32 * k) * limbs_val (drop k b)"
    using limbs_val_append [of "take k b" "drop k b"] True by simp
  moreover have "limbs_val (take k b) < 2 ^ (32 * k)" using limbs_val_less [of "take k b"] True by simp
  ultimately show ?thesis by simp
next
  case False
  then have "(2 :: nat) ^ (32 * length b) \<le> 2 ^ (32 * k)" by (intro power_increasing) simp_all
  from less_le_trans [OF limbs_val_less this] False show ?thesis by simp
qed

lemma limbs_val_split: "j \<le> length p \<Longrightarrow> limbs_val p = limbs_val (take j p) + 2 ^ (32 * j) * limbs_val (drop j p)"
  using limbs_val_append [of "take j p" "drop j p"] by simp

lemma limbs_val_replicate_0 [simp]: "limbs_val (replicate n 0) = 0"
  by (induction n) simp_all

lemma mod_shift: "(r :: nat) < B \<Longrightarrow> r + B * (X mod M) = (r + B * X) mod (B * M)"
  by (simp add: mod_mult2_eq)

lemma mul_step_val:
  assumes "j < length pn" "length pn = length b"
  shows "limbs_val (take j pn @ mul_inner 0 x (drop j pn) b) =
    (limbs_val pn + 2 ^ (32 * j) * (unat x * limbs_val b)) mod 2 ^ (32 * length pn)"
proof -
  let ?B = "2 ^ (32 * j) :: nat" and ?M = "2 ^ (32 * (length pn - j)) :: nat"
  have "?B * ?M = 2 ^ (32 * j + 32 * (length pn - j))" by (simp add: power_add)
  also have "32 * j + 32 * (length pn - j) = 32 * length pn" using assms(1) by simp
  finally have BM: "?B * ?M = 2 ^ (32 * length pn)" .
  have "limbs_val (mul_inner 0 x (drop j pn) b) =
      (limbs_val (drop j pn) + unat x * (limbs_val b mod ?M)) mod ?M"
    using mul_inner_val [of 0 "drop j pn" b x] assms by (simp add: limbs_val_take)
  also have "\<dots> = (limbs_val (drop j pn) + unat x * limbs_val b) mod ?M"
    by (rule mod_add_cong [OF refl mod_mult_right_eq])
  finally have "limbs_val (take j pn @ mul_inner 0 x (drop j pn) b) =
      limbs_val (take j pn) + ?B * ((limbs_val (drop j pn) + unat x * limbs_val b) mod ?M)"
    using assms(1) by (simp add: limbs_val_append)
  also have "\<dots> = (limbs_val (take j pn) + ?B * (limbs_val (drop j pn) + unat x * limbs_val b)) mod (?B * ?M)"
    using limbs_val_less [of "take j pn"] assms(1) by (intro mod_shift) simp
  also have "limbs_val (take j pn) + ?B * (limbs_val (drop j pn) + unat x * limbs_val b) =
      limbs_val pn + ?B * (unat x * limbs_val b)"
    using limbs_val_split [of j pn] assms(1) by (simp add: algebra_simps)
  finally show ?thesis unfolding BM .
qed

lemma limbs_val_take_Suc: "j < length a \<Longrightarrow> limbs_val (take (Suc j) a) = limbs_val (take j a) + 2 ^ (32 * j) * unat (a ! j)"
  by (simp add: take_Suc_conv_app_nth limbs_val_append)

lemma base_mul_val:
  assumes "length a = length b"
  shows "limbs_val (base_mul a b) = (limbs_val a * limbs_val b) mod 2 ^ (32 * length a) \<and> length (base_mul a b) = length a"
proof -
  let ?f = "\<lambda>pn j. take j pn @ mul_inner 0 (a ! j) (drop j pn) b"
  have "j \<le> length a \<Longrightarrow> length (foldl ?f (replicate (length a) 0) [0..<j]) = length a \<and>
      limbs_val (foldl ?f (replicate (length a) 0) [0..<j]) = (limbs_val (take j a) * limbs_val b) mod 2 ^ (32 * length a)" for j
  proof (induction j)
    case 0
    then show ?case by simp
  next
    case (Suc j)
    let ?p = "foldl ?f (replicate (length a) 0) [0..<j]"
    from Suc have IH: "length ?p = length a" "j < length a"
      "limbs_val ?p = (limbs_val (take j a) * limbs_val b) mod 2 ^ (32 * length a)" by simp_all
    have "limbs_val (?f ?p j) = (limbs_val ?p + 2 ^ (32 * j) * (unat (a ! j) * limbs_val b)) mod 2 ^ (32 * length a)"
      using mul_step_val [of j ?p b "a ! j"] IH(1,2) assms by simp
    also have "\<dots> = (limbs_val (take (Suc j) a) * limbs_val b) mod 2 ^ (32 * length a)"
      unfolding IH(3) mod_add_left_eq using IH(2) by (simp add: limbs_val_take_Suc algebra_simps)
    finally show ?case using IH mul_inner_val [of 0 "drop j ?p" b "a ! j"] assms by simp
  qed
  from this [of "length a"] show ?thesis by (simp add: base_mul_def)
qed

section \<open>Bits of limbs\<close>

lemma bit_limbs_val: "bit (limbs_val xs) n \<longleftrightarrow> n < 32 * length xs \<and> bit (xs ! (n div 32)) (n mod 32)"
proof (induction xs arbitrary: n)
  case Nil
  then show ?case by simp
next
  case (Cons x xs)
  have "unat x < 2 ^ 32" using unat_limb_less [of x] by simp
  then have "limbs_val (x # xs) = unat x OR push_bit 32 (limbs_val xs)"
    using or_push_bit_nat [of "unat x" 32 "limbs_val xs"] by simp
  then have b: "bit (limbs_val (x # xs)) n \<longleftrightarrow> bit (unat x) n \<or> 32 \<le> n \<and> bit (limbs_val xs) (n - 32)"
    by (simp only: bit_or_iff bit_push_bit_iff) simp
  show ?case
  proof (cases "n < 32")
    case True
    with b show ?thesis by (simp add: bit_unsigned_iff)
  next
    case False
    then have "\<not> bit (unat x) n" by (auto simp: bit_unsigned_iff dest: bit_imp_le_length)
    moreover have "n div 32 = Suc ((n - 32) div 32)" "n mod 32 = (n - 32) mod 32" using False by (simp_all add: le_div_geq le_mod_geq)
    ultimately show ?thesis using b False Cons.IH [of "n - 32"] by auto
  qed
qed

lemma limbs_val_bit_eqI:
  assumes "\<And>m r. m < length xs \<Longrightarrow> r < 32 \<Longrightarrow> bit (xs ! m) r \<longleftrightarrow> bit v (32 * m + r)"
    "v < 2 ^ (32 * length xs)"
  shows "limbs_val xs = v"
proof (rule bit_eqI)
  fix n
  have "bit v n \<Longrightarrow> n < 32 * length xs"
    using assms(2) by (metis bit_take_bit_iff take_bit_nat_eq_self)
  moreover have "n < 32 * length xs \<Longrightarrow> bit (xs ! (n div 32)) (n mod 32) \<longleftrightarrow> bit v n"
    using assms(1) [of "n div 32" "n mod 32"] by (simp add: less_mult_imp_div_less mult.commute)
  ultimately show "bit (limbs_val xs) n \<longleftrightarrow> bit v n" unfolding bit_limbs_val by blast
qed

section \<open>Shifts\<close>

lemma shl_fold:
  assumes "n \<le> length a"
  shows "length (foldl (shl_step a k s) (replicate (length a) 0) [0..<n]) = length a \<and>
    (\<forall>m < length a. foldl (shl_step a k s) (replicate (length a) 0) [0..<n] ! m =
      (if k \<le> m \<and> m - k < n then push_bit s (a ! (m - k)) else 0) OR
      (if s \<noteq> 0 \<and> k + 1 \<le> m \<and> m - k - 1 < n then drop_bit (32 - s) (a ! (m - k - 1)) else 0))"
  using assms
proof (induction n)
  case 0
  then show ?case by simp
next
  case (Suc n)
  let ?p = "foldl (shl_step a k s) (replicate (length a) 0) [0..<n]"
  from Suc have l: "length ?p = length a" and IH: "\<And>m. m < length a \<Longrightarrow> ?p ! m =
      (if k \<le> m \<and> m - k < n then push_bit s (a ! (m - k)) else 0) OR
      (if s \<noteq> 0 \<and> k + 1 \<le> m \<and> m - k - 1 < n then drop_bit (32 - s) (a ! (m - k - 1)) else 0)" by simp_all
  have "shl_step a k s ?p n ! m = 
      (if k \<le> m \<and> m - k < Suc n then push_bit s (a ! (m - k)) else 0) OR
      (if s \<noteq> 0 \<and> k + 1 \<le> m \<and> m - k - 1 < Suc n then drop_bit (32 - s) (a ! (m - k - 1)) else 0)" if m: "m < length a" for m
  proof -
    consider "m = n + k" | "m = n + k + 1" | "m \<noteq> n + k" "m \<noteq> n + k + 1" by blast
    then show ?thesis
    proof cases
      case 1
      then show ?thesis using m l IH [OF m] by (auto simp: shl_step_def Let_def or.commute)
    next
      case 2
      then show ?thesis using m l IH [OF m] by (auto simp: shl_step_def Let_def)
    next
      case 3
      then have "shl_step a k s ?p n ! m = ?p ! m" using m l by (simp add: shl_step_def Let_def)
      moreover have "m - k < Suc n \<longleftrightarrow> m - k < n" if "k \<le> m" using that 3 by linarith
      moreover have "m - k - 1 < Suc n \<longleftrightarrow> m - k - 1 < n" if "k + 1 \<le> m" using that 3 by linarith
      ultimately show ?thesis using IH [OF m] by auto
    qed
  qed
  moreover have "length (shl_step a k s ?p n) = length a" using l by (simp add: shl_step_def Let_def)
  ultimately show ?case by simp
qed

lemma base_shl_nth:
  assumes "m < length a"
  shows "base_shl a shift ! m =
    (if shift div 32 \<le> m then push_bit (shift mod 32) (a ! (m - shift div 32)) else 0) OR
    (if shift mod 32 \<noteq> 0 \<and> shift div 32 + 1 \<le> m then drop_bit (32 - shift mod 32) (a ! (m - shift div 32 - 1)) else 0)"
  using shl_fold [of "length a" a "shift div 32" "shift mod 32"] assms
  by (auto simp: base_shl_def)

lemma length_base_shl [simp]: "length (base_shl a shift) = length a"
  using shl_fold [of "length a" a "shift div 32" "shift mod 32"] by (simp add: base_shl_def)

lemma divmod_limb: "x = 32 * q + r \<Longrightarrow> r < 32 \<Longrightarrow> x div 32 = q \<and> x mod 32 = (r :: nat)"
  by simp

lemma base_shl_val: "limbs_val (base_shl a shift) = limbs_val a * 2 ^ shift mod 2 ^ (32 * length a)"
proof (rule limbs_val_bit_eqI)
  define k s where k_def: "k = shift div 32" and s_def: "s = shift mod 32"
  then have sh: "shift = 32 * k + s" and s: "s < 32" by simp_all
  fix m r assume "m < length (base_shl a shift)" and r: "r < (32 :: nat)"
  then have m: "m < length a" by simp
  note nth = base_shl_nth [OF m, of shift, folded k_def s_def]
  have "bit (limbs_val a * 2 ^ shift mod 2 ^ (32 * length a)) (32 * m + r) \<longleftrightarrow>
      32 * m + r < 32 * length a \<and> shift \<le> 32 * m + r \<and> bit (limbs_val a) (32 * m + r - shift)"
    by (simp flip: take_bit_eq_mod push_bit_eq_mult add: bit_take_bit_iff bit_push_bit_iff)
  also have "\<dots> \<longleftrightarrow> shift \<le> 32 * m + r \<and> bit (a ! ((32 * m + r - shift) div 32)) ((32 * m + r - shift) mod 32)"
    using m r by (auto simp: bit_limbs_val)
  also have "\<dots> \<longleftrightarrow> bit (base_shl a shift ! m) r"
  proof (cases "s \<le> r")
    case True
    show ?thesis
    proof (cases "k \<le> m")
      case k: True
      have "32 * m + r - shift = 32 * (m - k) + (r - s)" using sh True k by linarith
      then have "(32 * m + r - shift) div 32 = m - k" "(32 * m + r - shift) mod 32 = r - s" using r by simp_all
      moreover have "shift \<le> 32 * m + r" using sh True k by linarith
      moreover have "\<not> bit (drop_bit (32 - s) (x :: uint32)) r" for x
        using True s by (auto simp: bit_drop_bit_eq dest: bit_imp_le_length)
      ultimately show ?thesis
        using nth True k r by (auto simp: bit_or_iff bit_push_bit_iff)
    next
      case False
      then have "\<not> shift \<le> 32 * m + r" using sh r by linarith
      with False show ?thesis using nth by simp
    qed
  next
    case False
    show ?thesis
    proof (cases "k + 1 \<le> m")
      case k: True
      have "32 * m + r - shift = 32 * (m - k - 1) + (r + 32 - s)" using sh False k s by linarith
      moreover have "r + 32 - s < 32" using False by linarith
      ultimately have "(32 * m + r - shift) div 32 = m - k - 1" "(32 * m + r - shift) mod 32 = r + 32 - s"
        using divmod_limb by blast+
      moreover have "shift \<le> 32 * m + r" using sh k s by linarith
      moreover have "r + (32 - s) = r + 32 - s" using s by linarith
      ultimately show ?thesis
        using nth False k r
        by (auto simp: bit_or_iff bit_push_bit_iff bit_drop_bit_eq add.commute)
    next
      case k: False
      then have "\<not> shift \<le> 32 * m + r" using sh False r by linarith
      with False k show ?thesis using nth by (auto simp: bit_push_bit_iff)
    qed
  qed
  finally show "bit (base_shl a shift ! m) r \<longleftrightarrow> bit (limbs_val a * 2 ^ shift mod 2 ^ (32 * length a)) (32 * m + r)" by blast
qed simp

lemma shr_fold:
  assumes "n \<le> length a"
  shows "length (foldl (shr_step a k s) (replicate (length a) 0) [0..<n]) = length a \<and>
    (\<forall>m < length a. foldl (shr_step a k s) (replicate (length a) 0) [0..<n] ! m =
      (if m + k < n then drop_bit s (a ! (m + k)) else 0) OR
      (if s \<noteq> 0 \<and> m + k + 1 < n then push_bit (32 - s) (a ! (m + k + 1)) else 0))"
  using assms
proof (induction n)
  case 0
  then show ?case by simp
next
  case (Suc n)
  let ?p = "foldl (shr_step a k s) (replicate (length a) 0) [0..<n]"
  from Suc have l: "length ?p = length a" and IH: "\<And>m. m < length a \<Longrightarrow> ?p ! m =
      (if m + k < n then drop_bit s (a ! (m + k)) else 0) OR
      (if s \<noteq> 0 \<and> m + k + 1 < n then push_bit (32 - s) (a ! (m + k + 1)) else 0)" by simp_all
  have "shr_step a k s ?p n ! m =
      (if m + k < Suc n then drop_bit s (a ! (m + k)) else 0) OR
      (if s \<noteq> 0 \<and> m + k + 1 < Suc n then push_bit (32 - s) (a ! (m + k + 1)) else 0)" if m: "m < length a" for m
  proof -
    consider "m + k = n" | "m + k + 1 = n" | "m + k \<noteq> n" "m + k + 1 \<noteq> n" by blast
    then show ?thesis
    proof cases
      case 1
      then show ?thesis using m l IH [OF m] by (auto simp: shr_step_def Let_def)
    next
      case 2
      then show ?thesis using m l IH [OF m] by (auto simp: shr_step_def Let_def)
    next
      case 3
      then have "shr_step a k s ?p n ! m = ?p ! m" using m l by (auto simp: shr_step_def Let_def nth_list_update)
      with 3 show ?thesis using IH [OF m] by auto
    qed
  qed
  moreover have "length (shr_step a k s ?p n) = length a" using l by (simp add: shr_step_def Let_def)
  ultimately show ?case by simp
qed

lemma base_shr_nth:
  assumes "m < length a"
  shows "base_shr a shift ! m =
    (if m + shift div 32 < length a then drop_bit (shift mod 32) (a ! (m + shift div 32)) else 0) OR
    (if shift mod 32 \<noteq> 0 \<and> m + shift div 32 + 1 < length a then push_bit (32 - shift mod 32) (a ! (m + shift div 32 + 1)) else 0)"
  using shr_fold [of "length a" a "shift div 32" "shift mod 32"] assms
  by (auto simp: base_shr_def)

lemma length_base_shr [simp]: "length (base_shr a shift) = length a"
  using shr_fold [of "length a" a "shift div 32" "shift mod 32"] by (simp add: base_shr_def)

lemma base_shr_val: "limbs_val (base_shr a shift) = limbs_val a div 2 ^ shift"
proof (rule limbs_val_bit_eqI)
  define k s where k_def: "k = shift div 32" and s_def: "s = shift mod 32"
  then have sh: "shift = 32 * k + s" and s: "s < 32" by simp_all
  fix m r assume "m < length (base_shr a shift)" and r: "r < (32 :: nat)"
  then have m: "m < length a" by simp
  note nth = base_shr_nth [OF m, of shift, folded k_def s_def]
  have "bit (limbs_val a div 2 ^ shift) (32 * m + r) \<longleftrightarrow> bit (limbs_val a) (shift + (32 * m + r))"
    by (simp flip: drop_bit_eq_div add: bit_drop_bit_eq)
  also have "\<dots> \<longleftrightarrow> bit (base_shr a shift ! m) r"
  proof (cases "s + r < 32")
    case True
    have "shift + (32 * m + r) = 32 * (m + k) + (s + r)" using sh by (simp add: algebra_simps)
    then have "(shift + (32 * m + r)) div 32 = m + k" "(shift + (32 * m + r)) mod 32 = s + r" using divmod_limb True by blast+
    moreover have "shift + (32 * m + r) < 32 * length a \<longleftrightarrow> m + k < length a" using sh True by linarith
    moreover have "\<not> (32 - s \<le> r)" using True by linarith
    ultimately show ?thesis
      using nth r True by (auto simp: bit_limbs_val bit_or_iff bit_push_bit_iff bit_drop_bit_eq)
  next
    case False
    have "shift + (32 * m + r) = 32 * (m + k + 1) + (s + r - 32)" using sh False by (simp add: algebra_simps)
    moreover have "s + r - 32 < 32" using s r by linarith
    ultimately have "(shift + (32 * m + r)) div 32 = m + k + 1" "(shift + (32 * m + r)) mod 32 = s + r - 32" using divmod_limb by blast+
    moreover have "shift + (32 * m + r) < 32 * length a \<longleftrightarrow> m + k + 1 < length a" using sh False s r by linarith
    moreover have "32 - s \<le> r" "r - (32 - s) = s + r - 32" "s \<noteq> 0" using False s r by linarith+
    moreover have "\<not> bit (drop_bit s (x :: uint32)) r" for x
      using False by (auto simp: bit_drop_bit_eq dest: bit_imp_le_length)
    ultimately show ?thesis
      using nth r by (auto simp: bit_limbs_val bit_or_iff bit_push_bit_iff)
  qed
  finally show "bit (base_shr a shift ! m) r \<longleftrightarrow> bit (limbs_val a div 2 ^ shift) (32 * m + r)" by blast
next
  show "limbs_val a div 2 ^ shift < 2 ^ (32 * length (base_shr a shift))"
    using limbs_val_less [of a] div_le_dividend [of "limbs_val a" "2 ^ shift"] by (simp only: length_base_shr)
qed

section \<open>Comparison and size\<close>

lemma compare_from_top_val:
  "length xs = length ys \<Longrightarrow> compare_from_top xs ys =
     (if limbs_val (rev xs) < limbs_val (rev ys) then - 1 else if limbs_val (rev ys) < limbs_val (rev xs) then 1 else 0)"
proof (induction xs ys rule: compare_from_top.induct)
  case (1 x xs y ys)
  then have l: "length ys = length xs" by simp
  let ?P = "2 ^ (32 * length xs) :: nat"
  have v: "limbs_val (rev (x # xs)) = limbs_val (rev xs) + ?P * unat x" "limbs_val (rev (y # ys)) = limbs_val (rev ys) + ?P * unat y"
    using l by (simp_all add: limbs_val_append)
  have lt: "limbs_val (rev xs) < ?P" "limbs_val (rev ys) < ?P"
    using limbs_val_less [of "rev xs"] limbs_val_less [of "rev ys"] l by simp_all
  have mono: "a + ?P * i < b + ?P * j" if "i < j" "a < ?P" for a b i j :: nat
  proof -
    have "a + ?P * i < ?P * (i + 1)" using that(2) by simp
    also have "\<dots> \<le> ?P * j" using that(1) by (intro mult_left_mono) simp_all
    finally show ?thesis by simp
  qed
  consider "x < y" | "y < x" | "x = y" using less_linear by blast
  then show ?case
  proof cases
    case 1
    then show ?thesis using mono [of "unat x" "unat y"] lt unfolding v by (simp add: word_less_nat_alt)
  next
    case 2
    then have "limbs_val (rev ys) + ?P * unat y < limbs_val (rev xs) + ?P * unat x"
      using mono [of "unat y" "unat x"] lt by (simp add: word_less_nat_alt)
    with 2 show ?thesis unfolding v by auto
  next
    case 3
    then show ?thesis using 1 unfolding v by simp
  qed
qed simp_all

lemma CompareTo_val:
  "length a = length b \<Longrightarrow>
   CompareTo a b = (if limbs_val a < limbs_val b then - 1 else if limbs_val b < limbs_val a then 1 else 0)"
  by (simp add: CompareTo_def compare_from_top_val)

lemma limb_bits_bounds:
  "x \<noteq> 0 \<Longrightarrow> unat x < 2 ^ Suc n \<Longrightarrow> n < 32 \<Longrightarrow>
   1 \<le> limb_bits x n \<and> limb_bits x n \<le> Suc n \<and> 2 ^ (limb_bits x n - 1) \<le> unat x \<and> unat x < 2 ^ limb_bits x n"
proof (induction n)
  case 0
  then have "unat x = 1" by (simp add: unat_eq_zero less_Suc_eq numeral_2_eq_2 flip: neq0_conv)
  then show ?case by simp
next
  case (Suc n)
  have b: "x AND push_bit (Suc n) 1 \<noteq> 0 \<longleftrightarrow> bit (unat x) (Suc n)"
    using and_exp_eq_0_iff_not_bit [of x "Suc n"] Suc.prems(3)
    by (simp only: push_bit_of_1) (simp add: bit_unsigned_iff)
  show ?case
  proof (cases "bit (unat x) (Suc n)")
    case True
    then have "2 ^ Suc n \<le> unat x" by (metis bit_take_bit_iff not_le take_bit_nat_eq_self less_irrefl)
    with True b Suc.prems show ?thesis by simp
  next
    case False
    then have "unat x < 2 ^ Suc n" using bit_top_of_nat [of "Suc n" "unat x"] Suc.prems(2) by linarith
    with False b Suc show ?thesis by auto
  qed
qed

lemma bits_from_top_bounds:
  "(limbs_val (rev xs) = 0 \<longrightarrow> bits_from_top xs = 0) \<and>
   (limbs_val (rev xs) \<noteq> 0 \<longrightarrow> 1 \<le> bits_from_top xs \<and> bits_from_top xs \<le> 32 * length xs \<and>
      2 ^ (bits_from_top xs - 1) \<le> limbs_val (rev xs) \<and> limbs_val (rev xs) < 2 ^ bits_from_top xs)"
proof (induction xs)
  case Nil
  then show ?case by simp
next
  case (Cons x xs)
  let ?P = "2 ^ (32 * length xs) :: nat"
  have v: "limbs_val (rev (x # xs)) = limbs_val (rev xs) + ?P * unat x" by (simp add: limbs_val_append)
  have lt: "limbs_val (rev xs) < ?P" using limbs_val_less [of "rev xs"] by simp
  show ?case
  proof (cases "x = 0")
    case True
    with Cons show ?thesis unfolding v by auto
  next
    case False
    let ?n = "limb_bits x 31"
    have n: "1 \<le> ?n" "?n \<le> 32" "2 ^ (?n - 1) \<le> unat x" "unat x < 2 ^ ?n"
      using limb_bits_bounds [of x 31] False unat_limb_less [of x] by simp_all
    have "?P * 2 ^ (?n - 1) \<le> ?P * unat x" using n(3) by simp
    moreover have "limbs_val (rev xs) + ?P * unat x < ?P * (unat x + 1)" using lt by simp
    moreover have "?P * (unat x + 1) \<le> ?P * 2 ^ ?n" using n(4) by (intro mult_left_mono) simp_all
    moreover have "?P * 2 ^ (?n - 1) = 2 ^ (32 * length xs + ?n - 1)" using n(1) by (simp flip: power_add)
    moreover have "?P * 2 ^ ?n = 2 ^ (32 * length xs + ?n)" by (simp flip: power_add)
    moreover have "limbs_val (rev xs) + ?P * unat x \<noteq> 0" using False by (simp add: unat_eq_zero)
    ultimately have "2 ^ (32 * length xs + ?n - 1) \<le> limbs_val (rev xs) + ?P * unat x"
      "limbs_val (rev xs) + ?P * unat x < 2 ^ (32 * length xs + ?n)" "limbs_val (rev xs) + ?P * unat x \<noteq> 0" by linarith+
    with False n(1,2) show ?thesis unfolding v by auto
  qed
qed

lemma base_bits_bounds:
  "base_bits a = 0 \<longleftrightarrow> limbs_val a = 0"
  "limbs_val a < 2 ^ base_bits a"
  "limbs_val a \<noteq> 0 \<Longrightarrow> 2 ^ (base_bits a - 1) \<le> limbs_val a"
  "base_bits a \<le> 32 * length a"
  using bits_from_top_bounds [of "rev a"] by (auto simp: base_bits_def)

section \<open>Division\<close>

lemma not_bit_if_dvd: "2 ^ Suc n dvd (v :: nat) \<Longrightarrow> \<not> bit v n"
proof -
  assume "2 ^ Suc n dvd v"
  then obtain k where "v = push_bit (Suc n) k" by (auto simp: push_bit_eq_mult mult.commute elim!: dvdE)
  then show ?thesis by (simp only: bit_push_bit_iff) simp
qed

lemma set_limb_bit_val:
  assumes len: "n < 32 * length pn" and d: "2 ^ Suc n dvd limbs_val pn"
  shows "limbs_val (pn[n div 32 := pn ! (n div 32) OR push_bit (n mod 32) 1]) = limbs_val pn + 2 ^ n"
proof -
  let ?p = "pn[n div 32 := pn ! (n div 32) OR push_bit (n mod 32) 1]"
  have nb: "\<not> bit (limbs_val pn) n" using d by (rule not_bit_if_dvd)
  have "limbs_val ?p = limbs_val pn OR 2 ^ n"
  proof (rule limbs_val_bit_eqI)
    fix m r assume m: "m < length ?p" and r: "r < (32 :: nat)"
    have n: "32 * m + r = n \<longleftrightarrow> n div 32 = m \<and> n mod 32 = r" using r by auto
    have bv: "bit (limbs_val pn) (32 * m + r) = bit (pn ! m) r" using m r by (simp add: bit_limbs_val)
    show "bit (?p ! m) r \<longleftrightarrow> bit (limbs_val pn OR 2 ^ n) (32 * m + r)"
    proof (cases "n div 32 = m")
      case True
      then have "?p ! m = pn ! m OR push_bit (n mod 32) 1" using m by simp
      with True r show ?thesis unfolding bit_or_iff bv bit_exp_iff n
        by (auto simp: bit_or_iff bit_push_bit_iff bit_1_iff bit_exp_iff)
    next
      case False
      then have "?p ! m = pn ! m" by simp
      with False show ?thesis unfolding bit_or_iff bv bit_exp_iff n by simp
    qed
  next
    have "take_bit (32 * length pn) (limbs_val pn OR 2 ^ n) = limbs_val pn OR 2 ^ n"
      using limbs_val_less [of pn] len by (simp add: take_bit_or take_bit_nat_eq_self)
    then show "limbs_val pn OR 2 ^ n < 2 ^ (32 * length ?p)" by (metis length_list_update take_bit_nat_less_exp)
  qed
  also have "\<dots> = limbs_val pn + 2 ^ n"
    using nb by (intro disjunctive_add_eq_or [symmetric]) (auto intro!: bit_eqI simp: bit_and_iff bit_exp_iff)
  finally show ?thesis .
qed

lemma div_loop_val:
  assumes "length num = length pn" "length dvs = length pn" "n \<le> 32 * length pn"
    and "0 < d" "limbs_val num < d * 2 ^ n" "0 < n \<longrightarrow> limbs_val dvs = d * 2 ^ (n - 1)" "2 ^ n dvd limbs_val pn"
  shows "limbs_val (fst (div_loop n num dvs pn)) = limbs_val pn + limbs_val num div d \<and>
    limbs_val (snd (div_loop n num dvs pn)) = limbs_val num mod d \<and>
    length (fst (div_loop n num dvs pn)) = length pn"
  using assms
proof (induction n num dvs pn rule: div_loop.induct)
  case (1 num dvs pn)
  then show ?case by simp
next
  case (2 n num dvs pn)
  note p = "2.prems"
  have dv: "limbs_val dvs = d * 2 ^ n" using p(6) by simp
  have dv': "0 < n \<longrightarrow> limbs_val (base_shr dvs 1) = d * 2 ^ (n - 1)"
    unfolding base_shr_val dv by (cases n) simp_all
  have ge: "CompareTo num dvs \<ge> 0 \<longleftrightarrow> d * 2 ^ n \<le> limbs_val num" using p(1,2) dv by (simp add: CompareTo_val)
  show ?case
  proof (cases "d * 2 ^ n \<le> limbs_val num")
    case True
    let ?pn = "pn[n div 32 := pn ! (n div 32) OR push_bit (n mod 32) 1]"
    have pv: "limbs_val ?pn = limbs_val pn + 2 ^ n" using p(3,7) by (intro set_limb_bit_val) auto
    have sv: "limbs_val (base_sub num dvs) = limbs_val num - d * 2 ^ n"
      using True p(1,2) dv by (simp add: base_sub_le)
    have "2 ^ n dvd limbs_val ?pn" unfolding pv using p(7) by (metis dvd_add dvd_refl dvd_trans le_imp_power_dvd le_SucI order_refl)
    moreover have "limbs_val num - d * 2 ^ n < d * 2 ^ n" using p(5) by (simp add: mult.left_commute)
    ultimately have IH: "limbs_val (fst (div_loop n (base_sub num dvs) (base_shr dvs 1) ?pn)) = limbs_val pn + 2 ^ n + (limbs_val num - d * 2 ^ n) div d \<and>
        limbs_val (snd (div_loop n (base_sub num dvs) (base_shr dvs 1) ?pn)) = (limbs_val num - d * 2 ^ n) mod d \<and>
        length (fst (div_loop n (base_sub num dvs) (base_shr dvs 1) ?pn)) = length pn"
      using "2.IH"(1) p(1-4) dv' True unfolding ge pv sv by simp
    have e: "limbs_val num = (limbs_val num - d * 2 ^ n) + d * 2 ^ n" using True by simp
    have "limbs_val num div d = 2 ^ n + (limbs_val num - d * 2 ^ n) div d" using p(4) by (subst e) (simp del: le_add_diff_inverse2)
    moreover have "limbs_val num mod d = (limbs_val num - d * 2 ^ n) mod d" by (subst e) (simp del: le_add_diff_inverse2)
    ultimately show ?thesis using IH True ge by simp
  next
    case False
    have "2 ^ n dvd limbs_val pn" using p(7) by (metis dvd_trans le_imp_power_dvd le_SucI order_refl)
    with False show ?thesis using "2.IH"(2) p(1-4) dv' by (simp add: ge)
  qed
qed

lemma base_div_val:
  assumes len: "length a = length b"
  shows "base_div a b = None \<longleftrightarrow> limbs_val b = 0"
    and "base_div a b = Some q \<Longrightarrow> limbs_val q = limbs_val a div limbs_val b \<and> length q = length a"
proof -
  show "base_div a b = None \<longleftrightarrow> limbs_val b = 0" by (simp add: base_div_def base_bits_bounds(1) Let_def)
  assume q: "base_div a b = Some q"
  then have nz: "limbs_val b \<noteq> 0" by (auto simp: base_div_def base_bits_bounds(1) Let_def split: if_splits)
  let ?n = "base_bits a" and ?d = "base_bits b"
  have d: "0 < ?d" "2 ^ (?d - 1) \<le> limbs_val b" using nz base_bits_bounds(1,3) [of b] by auto
  show "limbs_val q = limbs_val a div limbs_val b \<and> length q = length a"
  proof (cases "?n < ?d")
    case True
    have "limbs_val a < 2 ^ ?n" by (rule base_bits_bounds(2))
    also have "\<dots> \<le> 2 ^ (?d - 1)" using True by (intro power_increasing) auto
    finally have "limbs_val a < limbs_val b" using d(2) by simp
    with True q nz show ?thesis by (auto simp: base_div_def base_bits_bounds(1) Let_def limbs_val_replicate_0)
  next
    case False
    let ?s = "?n - ?d"
    have "limbs_val b * 2 ^ ?s < 2 ^ ?d * 2 ^ ?s" using base_bits_bounds(2) [of b] by simp
    also have "\<dots> = 2 ^ ?n" using False by (simp flip: power_add)
    also have "\<dots> \<le> 2 ^ (32 * length b)" using base_bits_bounds(4) [of a] len by (intro power_increasing) simp_all
    finally have lt: "limbs_val b * 2 ^ ?s < 2 ^ (32 * length b)" .
    have "limbs_val a < 2 ^ ?n" by (rule base_bits_bounds(2))
    also have "\<dots> = 2 ^ (?d - 1) * 2 ^ Suc ?s" using False d(1) by (simp flip: power_add power_Suc)
    also have "\<dots> \<le> limbs_val b * 2 ^ Suc ?s" using d(2) by (intro mult_right_mono) auto
    finally have "limbs_val a < limbs_val b * 2 ^ Suc ?s" .
    moreover have "Suc ?s \<le> 32 * length a" using base_bits_bounds(4) [of a] d(1) False by linarith
    ultimately have "limbs_val (fst (div_loop (Suc ?s) a (base_shl b ?s) (replicate (length a) 0))) =
        limbs_val (replicate (length a) 0) + limbs_val a div limbs_val b \<and>
        length (fst (div_loop (Suc ?s) a (base_shl b ?s) (replicate (length a) 0))) = length (replicate (length a) (0 :: uint32))"
      using div_loop_val [of a "replicate (length a) 0" "base_shl b ?s" "Suc ?s" "limbs_val b"] len nz lt
      by (auto simp: base_shl_val limbs_val_replicate_0)
    with q nz False show ?thesis by (auto simp: base_div_def base_bits_bounds(1) Let_def limbs_val_replicate_0 simp del: div_loop.simps)
  qed
qed

end
