(* ===== verification/Chain.thy ===== *)
theory Chain
  imports Block ArithUint256
begin

unbundle bit_operations_syntax

text \<open>
  The block index and the active chain: \<^verbatim>\<open>src/src/chain.h\<close> and \<^verbatim>\<open>src/src/chain.cpp\<close>. The entries live in
  \<^verbatim>\<open>mapBlockIndex\<close>; a pointer to an entry is its key, the hash that \<^verbatim>\<open>phashBlock\<close> points to, so that pointers are
  compared by comparing hashes. Following a pointer that is null or not in the map is \<open>Abort\<close>.
  \<^verbatim>\<open>GetAncestor\<close> over the skip pointers is shown to be the walk over the parent pointers, and the active chain to hold
  the ancestors of its tip.
\<close>

section \<open>Block index entries\<close>

type_synonym index_ptr = uint256

record CBlockIndex =
  pprev :: "index_ptr option"
  pskip :: "index_ptr option"
  nHeight :: int
  nFile :: int
  nDataPos :: uint32
  nUndoPos :: uint32
  nChainWork :: base_uint
  nTx :: uint32
  nChainTx :: uint32
  nStatus :: uint32
  hashAnchor :: uint256
  hashAnchorEnd :: uint256
  bi_nVersion :: int
  bi_hashMerkleRoot :: uint256
  bi_hashReserved :: uint256
  bi_nTime :: uint32
  bi_nBits :: uint32
  bi_nNonce :: uint256
  bi_nSolution :: valtype
  nSequenceId :: uint32

type_synonym block_map = "index_ptr \<Rightarrow> CBlockIndex option"

abbreviation (input) BLOCK_VALID_HEADER :: uint32 where "BLOCK_VALID_HEADER \<equiv> 1"
abbreviation (input) BLOCK_VALID_TREE :: uint32 where "BLOCK_VALID_TREE \<equiv> 2"
abbreviation (input) BLOCK_VALID_TRANSACTIONS :: uint32 where "BLOCK_VALID_TRANSACTIONS \<equiv> 3"
abbreviation (input) BLOCK_VALID_CHAIN :: uint32 where "BLOCK_VALID_CHAIN \<equiv> 4"
abbreviation (input) BLOCK_VALID_SCRIPTS :: uint32 where "BLOCK_VALID_SCRIPTS \<equiv> 5"
abbreviation (input) BLOCK_VALID_MASK :: uint32 where "BLOCK_VALID_MASK \<equiv> 7"
abbreviation (input) BLOCK_HAVE_DATA :: uint32 where "BLOCK_HAVE_DATA \<equiv> 8"
abbreviation (input) BLOCK_HAVE_UNDO :: uint32 where "BLOCK_HAVE_UNDO \<equiv> 16"
abbreviation (input) BLOCK_FAILED_VALID :: uint32 where "BLOCK_FAILED_VALID \<equiv> 32"
abbreviation (input) BLOCK_FAILED_CHILD :: uint32 where "BLOCK_FAILED_CHILD \<equiv> 64"
abbreviation (input) BLOCK_FAILED_MASK :: uint32 where "BLOCK_FAILED_MASK \<equiv> 96"

definition index_SetNull :: CBlockIndex where
  "index_SetNull =
     \<lparr> pprev = None, pskip = None, nHeight = 0, nFile = 0, nDataPos = 0, nUndoPos = 0,
       nChainWork = replicate WIDTH 0, nTx = 0, nChainTx = 0, nStatus = 0, hashAnchor = 0, hashAnchorEnd = 0,
       bi_nVersion = 0, bi_hashMerkleRoot = 0, bi_hashReserved = 0, bi_nTime = 0, bi_nBits = 0, bi_nNonce = 0,
       bi_nSolution = [], nSequenceId = 0 \<rparr>"

definition CBlockIndex_of :: "'a CBlockHeader_scheme \<Rightarrow> CBlockIndex" where
  "CBlockIndex_of block = index_SetNull\<lparr>
     bi_nVersion := block_nVersion block, bi_hashMerkleRoot := hashMerkleRoot block,
     bi_hashReserved := hashReserved block, bi_nTime := nTime block, bi_nBits := nBits block,
     bi_nNonce := nNonce block, bi_nSolution := nSolution block \<rparr>"

text \<open>The file position; a null \<^verbatim>\<open>CDiskBlockPos\<close> has file \<^verbatim>\<open>-1\<close> and offset zero.\<close>

definition GetBlockPos :: "CBlockIndex \<Rightarrow> int \<times> uint32" where
  "GetBlockPos b = (if nStatus b AND BLOCK_HAVE_DATA \<noteq> 0 then (nFile b, nDataPos b) else (- 1, 0))"

definition GetUndoPos :: "CBlockIndex \<Rightarrow> int \<times> uint32" where
  "GetUndoPos b = (if nStatus b AND BLOCK_HAVE_UNDO \<noteq> 0 then (nFile b, nUndoPos b) else (- 1, 0))"

definition index_GetBlockHeader :: "CBlockIndex \<Rightarrow> CBlockHeader" where
  "index_GetBlockHeader b =
     \<lparr> block_nVersion = bi_nVersion b, hashPrevBlock = (case pprev b of Some q \<Rightarrow> q | None \<Rightarrow> 0),
       hashMerkleRoot = bi_hashMerkleRoot b, hashReserved = bi_hashReserved b, nTime = bi_nTime b,
       nBits = bi_nBits b, nNonce = bi_nNonce b, nSolution = bi_nSolution b \<rparr>"

definition GetBlockTime :: "CBlockIndex \<Rightarrow> int" where
  "GetBlockTime b = int (unat (bi_nTime b))"

fun median_times :: "block_map \<Rightarrow> nat \<Rightarrow> index_ptr option \<Rightarrow> (unit, int list) outcome" where
  "median_times m (Suc n) (Some p) =
     (case m p of None \<Rightarrow> Abort | Some b \<Rightarrow> rbind (median_times m n (pprev b)) (\<lambda>ts. Ok (GetBlockTime b # ts)))"
| "median_times m _ _ = Ok []"

definition GetMedianTimePast :: "block_map \<Rightarrow> index_ptr \<Rightarrow> (unit, int) outcome" where
  "GetMedianTimePast m p = rbind (median_times m 11 (Some p)) (\<lambda>ts. Ok (sort ts ! (length ts div 2)))"

definition index_IsValid :: "CBlockIndex \<Rightarrow> uint32 \<Rightarrow> (unit, bool) outcome" where
  "index_IsValid b nUpTo =
     (if nUpTo AND NOT BLOCK_VALID_MASK \<noteq> 0 then Abort
      else if nStatus b AND BLOCK_FAILED_MASK \<noteq> 0 then Ok False
      else Ok (nStatus b AND BLOCK_VALID_MASK \<ge> nUpTo))"

definition RaiseValidity :: "CBlockIndex \<Rightarrow> uint32 \<Rightarrow> (unit, CBlockIndex \<times> bool) outcome" where
  "RaiseValidity b nUpTo =
     (if nUpTo AND NOT BLOCK_VALID_MASK \<noteq> 0 then Abort
      else if nStatus b AND BLOCK_FAILED_MASK \<noteq> 0 then Ok (b, False)
      else if nStatus b AND BLOCK_VALID_MASK < nUpTo
      then Ok (b\<lparr> nStatus := (nStatus b AND NOT BLOCK_VALID_MASK) OR nUpTo \<rparr>, True)
      else Ok (b, False))"

section \<open>The skip list\<close>

definition InvertLowestOne :: "int \<Rightarrow> int" where
  "InvertLowestOne n = n AND (n - 1)"

definition GetSkipHeight :: "int \<Rightarrow> int" where
  "GetSkipHeight height =
     (if height < 2 then 0
      else if height AND 1 \<noteq> 0 then InvertLowestOne (InvertLowestOne (height - 1)) + 1
      else InvertLowestOne height)"

lemma InvertLowestOne_bounds: "0 < n \<Longrightarrow> 0 \<le> InvertLowestOne n \<and> InvertLowestOne n < n"
proof -
  assume "0 < n"
  then have "n AND (n - 1) \<le> n - 1" by (intro AND_upper2) simp
  with \<open>0 < n\<close> show ?thesis by (simp add: InvertLowestOne_def)
qed

lemma GetSkipHeight_bounds: "0 < h \<Longrightarrow> 0 \<le> GetSkipHeight h \<and> GetSkipHeight h < h"
proof (cases "h < 2")
  case False
  let ?m = "InvertLowestOne (h - 1)"
  have m: "0 \<le> ?m" "?m < h - 1" using InvertLowestOne_bounds [of "h - 1"] False by simp_all
  have "0 \<le> InvertLowestOne ?m \<and> InvertLowestOne ?m \<le> ?m"
  proof (cases "?m = 0")
    case False
    then show ?thesis using InvertLowestOne_bounds [of ?m] m by simp
  qed (simp add: InvertLowestOne_def)
  with m False show ?thesis using InvertLowestOne_bounds [of h] by (simp add: GetSkipHeight_def)
qed (simp add: GetSkipHeight_def)

text \<open>The loop of \<^verbatim>\<open>GetAncestor\<close>; \<open>height\<close> is not negative there, by the early return.\<close>

function get_ancestor_loop :: "block_map \<Rightarrow> int \<Rightarrow> index_ptr option \<Rightarrow> int \<Rightarrow> (unit, index_ptr option) outcome" where
  "get_ancestor_loop m height pindexWalk heightWalk =
     (if 0 \<le> height \<and> heightWalk > height then
        case pindexWalk of
          None \<Rightarrow> Abort
        | Some p \<Rightarrow>
            (case m p of
               None \<Rightarrow> Abort
             | Some b \<Rightarrow>
                 let heightSkip = GetSkipHeight heightWalk; heightSkipPrev = GetSkipHeight (heightWalk - 1) in
                 if pskip b \<noteq> None \<and>
                    (heightSkip = height \<or>
                     (heightSkip > height \<and> \<not> (heightSkipPrev < heightSkip - 2 \<and> heightSkipPrev \<ge> height)))
                 then get_ancestor_loop m height (pskip b) heightSkip
                 else get_ancestor_loop m height (pprev b) (heightWalk - 1))
      else Ok pindexWalk)"
  by pat_completeness auto
termination
proof (relation "measure (\<lambda>(m, height, walk, heightWalk). nat (heightWalk - height))")
  show "wf (measure (\<lambda>(m :: block_map, height, walk :: index_ptr option, heightWalk). nat (heightWalk - height)))" by simp
qed (use GetSkipHeight_bounds in fastforce)+

declare get_ancestor_loop.simps [simp del]

definition GetAncestor :: "block_map \<Rightarrow> index_ptr \<Rightarrow> int \<Rightarrow> (unit, index_ptr option) outcome" where
  "GetAncestor m this height =
     (case m this of
        None \<Rightarrow> Abort
      | Some b \<Rightarrow> if height > nHeight b \<or> height < 0 then Ok None else get_ancestor_loop m height (Some this) (nHeight b))"

definition BuildSkip :: "block_map \<Rightarrow> index_ptr \<Rightarrow> (unit, block_map) outcome" where
  "BuildSkip m this =
     (case m this of
        None \<Rightarrow> Abort
      | Some b \<Rightarrow>
          (case pprev b of
             None \<Rightarrow> Ok m
           | Some q \<Rightarrow> rbind (GetAncestor m q (GetSkipHeight (nHeight b))) (\<lambda>s. Ok (m(this \<mapsto> b\<lparr> pskip := s \<rparr>)))))"

section \<open>The active chain\<close>

type_synonym CChain = "index_ptr option list"

definition chain_Genesis :: "CChain \<Rightarrow> index_ptr option" where
  "chain_Genesis vChain = (if length vChain > 0 then vChain ! 0 else None)"

definition chain_Tip :: "CChain \<Rightarrow> index_ptr option" where
  "chain_Tip vChain = (if length vChain > 0 then vChain ! (length vChain - 1) else None)"

definition chain_at :: "CChain \<Rightarrow> int \<Rightarrow> index_ptr option" where
  "chain_at vChain h = (if h < 0 \<or> h \<ge> int (length vChain) then None else vChain ! nat h)"

definition chain_Contains :: "block_map \<Rightarrow> CChain \<Rightarrow> index_ptr \<Rightarrow> (unit, bool) outcome" where
  "chain_Contains m vChain p =
     (case m p of None \<Rightarrow> Abort | Some b \<Rightarrow> Ok (chain_at vChain (nHeight b) = Some p))"

definition chain_Next :: "block_map \<Rightarrow> CChain \<Rightarrow> index_ptr \<Rightarrow> (unit, index_ptr option) outcome" where
  "chain_Next m vChain p =
     (case m p of
        None \<Rightarrow> Abort
      | Some b \<Rightarrow> Ok (if chain_at vChain (nHeight b) = Some p then chain_at vChain (nHeight b + 1) else None))"

definition chain_Height :: "CChain \<Rightarrow> int" where
  "chain_Height vChain = int (length vChain) - 1"

text \<open>The loops that follow parent pointers take \<open>fuel\<close>; running out of it is \<open>Abort\<close>.\<close>

fun set_tip_loop :: "nat \<Rightarrow> block_map \<Rightarrow> CChain \<Rightarrow> index_ptr option \<Rightarrow> (unit, CChain) outcome" where
  "set_tip_loop fuel m vChain None = Ok vChain"
| "set_tip_loop 0 m vChain (Some p) = Abort"
| "set_tip_loop (Suc fuel) m vChain (Some p) =
     (case m p of
        None \<Rightarrow> Abort
      | Some b \<Rightarrow>
          if nHeight b < 0 \<or> nHeight b \<ge> int (length vChain) then Abort
          else if vChain ! nat (nHeight b) = Some p then Ok vChain
          else set_tip_loop fuel m (vChain[nat (nHeight b) := Some p]) (pprev b))"

definition resize :: "nat \<Rightarrow> 'a option list \<Rightarrow> 'a option list" where
  "resize n xs = take n xs @ replicate (n - length xs) None"

definition SetTip :: "block_map \<Rightarrow> CChain \<Rightarrow> index_ptr option \<Rightarrow> (unit, CChain) outcome" where
  "SetTip m vChain pindex =
     (case pindex of
        None \<Rightarrow> Ok []
      | Some p \<Rightarrow>
          (case m p of
             None \<Rightarrow> Abort
           | Some b \<Rightarrow>
               let n = nat (nHeight b + 1) in set_tip_loop (Suc n) m (resize n vChain) (Some p)))"

fun get_locator_loop ::
  "nat \<Rightarrow> block_map \<Rightarrow> CChain \<Rightarrow> int \<Rightarrow> index_ptr list \<Rightarrow> index_ptr option \<Rightarrow> (unit, index_ptr list) outcome" where
  "get_locator_loop fuel m vChain nStep vHave None = Ok vHave"
| "get_locator_loop 0 m vChain nStep vHave (Some p) = Abort"
| "get_locator_loop (Suc fuel) m vChain nStep vHave (Some p) =
     (case m p of
        None \<Rightarrow> Abort
      | Some b \<Rightarrow>
          let vHave' = vHave @ [p] in
          if nHeight b = 0 then Ok vHave'
          else
            let height = max (nHeight b - nStep) 0 in
            rbind (if chain_at vChain (nHeight b) = Some p then Ok (chain_at vChain height) else GetAncestor m p height)
              (\<lambda>next. get_locator_loop fuel m vChain (if length vHave' > 10 then nStep * 2 else nStep) vHave' next))"

definition GetLocator :: "block_map \<Rightarrow> CChain \<Rightarrow> index_ptr option \<Rightarrow> (unit, index_ptr list) outcome" where
  "GetLocator m vChain pindex =
     (let pindex' = (if pindex = None then chain_Tip vChain else pindex);
          fuel = (case pindex' of None \<Rightarrow> 0 | Some p \<Rightarrow> (case m p of None \<Rightarrow> 1 | Some b \<Rightarrow> Suc (nat (nHeight b))))
      in get_locator_loop fuel m vChain 1 [] pindex')"

fun find_fork_loop :: "nat \<Rightarrow> block_map \<Rightarrow> CChain \<Rightarrow> index_ptr option \<Rightarrow> (unit, index_ptr option) outcome" where
  "find_fork_loop fuel m vChain None = Ok None"
| "find_fork_loop 0 m vChain (Some p) = Abort"
| "find_fork_loop (Suc fuel) m vChain (Some p) =
     (case m p of
        None \<Rightarrow> Abort
      | Some b \<Rightarrow>
          if chain_at vChain (nHeight b) = Some p then Ok (Some p) else find_fork_loop fuel m vChain (pprev b))"

definition FindFork :: "block_map \<Rightarrow> CChain \<Rightarrow> index_ptr \<Rightarrow> (unit, index_ptr option) outcome" where
  "FindFork m vChain pindex =
     (case m pindex of
        None \<Rightarrow> Abort
      | Some b \<Rightarrow>
          rbind (if nHeight b > chain_Height vChain then GetAncestor m pindex (chain_Height vChain) else Ok (Some pindex))
            (\<lambda>start. find_fork_loop (Suc (nat (nHeight b))) m vChain start))"

section \<open>Well-formed block trees\<close>

text \<open>Follow \<open>n\<close> parent pointers.\<close>

fun walk :: "block_map \<Rightarrow> nat \<Rightarrow> index_ptr \<Rightarrow> index_ptr option" where
  "walk m 0 p = Some p"
| "walk m (Suc n) p = Option.bind (m p) (\<lambda>b. Option.bind (pprev b) (walk m n))"

definition parent_ok :: "block_map \<Rightarrow> CBlockIndex \<Rightarrow> bool" where
  "parent_ok m b \<longleftrightarrow>
     (case pprev b of None \<Rightarrow> nHeight b = 0
      | Some q \<Rightarrow> (case m q of None \<Rightarrow> False | Some c \<Rightarrow> nHeight b = nHeight c + 1))"

definition skip_ok :: "block_map \<Rightarrow> index_ptr \<Rightarrow> CBlockIndex \<Rightarrow> bool" where
  "skip_ok m p b \<longleftrightarrow>
     pskip b = None \<or> (0 < nHeight b \<and> walk m (nat (nHeight b - GetSkipHeight (nHeight b))) p = pskip b)"

definition block_tree :: "block_map \<Rightarrow> bool" where
  "block_tree m \<longleftrightarrow> (\<forall>p b. m p = Some b \<longrightarrow> 0 \<le> nHeight b \<and> parent_ok m b \<and> skip_ok m p b)"

lemma block_treeD: "block_tree m \<Longrightarrow> m p = Some b \<Longrightarrow> 0 \<le> nHeight b \<and> parent_ok m b \<and> skip_ok m p b"
  by (simp add: block_tree_def)

lemma parent_cases:
  assumes "block_tree m" "m p = Some b"
  obtains "pprev b = None" "nHeight b = 0"
    | q c where "pprev b = Some q" "m q = Some c" "nHeight b = nHeight c + 1"
  using block_treeD [OF assms] by (auto simp: parent_ok_def split: option.splits)

lemma walk_add: "walk m (i + j) p = Option.bind (walk m i p) (walk m j)"
  by (induction i arbitrary: p) (auto split: bind_split)

lemma walk_exists:
  assumes t: "block_tree m"
  shows "m p = Some b \<Longrightarrow> int n \<le> nHeight b \<Longrightarrow> \<exists>q c. walk m n p = Some q \<and> m q = Some c \<and> nHeight c = nHeight b - int n"
proof (induction n arbitrary: p b)
  case (Suc n)
  from t Suc.prems(1) show ?case
  proof (cases rule: parent_cases)
    case (2 q c)
    then obtain r d where "walk m n q = Some r" "m r = Some d" "nHeight d = nHeight c - int n"
      using Suc.IH [of q c] Suc.prems(2) by auto
    with 2 Suc.prems(1) show ?thesis by auto
  qed (use Suc.prems in simp)
qed simp

lemma walk_height:
  assumes t: "block_tree m"
  shows "m p = Some b \<Longrightarrow> walk m n p = Some q \<Longrightarrow> \<exists>c. m q = Some c \<and> nHeight c = nHeight b - int n"
proof (induction n arbitrary: p b)
  case (Suc n)
  from t Suc.prems(1) show ?case
  proof (cases rule: parent_cases)
    case (2 r c)
    then show ?thesis using Suc.IH [of r c] Suc.prems by auto
  qed (use Suc.prems in simp)
qed simp

lemma get_ancestor_loop_walk:
  assumes t: "block_tree m" and h: "0 \<le> height"
  shows "m p = Some b \<Longrightarrow> height \<le> nHeight b \<Longrightarrow>
    get_ancestor_loop m height (Some p) (nHeight b) = Ok (walk m (nat (nHeight b - height)) p)"
proof (induction "nat (nHeight b - height)" arbitrary: p b rule: less_induct)
  case less
  let ?hw = "nHeight b"
  show ?case
  proof (cases "height < ?hw")
    case False
    with less.prems have "height = ?hw" by simp
    then show ?thesis by (subst get_ancestor_loop.simps) simp
  next
    case True
    let ?hs = "GetSkipHeight ?hw" and ?hp = "GetSkipHeight (?hw - 1)"
    let ?skip = "pskip b \<noteq> None \<and> (?hs = height \<or> (?hs > height \<and> \<not> (?hp < ?hs - 2 \<and> ?hp \<ge> height)))"
    have step: "get_ancestor_loop m height (Some p) ?hw =
        (if ?skip then get_ancestor_loop m height (pskip b) ?hs else get_ancestor_loop m height (pprev b) (?hw - 1))"
      using True h less.prems(1) by (subst get_ancestor_loop.simps) (simp add: Let_def)
    have hs: "?hs < ?hw" using GetSkipHeight_bounds [of ?hw] True h by simp
    show ?thesis
    proof (cases ?skip)
      case sk: True
      then obtain s where s: "pskip b = Some s" by blast
      then have w: "walk m (nat (?hw - ?hs)) p = Some s" using block_treeD [OF t less.prems(1)] by (auto simp: skip_ok_def)
      obtain c where c: "m s = Some c" "nHeight c = ?hs" using walk_height [OF t less.prems(1) w] hs by auto
      have "get_ancestor_loop m height (Some s) (nHeight c) = Ok (walk m (nat (nHeight c - height)) s)"
        using sk c hs by (intro less.hyps) auto
      moreover have "nat (?hw - height) = nat (?hw - ?hs) + nat (?hs - height)" using hs sk by auto
      ultimately show ?thesis using step sk s w c by (simp add: walk_add)
    next
      case False
      from t less.prems(1) show ?thesis
      proof (cases rule: parent_cases)
        case (2 q c)
        have "get_ancestor_loop m height (Some q) (nHeight c) = Ok (walk m (nat (nHeight c - height)) q)"
          using 2 True by (intro less.hyps) auto
        moreover have "nat (?hw - height) = Suc (nat (nHeight c - height))" using 2 True by auto
        moreover have "get_ancestor_loop m height (Some p) ?hw = get_ancestor_loop m height (pprev b) (?hw - 1)"
          unfolding step if_not_P [OF False] ..
        ultimately show ?thesis using 2 less.prems(1) by simp
      qed (use True h in simp)
    qed
  qed
qed

lemma GetAncestor_walk:
  assumes "block_tree m" "m p = Some b"
  shows "GetAncestor m p height = Ok (if height < 0 \<or> nHeight b < height then None else walk m (nat (nHeight b - height)) p)"
  using get_ancestor_loop_walk [OF assms(1) _ assms(2), of height] assms(2) by (simp add: GetAncestor_def)

lemma walk_cong:
  assumes "\<And>q. map_option pprev (m' q) = map_option pprev (m q)"
  shows "walk m' n p = walk m n p"
proof (induction n arbitrary: p)
  case (Suc n)
  from assms [of p] Suc show ?case by (cases "m p"; cases "m' p") (auto split: bind_split)
qed simp

lemma BuildSkip_tree:
  assumes t: "block_tree m" and p: "m p = Some b" "pskip b = None"
  shows "\<exists>s. BuildSkip m p = Ok (m(p \<mapsto> b\<lparr> pskip := s \<rparr>)) \<and> block_tree (m(p \<mapsto> b\<lparr> pskip := s \<rparr>)) \<and> (0 < nHeight b \<longrightarrow> s \<noteq> None)"
  using t p(1)
proof (cases rule: parent_cases)
  case 1
  with p have "BuildSkip m p = Ok (m(p \<mapsto> b\<lparr> pskip := None \<rparr>)) \<and> m(p \<mapsto> b\<lparr> pskip := None \<rparr>) = m"
    by (simp add: BuildSkip_def map_upd_triv)
  with t 1 show ?thesis by (metis less_irrefl)
next
  case (2 q c)
  have pos: "0 < nHeight b" using 2 block_treeD [OF t 2(2)] by simp
  let ?hs = "GetSkipHeight (nHeight b)"
  have hs: "0 \<le> ?hs" "?hs \<le> nHeight c" using GetSkipHeight_bounds [OF pos] 2(3) by simp_all
  define s where "s = walk m (nat (nHeight c - ?hs)) q"
  have "nat (nHeight b - ?hs) = Suc (nat (nHeight c - ?hs))" using hs 2(3) by simp
  then have w: "walk m (nat (nHeight b - ?hs)) p = s" using p 2(1) by (simp add: s_def)
  have "s \<noteq> None" using walk_exists [OF t 2(2), of "nat (nHeight c - ?hs)"] hs by (auto simp: s_def)
  have "GetAncestor m q ?hs = Ok s" using GetAncestor_walk [OF t 2(2), of ?hs] hs by (simp add: s_def)
  then have "BuildSkip m p = Ok (m(p \<mapsto> b\<lparr> pskip := s \<rparr>))" using p 2(1) by (simp add: BuildSkip_def)
  moreover have "block_tree (m(p \<mapsto> b\<lparr> pskip := s \<rparr>))" (is "block_tree ?m")
  proof -
    have wk: "walk ?m n r = walk m n r" for n r by (rule walk_cong) (use p in auto)
    have par: "parent_ok ?m x \<longleftrightarrow> parent_ok m x" for x by (auto simp: parent_ok_def p split: option.splits)
    have "parent_ok m (b\<lparr> pskip := s \<rparr>)" "0 \<le> nHeight b" using block_treeD [OF t p(1)] by (simp_all add: parent_ok_def cong: option.case_cong)
    then show ?thesis unfolding block_tree_def
      using block_treeD [OF t] pos w by (auto simp: wk par skip_ok_def)
  qed
  ultimately show ?thesis using \<open>s \<noteq> None\<close> by blast
qed

section \<open>The active chain holds the ancestors of its tip\<close>

text \<open>Up to index \<open>n\<close>, an entry of the vector has its height and is preceded by its parent.\<close>

definition linked :: "block_map \<Rightarrow> CChain \<Rightarrow> nat \<Rightarrow> bool" where
  "linked m v n \<longleftrightarrow>
     (\<forall>i < n. \<forall>p. v ! i = Some p \<longrightarrow> (\<exists>b. m p = Some b \<and> nHeight b = int i \<and> (0 < i \<longrightarrow> v ! (i - 1) = pprev b)))"

definition chain_ok :: "block_map \<Rightarrow> CChain \<Rightarrow> bool" where
  "chain_ok m v \<longleftrightarrow> linked m v (length v) \<and> (\<forall>i < length v. v ! i \<noteq> None)"

lemma linkedD: "linked m v n \<Longrightarrow> i < n \<Longrightarrow> v ! i = Some p \<Longrightarrow> \<exists>b. m p = Some b \<and> nHeight b = int i \<and> (0 < i \<longrightarrow> v ! (i - 1) = pprev b)"
  by (simp add: linked_def)

lemma linked_walk:
  assumes "block_tree m" "linked m v n"
  shows "i < n \<Longrightarrow> v ! i = Some p \<Longrightarrow> j \<le> i \<Longrightarrow> v ! j = walk m (i - j) p"
proof (induction i arbitrary: p)
  case (Suc i)
  obtain b where b: "m p = Some b" "nHeight b = int (Suc i)" "v ! i = pprev b" using linkedD [OF assms(2) Suc.prems(1,2)] by auto
  then obtain q where q: "pprev b = Some q" using parent_cases [OF assms(1) b(1)] by auto
  show ?case
  proof (cases "j = Suc i")
    case False
    then have "v ! j = walk m (i - j) q" using Suc b(3) q by auto
    moreover have "Suc i - j = Suc (i - j)" using False Suc.prems(3) by simp
    ultimately show ?thesis using b q by simp
  qed (use Suc.prems in simp)
qed simp

lemma set_tip_loop_correct:
  assumes t: "block_tree m"
  shows "m q = Some c \<Longrightarrow> nHeight c = int h \<Longrightarrow> h < length v \<Longrightarrow> linked m v (Suc h) \<Longrightarrow> h < fuel \<Longrightarrow>
    \<exists>v'. set_tip_loop fuel m v (Some q) = Ok v' \<and> length v' = length v \<and>
      (\<forall>i < length v. v' ! i = (if i \<le> h then walk m (h - i) q else v ! i))"
proof (induction h arbitrary: q c v fuel)
  case 0
  then obtain f where "fuel = Suc f" using not0_implies_Suc by blast
  moreover have "pprev c = None"
    using t 0(1) by (cases rule: parent_cases) (use 0(2) block_treeD [OF t] in force)+
  ultimately show ?case using 0 by (auto simp: nth_list_update)
next
  case (Suc h)
  obtain f where f: "fuel = Suc f" "h < f" using Suc.prems(5) by (cases fuel) auto
  show ?case
  proof (cases "v ! Suc h = Some q")
    case True
    then have "set_tip_loop fuel m v (Some q) = Ok v" using Suc.prems f by (simp del: of_nat_Suc)
    moreover have "v ! i = walk m (Suc h - i) q" if "i \<le> Suc h" for i
      using linked_walk [OF t Suc.prems(4) _ True that] by simp
    ultimately show ?thesis by auto
  next
    case False
    obtain r d where r: "pprev c = Some r" "m r = Some d" "nHeight d = int h"
      using t Suc.prems(1) by (cases rule: parent_cases) (use Suc.prems(2) in auto)
    let ?v = "v[Suc h := Some q]"
    have "linked m ?v (Suc h)" using Suc.prems(4) by (auto simp: linked_def nth_list_update)
    then obtain v' where v': "set_tip_loop f m ?v (Some r) = Ok v'" "length v' = length v"
        "\<forall>i < length v. v' ! i = (if i \<le> h then walk m (h - i) r else ?v ! i)"
      using Suc.IH [OF r(2,3), of ?v f] Suc.prems(3) f(2) by auto
    have "set_tip_loop fuel m v (Some q) = Ok v'" using Suc.prems f(1) False r(1) v'(1) by (simp del: of_nat_Suc)
    moreover have "v' ! i = (if i \<le> Suc h then walk m (Suc h - i) q else v ! i)" if "i < length v" for i
      using v'(3) that Suc.prems(1) r(1) by (auto simp: Suc_diff_le le_Suc_eq nth_list_update)
    ultimately show ?thesis using v'(2) by auto
  qed
qed

lemma linked_resize: "linked m v (length v) \<Longrightarrow> linked m (resize n v) n"
  unfolding linked_def resize_def by (auto simp: nth_append split: if_splits)

lemma SetTip_correct:
  assumes t: "block_tree m" and p: "m p = Some b" and v: "linked m v (length v)"
  shows "\<exists>v'. SetTip m v (Some p) = Ok v' \<and> length v' = nat (nHeight b + 1) \<and>
    (\<forall>i < length v'. v' ! i = walk m (nat (nHeight b) - i) p)"
proof -
  have h: "0 \<le> nHeight b" using block_treeD [OF t p] by simp
  let ?h = "nat (nHeight b)" let ?n = "nat (nHeight b + 1)"
  have n: "?n = Suc ?h" using h by simp
  have "length (resize ?n v) = ?n" by (simp add: resize_def)
  then obtain v' where "set_tip_loop (Suc ?n) m (resize ?n v) (Some p) = Ok v'" "length v' = ?n"
      "\<forall>i < ?n. v' ! i = (if i \<le> ?h then walk m (?h - i) p else resize ?n v ! i)"
    using set_tip_loop_correct [OF t p, of ?h "resize ?n v" "Suc ?n"] linked_resize [OF v, of ?n] h n by auto
  then show ?thesis using p n by (auto simp: SetTip_def Let_def)
qed

lemma walk_chain_ok:
  assumes t: "block_tree m" and p: "m p = Some b"
    and l: "length v = nat (nHeight b + 1)" "\<forall>i < length v. v ! i = walk m (nat (nHeight b) - i) p"
  shows "chain_ok m v \<and> chain_Tip v = Some p"
proof -
  have h: "0 \<le> nHeight b" using block_treeD [OF t p] by simp
  have at: "\<exists>q c. v ! i = Some q \<and> m q = Some c \<and> nHeight c = int i" if "i < length v" for i
  proof -
    have "int (nat (nHeight b) - i) \<le> nHeight b" "nHeight b - int (nat (nHeight b) - i) = int i" using that l(1) h by auto
    then show ?thesis using walk_exists [OF t p, of "nat (nHeight b) - i"] l(2) that by auto
  qed
  have "v ! (i - 1) = pprev c" if i: "i < length v" "0 < i" and c: "v ! i = Some q" "m q = Some c" for i q c
  proof -
    have "nat (nHeight b) - (i - 1) = (nat (nHeight b) - i) + 1" using i l(1) h by auto
    then have "v ! (i - 1) = walk m ((nat (nHeight b) - i) + 1) p" using i l(2) by (simp only:)
    also have "\<dots> = Option.bind (walk m (nat (nHeight b) - i) p) (walk m 1)" by (rule walk_add)
    also have "\<dots> = walk m 1 q" using c(1) l(2) i by auto
    finally show ?thesis using c(2) by (cases "pprev c") auto
  qed
  with at have "chain_ok m v" unfolding chain_ok_def linked_def by fastforce
  moreover have "chain_Tip v = Some p" using l h by (simp add: chain_Tip_def)
  ultimately show ?thesis by blast
qed

section \<open>The last common block\<close>

definition in_chain :: "block_map \<Rightarrow> CChain \<Rightarrow> index_ptr \<Rightarrow> bool" where
  "in_chain m v p \<longleftrightarrow> chain_Contains m v p = Ok True"

text \<open>\<open>r\<close> is the first of the blocks reached from \<open>p\<close> over parent pointers that is in the chain.\<close>

definition first_in_chain :: "block_map \<Rightarrow> CChain \<Rightarrow> index_ptr \<Rightarrow> index_ptr option \<Rightarrow> bool" where
  "first_in_chain m v p r \<longleftrightarrow>
     (case r of
        None \<Rightarrow> \<forall>k g. walk m k p = Some g \<longrightarrow> \<not> in_chain m v g
      | Some f \<Rightarrow> \<exists>n. walk m n p = Some f \<and> in_chain m v f \<and> (\<forall>k < n. \<forall>g. walk m k p = Some g \<longrightarrow> \<not> in_chain m v g))"

lemma first_in_chain_self: "in_chain m v p \<Longrightarrow> first_in_chain m v p (Some p)"
  unfolding first_in_chain_def by (auto intro!: exI [of _ 0])

lemma first_in_chain_step:
  assumes "\<And>k g. k < n \<Longrightarrow> walk m k p = Some g \<Longrightarrow> \<not> in_chain m v g" and w: "walk m n p = Some q"
    and r: "first_in_chain m v q r"
  shows "first_in_chain m v p r"
proof (cases r)
  case None
  have "\<not> in_chain m v g" if "walk m k p = Some g" for k g
  proof (cases "k < n")
    case False
    then have "walk m (k - n) q = Some g" using that walk_add [of m n "k - n" p] w by simp
    then show ?thesis using r None by (simp add: first_in_chain_def)
  qed (use assms(1) that in blast)
  then show ?thesis using None by (simp add: first_in_chain_def)
next
  case (Some f)
  then obtain j where j: "walk m j q = Some f" "in_chain m v f" "\<forall>k < j. \<forall>g. walk m k q = Some g \<longrightarrow> \<not> in_chain m v g"
    using r by (auto simp: first_in_chain_def)
  have "\<not> in_chain m v g" if "k < n + j" "walk m k p = Some g" for k g
  proof (cases "k < n")
    case False
    then have "walk m (k - n) q = Some g" "k - n < j" using that walk_add [of m n "k - n" p] w by auto
    then show ?thesis using j(3) by blast
  qed (use assms(1) that in blast)
  moreover have "walk m (n + j) p = Some f" using w j(1) by (simp add: walk_add)
  ultimately show ?thesis using Some j(2) unfolding first_in_chain_def by auto
qed

lemma find_fork_loop_correct:
  assumes t: "block_tree m"
  shows "m q = Some c \<Longrightarrow> nHeight c < int fuel \<Longrightarrow> \<exists>r. find_fork_loop fuel m v (Some q) = Ok r \<and> first_in_chain m v q r"
proof (induction fuel arbitrary: q c)
  case 0
  then show ?case using block_treeD [OF t] by fastforce
next
  case (Suc fuel)
  have ic: "in_chain m v q \<longleftrightarrow> chain_at v (nHeight c) = Some q" using Suc.prems(1) by (simp add: in_chain_def chain_Contains_def)
  show ?case
  proof (cases "in_chain m v q")
    case True
    then show ?thesis using ic Suc.prems(1) first_in_chain_self by simp
  next
    case False
    from t Suc.prems(1) show ?thesis
    proof (cases rule: parent_cases)
      case 1
      have "walk m k q = Some g \<Longrightarrow> g = q" for k g using 1 Suc.prems(1) by (cases k) auto
      then have "first_in_chain m v q None" using False by (auto simp: first_in_chain_def)
      then show ?thesis using 1 False ic Suc.prems(1) by simp
    next
      case (2 r d)
      then obtain x where x: "find_fork_loop fuel m v (Some r) = Ok x" "first_in_chain m v r x"
        using Suc.IH [of r d] Suc.prems(2) by auto
      have "first_in_chain m v q x"
        by (rule first_in_chain_step [where n = 1 and q = r]) (use False 2 Suc.prems(1) x in auto)
      then show ?thesis using x 2 False ic Suc.prems(1) by auto
    qed
  qed
qed

lemma above_not_in_chain: "m g = Some c \<Longrightarrow> chain_Height v < nHeight c \<Longrightarrow> \<not> in_chain m v g"
  by (simp add: in_chain_def chain_Contains_def chain_at_def chain_Height_def)

lemma FindFork_correct:
  assumes t: "block_tree m" and p: "m p = Some b"
  shows "\<exists>r. FindFork m v p = Ok r \<and> first_in_chain m v p r"
proof (cases "chain_Height v < nHeight b")
  case False
  then show ?thesis using find_fork_loop_correct [OF t p, of "Suc (nat (nHeight b))" v] p by (simp add: FindFork_def)
next
  case True
  have H: "- 1 \<le> chain_Height v" by (simp add: chain_Height_def)
  show ?thesis
  proof (cases "chain_Height v < 0")
    case neg: True
    have "\<not> in_chain m v g" for g
      using neg by (auto simp: in_chain_def chain_Contains_def chain_at_def chain_Height_def split: option.splits if_splits)
    then have "first_in_chain m v p None" by (simp add: first_in_chain_def)
    moreover have "GetAncestor m p (chain_Height v) = Ok None" using GetAncestor_walk [OF t p] neg by simp
    ultimately show ?thesis using True p by (simp add: FindFork_def)
  next
    case False
    let ?n = "nat (nHeight b - chain_Height v)"
    obtain q c where q: "walk m ?n p = Some q" "m q = Some c" "nHeight c = chain_Height v"
      using walk_exists [OF t p, of ?n] True False by auto
    have "GetAncestor m p (chain_Height v) = Ok (Some q)" using GetAncestor_walk [OF t p] True False q(1) by simp
    moreover have "nHeight c < int (Suc (nat (nHeight b)))" using q(3) True False by simp
    then obtain r where r: "find_fork_loop (Suc (nat (nHeight b))) m v (Some q) = Ok r" "first_in_chain m v q r"
      using find_fork_loop_correct [OF t q(2)] by blast
    moreover have "first_in_chain m v p r"
    proof (rule first_in_chain_step [OF _ q(1) r(2)])
      fix k g assume k: "k < ?n" "walk m k p = Some g"
      then obtain d where "m g = Some d" "nHeight d = nHeight b - int k" using walk_height [OF t p] by blast
      then show "\<not> in_chain m v g" using above_not_in_chain [of m g d v] k(1) by auto
    qed
    ultimately show ?thesis using True p r(1) by (simp add: FindFork_def del: find_fork_loop.simps)
  qed
qed

section \<open>Properties\<close>

text \<open>
  C26: \<^verbatim>\<open>GetAncestor\<close> ends and, in a well-formed block tree, returns the block that is reached over parent pointers, for
  every height from zero to that of the block, and null for any other height: the skip list changes the cost and not
  the result.
\<close>

theorem GetAncestor_correct:
  assumes "block_tree m" and "m p = Some b"
  shows "GetAncestor m p height = Ok (if height < 0 \<or> nHeight b < height then None else walk m (nat (nHeight b - height)) p)"
  using assms by (rule GetAncestor_walk)

text \<open>A tree of five blocks, one after the other, with the skip pointers that \<^verbatim>\<open>BuildSkip\<close> gives them.\<close>

definition sample_tree :: block_map where
  "sample_tree = [0 \<mapsto> index_SetNull,
     1 \<mapsto> index_SetNull\<lparr> pprev := Some 0, pskip := Some 0, nHeight := 1 \<rparr>,
     2 \<mapsto> index_SetNull\<lparr> pprev := Some 1, pskip := Some 0, nHeight := 2 \<rparr>,
     3 \<mapsto> index_SetNull\<lparr> pprev := Some 2, pskip := Some 1, nHeight := 3 \<rparr>,
     4 \<mapsto> index_SetNull\<lparr> pprev := Some 3, pskip := Some 0, nHeight := 4 \<rparr>]"

lemma walk_numeral:
  "walk m 2 p = Option.bind (walk m 1 p) (walk m 1)" "walk m 3 p = Option.bind (walk m 1 p) (walk m 2)"
  "walk m 4 p = Option.bind (walk m 1 p) (walk m 3)"
  using walk_add [of m 1 1 p] walk_add [of m 1 2 p] walk_add [of m 1 3 p]
  by (simp_all only: one_add_one one_plus_numeral add_num_simps)

lemma sample_tree_ok: "block_tree sample_tree"
proof -
  have s: "GetSkipHeight 1 = 0" "GetSkipHeight 2 = 0" "GetSkipHeight 3 = 1" "GetSkipHeight 4 = 0"
    by code_simp+
  show ?thesis
    by (auto simp: block_tree_def sample_tree_def parent_ok_def skip_ok_def s index_SetNull_def walk_numeral split: if_splits)
qed

theorem GetAncestor_correct_witness: "GetAncestor sample_tree 4 1 = Ok (Some 1)"
  using GetAncestor_correct [OF sample_tree_ok, of 4 _ 1] by (simp add: sample_tree_def index_SetNull_def walk_numeral)

text \<open>
  C27: Making a block the tip of the active chain always succeeds on a well-formed tree, whatever consistent chain was active
  before: afterwards the chain holds, at every height up to that of the tip, the ancestor of the tip at that height,
  and is again consistent.
\<close>

theorem SetTip_ancestors:
  assumes "block_tree m" and "m p = Some b" and "chain_ok m v"
  shows "\<exists>v'. SetTip m v (Some p) = Ok v' \<and> chain_ok m v' \<and> chain_Tip v' = Some p \<and> chain_Height v' = nHeight b \<and>
    (\<forall>h. chain_at v' h = (if h < 0 \<or> nHeight b < h then None else walk m (nat (nHeight b - h)) p))"
proof -
  have h: "0 \<le> nHeight b" using block_treeD [OF assms(1,2)] by simp
  obtain v' where v': "SetTip m v (Some p) = Ok v'" "length v' = nat (nHeight b + 1)"
      "\<forall>i < length v'. v' ! i = walk m (nat (nHeight b) - i) p"
    using SetTip_correct [OF assms(1,2)] assms(3) unfolding chain_ok_def by blast
  have "chain_at v' x = (if x < 0 \<or> nHeight b < x then None else walk m (nat (nHeight b - x)) p)" for x
    using v'(2,3) h by (auto simp: chain_at_def nat_diff_distrib)
  moreover have "chain_Height v' = nHeight b" using v'(2) h by (simp add: chain_Height_def)
  ultimately show ?thesis using v'(1) walk_chain_ok [OF assms(1,2) v'(2,3)] by blast
qed

theorem SetTip_ancestors_witness:
  "\<exists>v'. SetTip sample_tree [Some 0, Some 1] (Some 4) = Ok v' \<and> chain_at v' 3 = Some 3 \<and> chain_Tip v' = Some 4"
proof -
  have ok: "chain_ok sample_tree [Some 0, Some 1]"
    by (auto simp: chain_ok_def linked_def sample_tree_def index_SetNull_def less_Suc_eq nth_Cons')
  have four: "sample_tree 4 = Some (index_SetNull\<lparr> pprev := Some 3, pskip := Some 0, nHeight := 4 \<rparr>)"
    by (simp add: sample_tree_def)
  show ?thesis
    using SetTip_ancestors [OF sample_tree_ok four ok] by (auto simp: sample_tree_def)
qed

text \<open>
  C28: \<^verbatim>\<open>FindFork\<close> always returns, and what it returns is the last common block: the first block on the way from the given
  block over its ancestors that is in the active chain, or null if there is none.
\<close>

theorem FindFork_last_common:
  assumes "block_tree m" and "m p = Some b"
  shows "\<exists>r. FindFork m v p = Ok r \<and> first_in_chain m v p r"
  using assms by (rule FindFork_correct)

theorem FindFork_last_common_witness:
  "\<exists>r. FindFork sample_tree [Some 0, Some 1, Some 7] 4 = Ok r \<and> first_in_chain sample_tree [Some 0, Some 1, Some 7] 4 r"
  by (rule FindFork_last_common [OF sample_tree_ok]) (simp add: sample_tree_def)

end
