(* ===== verification/Compact_Targets.thy ===== *)
theory Compact_Targets
  imports ArithUint256
begin

unbundle bit_operations_syntax

text \<open>
  The compact form of a 256-bit number (\<^verbatim>\<open>SetCompact\<close> and \<^verbatim>\<open>GetCompact\<close> of \<^verbatim>\<open>src/src/arith_uint256.cpp\<close>) and
  the conversions to byte blobs: what a compact word stands for, the round trip and its precision, and the
  properties of the 256-bit integers.
\<close>

section \<open>Words and numbers\<close>

lemma unat_push_bit_exact:
  "unat (w :: 'a :: len word) * 2 ^ n < 2 ^ LENGTH('a) \<Longrightarrow> unat (push_bit n w) = unat w * 2 ^ n"
  unfolding unsigned_push_bit_eq by (simp add: push_bit_eq_mult take_bit_nat_eq_self)

lemma unat_or_push_bit:
  fixes x y :: "'a :: len word"
  assumes "unat x < 2 ^ n" "unat y * 2 ^ n < 2 ^ LENGTH('a)"
  shows "unat (x OR push_bit n y) = unat x + 2 ^ n * unat y"
  using or_push_bit_nat [OF assms(1), of "unat y"] unat_push_bit_exact [OF assms(2)]
  unfolding unsigned_or_eq by (simp add: push_bit_eq_mult)

lemma base_uint_of_val: "limbs_val (base_uint_of b) = unat b"
proof -
  have "unat b = unat b mod BASE + BASE * (unat b div BASE)" by simp
  moreover have "unat b div BASE < BASE" using unsigned_less [of b, where 'a = nat] by (simp add: less_mult_imp_div_less)
  moreover have "unat (drop_bit 32 b) = unat b div BASE" by (simp only: unat_drop_bit_eq) (simp add: drop_bit_eq_div)
  ultimately show ?thesis
    by (simp add: base_uint_of_def limbs_val_replicate_0 unsigned_ucast_eq take_bit_eq_mod)
qed

lemma base_uint_of_val32: "limbs_val (base_uint_of (ucast (w :: uint32))) = unat w"
  by (simp add: base_uint_of_val unat_ucast_limb)

lemma length_base_uint_of [simp]: "length (base_uint_of b) = WIDTH"
  by (simp add: base_uint_of_def)

lemma GetLow64_val:
  assumes "2 \<le> length a"
  shows "unat (GetLow64 a) = limbs_val a mod 2 ^ 64"
proof -
  obtain x y a' where a: "a = x # y # a'" using assms by (metis One_nat_def Suc_1 Suc_le_length_iff)
  have xy: "unat x < BASE" "unat y < BASE" by (rule unat_limb_less)+
  have "unat (ucast x OR push_bit 32 (ucast y) :: uint64) = unat x + 2 ^ 32 * unat y"
    using xy by (subst unat_or_push_bit) (simp_all add: unat_ucast_limb)
  then have "unat (GetLow64 a) = unat x + 2 ^ 32 * unat y" by (simp add: GetLow64_def a)
  also have "\<dots> = (unat x + 2 ^ 32 * unat y + 2 ^ 64 * limbs_val a') mod 2 ^ 64" using xy by simp
  also have "unat x + 2 ^ 32 * unat y + 2 ^ 64 * limbs_val a' = limbs_val a" by (simp add: a)
  finally show ?thesis .
qed

section \<open>Compact form\<close>

text \<open>The number a compact word encodes, without the limit of 256 bits.\<close>

definition compact_exact :: "uint32 \<Rightarrow> nat" where
  "compact_exact nCompact =
     (let nSize = unat nCompact div 2 ^ 24; nWord = unat nCompact mod 2 ^ 23 in
      if nSize \<le> 3 then nWord div 256 ^ (3 - nSize) else nWord * 256 ^ (nSize - 3))"

lemma compact_mask: "unat (c AND 0x007fffff :: uint32) = unat c mod 2 ^ 23"
proof -
  have "(0x007fffff :: uint32) = mask 23" by (simp add: mask_eq_exp_minus_1)
  then have "c AND 0x007fffff = take_bit 23 c" by (simp only: take_bit_eq_mask)
  then show ?thesis by (simp only: unsigned_take_bit_eq) (simp add: take_bit_eq_mod)
qed

lemma compact_size: "unat (drop_bit n c) = unat c div 2 ^ n" for c :: uint32
  by (simp only: unat_drop_bit_eq) (simp only: drop_bit_eq_div)

lemma SetCompact_word_val:
  "unat (SetCompact_word c) =
     (let nSize = unat c div 2 ^ 24; nWord = unat c mod 2 ^ 23 in
      if nSize \<le> 3 then nWord div 256 ^ (3 - nSize) else nWord)"
proof -
  have "(2 :: nat) ^ (8 * k) = 256 ^ k" for k by (simp add: power_mult)
  then show ?thesis
    unfolding SetCompact_word_def Let_def compact_size [symmetric] compact_mask [symmetric]
    by (simp del: drop_bit_and add: compact_size)
qed

lemma SetCompact_val: "limbs_val (SetCompact c) = compact_exact c mod 2 ^ 256"
proof -
  have e: "(2 :: nat) ^ (8 * k) = 256 ^ k" for k by (simp add: power_mult)
  have "unat c mod 2 ^ 23 div 256 ^ k < 2 ^ 256" for k
  proof -
    have "unat c mod 2 ^ 23 div 256 ^ k \<le> unat c mod 2 ^ 23" by (rule div_le_dividend)
    also have "\<dots> < 2 ^ 23" by simp
    finally show ?thesis by simp
  qed
  then show ?thesis
    unfolding SetCompact_def compact_exact_def Let_def
    by (simp add: base_shl_val base_uint_of_val32 SetCompact_word_val Let_def compact_size e)
qed

lemma length_SetCompact [simp]: "length (SetCompact c) = WIDTH"
  by (simp add: SetCompact_def Let_def)

lemma SetCompact_overflow_iff: "SetCompact_overflow c \<longleftrightarrow> 2 ^ 256 \<le> compact_exact c"
proof -
  define n w where n: "n = unat c div 2 ^ 24" and w: "w = unat c mod 2 ^ 23"
  have wlt: "w < 2 ^ 23" by (simp add: w)
  have cmp: "(255 < SetCompact_word c) = (255 < unat (SetCompact_word c))"
    "(65535 < SetCompact_word c) = (65535 < unat (SetCompact_word c))"
    "(SetCompact_word c \<noteq> 0) = (unat (SetCompact_word c) \<noteq> 0)"
    by (simp_all add: word_less_nat_alt unat_eq_zero)
  show ?thesis
  proof (cases "n \<le> 3")
    case True
    have "w div 256 ^ (3 - n) \<le> w" by (rule div_le_dividend)
    also have "\<dots> < 2 ^ 256" using wlt by simp
    finally have "w div 256 ^ (3 - n) < 2 ^ 256" .
    with True show ?thesis
      unfolding SetCompact_overflow_def compact_exact_def Let_def compact_size n [symmetric] w [symmetric] by simp
  next
    case False
    have ov: "SetCompact_overflow c \<longleftrightarrow> w \<noteq> 0 \<and> (34 < n \<or> 255 < w \<and> 33 < n \<or> 65535 < w \<and> 32 < n)"
      using False unfolding SetCompact_overflow_def Let_def cmp SetCompact_word_val compact_size n [symmetric] w [symmetric] by simp
    have ex: "compact_exact c = w * 256 ^ (n - 3)" using False unfolding compact_exact_def Let_def n [symmetric] w [symmetric] by simp
    consider "n \<le> 32" | "n = 33" | "n = 34" | "35 \<le> n" by linarith
    then show ?thesis
    proof cases
      case 1
      have "w * 256 ^ (n - 3) \<le> w * 256 ^ 29" using 1 by (intro mult_left_mono power_increasing) auto
      also have "\<dots> < 2 ^ 256" using wlt by simp
      finally show ?thesis using 1 unfolding ov ex by simp
    next
      case 4
      have "2 ^ 256 \<le> w * 256 ^ (n - 3)" if "w \<noteq> 0"
      proof -
        have "(2 :: nat) ^ 256 = 1 * 256 ^ 32" by simp
        also have "\<dots> \<le> w * 256 ^ (n - 3)" using that 4 by (intro mult_mono power_increasing) auto
        finally show ?thesis .
      qed
      then show ?thesis using 4 unfolding ov ex by (cases "w = 0") simp_all
    qed (auto simp: ov ex)
  qed
qed

lemma SetCompact_negative_iff: "SetCompact_negative c \<longleftrightarrow> SetCompact_word c \<noteq> 0 \<and> bit (unat c) 23"
proof -
  have "c AND 0x00800000 \<noteq> 0 \<longleftrightarrow> bit (unat c) 23"
    using and_exp_eq_0_iff_not_bit [of c 23] by (simp add: bit_unsigned_iff)
  then show ?thesis by (simp add: SetCompact_negative_def)
qed

text \<open>
  The compact form at the level of numbers: \<open>compact_mantissa n v\<close> is the leading three bytes of a number of
  \<open>n\<close> bytes, \<open>compact_norm\<close> the step that keeps the sign bit clear.
\<close>

definition compact_mantissa :: "nat \<Rightarrow> nat \<Rightarrow> nat" where
  "compact_mantissa n v = (if n \<le> 3 then v * 256 ^ (3 - n) else v div 256 ^ (n - 3))"

definition compact_norm :: "nat \<times> nat \<Rightarrow> nat \<times> nat" where
  "compact_norm nm = (if 2 ^ 23 \<le> snd nm then (fst nm + 1, snd nm div 256) else nm)"

definition compact_parts :: "nat \<Rightarrow> nat \<Rightarrow> nat \<times> nat" where
  "compact_parts n v = compact_norm (n, compact_mantissa n v)"

definition compact_pack :: "bool \<Rightarrow> nat \<times> nat \<Rightarrow> nat" where
  "compact_pack neg nm = snd nm + 2 ^ 23 * of_bool (neg \<and> snd nm \<noteq> 0) + 2 ^ 24 * fst nm"

lemma compact_mantissa_less: "v < 256 ^ n \<Longrightarrow> compact_mantissa n v < 2 ^ 24"
proof (cases "n \<le> 3")
  case True
  assume "v < 256 ^ n"
  then have "v * 256 ^ (3 - n) < 256 ^ n * 256 ^ (3 - n)" by simp
  also have "(256 :: nat) ^ n * 256 ^ (3 - n) = 2 ^ 24" using True by (simp flip: power_add)
  finally show ?thesis using True by (simp add: compact_mantissa_def)
next
  case False
  assume "v < 256 ^ n"
  also have "(256 :: nat) ^ n = 2 ^ 24 * 256 ^ (n - 3)"
  proof -
    have "(256 :: nat) ^ n = 256 ^ 3 * 256 ^ (n - 3)" using False by (subst power_add [symmetric]) simp
    then show ?thesis by simp
  qed
  finally show ?thesis using False by (simp add: compact_mantissa_def less_mult_imp_div_less)
qed

lemma compact_norm_less: "m < 2 ^ 24 \<Longrightarrow> snd (compact_norm (n, m)) < 2 ^ 23"
  by (auto simp: compact_norm_def)

lemma compact_pack_parts:
  assumes "m < 2 ^ 23"
  shows "compact_pack neg (n, m) div 2 ^ 24 = n" "compact_pack neg (n, m) mod 2 ^ 23 = m"
    "bit (compact_pack neg (n, m)) 23 \<longleftrightarrow> neg \<and> m \<noteq> 0"
proof -
  let ?b = "of_bool (neg \<and> m \<noteq> 0) :: nat"
  have m: "m + 2 ^ 23 * ?b < 2 ^ 24" using assms by (cases "neg \<and> m \<noteq> 0") auto
  have "(m + 2 ^ 23 * ?b + 2 ^ 24 * n) div 2 ^ 24 = n" using m by (subst div_mult_self2) auto
  then show "compact_pack neg (n, m) div 2 ^ 24 = n" by (simp add: compact_pack_def)
  have e: "compact_pack neg (n, m) = m + 2 ^ 23 * (?b + 2 * n)" by (simp add: compact_pack_def)
  show "compact_pack neg (n, m) mod 2 ^ 23 = m" unfolding e using assms by (simp only: mod_mult_self2 mod_less)
  have "(m + 2 ^ 23 * (?b + 2 * n)) div 2 ^ 23 = ?b + 2 * n" using assms by (subst div_mult_self2) auto
  then show "bit (compact_pack neg (n, m)) 23 \<longleftrightarrow> neg \<and> m \<noteq> 0" unfolding bit_iff_odd e by auto
qed

lemma limb_bit_test: "(c :: uint32) AND 0x00800000 \<noteq> 0 \<longleftrightarrow> bit (unat c) 23"
  using and_exp_eq_0_iff_not_bit [of c 23] by (simp add: bit_unsigned_iff)

lemma bit_top_iff: "m < 2 ^ Suc k \<Longrightarrow> bit m k \<longleftrightarrow> 2 ^ k \<le> (m :: nat)"
  using bit_top_of_nat [of k m] by (metis bit_take_bit_iff not_le take_bit_nat_eq_self less_irrefl)

lemma no_sign_bits: "unat (c :: uint32) < 2 ^ 23 \<Longrightarrow> c AND NOT 0x007fffff = 0"
proof -
  assume "unat c < 2 ^ 23"
  then have "unat (take_bit 23 c) = unat c" by (simp only: unsigned_take_bit_eq take_bit_nat_eq_self)
  then have "take_bit 23 c = c" by (rule unsigned_word_eqI)
  then have "c AND NOT (mask 23) = 0" by (metis take_bit_eq_mask and.assoc and.right_neutral bit.conj_cancel_right and_zero_eq)
  moreover have "(0x007fffff :: uint32) = mask 23" by (simp add: mask_eq_exp_minus_1)
  ultimately show ?thesis by simp
qed

definition nbytes :: "base_uint \<Rightarrow> nat" where
  "nbytes a = (base_bits a + 7) div 8"

lemma nbytes_bounds:
  "limbs_val a < 256 ^ nbytes a"
  "limbs_val a \<noteq> 0 \<Longrightarrow> 256 ^ (nbytes a - 1) \<le> limbs_val a"
  "nbytes a \<le> 4 * length a"
  "limbs_val a = 0 \<Longrightarrow> nbytes a = 0"
proof -
  have e: "(256 :: nat) ^ k = 2 ^ (8 * k)" for k by (simp add: power_mult)
  have "base_bits a \<le> 8 * nbytes a" by (simp add: nbytes_def)
  then have "(2 :: nat) ^ base_bits a \<le> 2 ^ (8 * nbytes a)" by (rule power_increasing) simp
  then show "limbs_val a < 256 ^ nbytes a" using base_bits_bounds(2) [of a] unfolding e by linarith
  show "nbytes a \<le> 4 * length a" using base_bits_bounds(4) [of a] by (simp add: nbytes_def)
  show "limbs_val a = 0 \<Longrightarrow> nbytes a = 0" using base_bits_bounds(1) [of a] by (simp add: nbytes_def)
  assume nz: "limbs_val a \<noteq> 0"
  have "8 * (nbytes a - 1) \<le> base_bits a - 1" by (simp add: nbytes_def)
  then have "(2 :: nat) ^ (8 * (nbytes a - 1)) \<le> 2 ^ (base_bits a - 1)" by (rule power_increasing) simp
  then show "256 ^ (nbytes a - 1) \<le> limbs_val a" using base_bits_bounds(3) [OF nz] unfolding e by linarith
qed

lemma GetCompact_low:
  assumes "length a = WIDTH"
  shows "unat (if nbytes a \<le> 3 then ucast (push_bit (8 * (3 - nbytes a)) (GetLow64 a))
               else ucast (GetLow64 (base_shr a (8 * (nbytes a - 3)))) :: uint32) = compact_mantissa (nbytes a) (limbs_val a)"
proof -
  have e: "(2 :: nat) ^ (8 * k) = 256 ^ k" for k by (simp add: power_mult)
  let ?m = "compact_mantissa (nbytes a) (limbs_val a)"
  have m: "?m < 2 ^ 24" by (rule compact_mantissa_less [OF nbytes_bounds(1)])
  have low: "unat (ucast w :: uint32) = ?m" if "unat (w :: uint64) = ?m" for w
    using m that by (simp add: unsigned_ucast_eq take_bit_nat_eq_self)
  show ?thesis
  proof (cases "nbytes a \<le> 3")
    case True
    have "256 ^ nbytes a \<le> (256 :: nat) ^ 3" using True by (rule power_increasing) simp
    then have v: "unat (GetLow64 a) = limbs_val a" using nbytes_bounds(1) [of a] assms by (simp add: GetLow64_val)
    have "?m = limbs_val a * 2 ^ (8 * (3 - nbytes a))" using True by (simp add: compact_mantissa_def e)
    with m v have "unat (push_bit (8 * (3 - nbytes a)) (GetLow64 a)) = ?m" by (subst unat_push_bit_exact) auto
    with True show ?thesis using low by simp
  next
    case False
    have "limbs_val (base_shr a (8 * (nbytes a - 3))) = ?m" using False by (simp add: base_shr_val compact_mantissa_def e)
    with m have "unat (GetLow64 (base_shr a (8 * (nbytes a - 3)))) = ?m" using assms by (simp add: GetLow64_val)
    with False show ?thesis using low by simp
  qed
qed

lemma GetCompact_pack:
  assumes len: "length a = WIDTH"
  shows "GetCompact neg a = Ok (word_of_nat (compact_pack neg (compact_parts (nbytes a) (limbs_val a))))"
proof -
  define c0 :: uint32 where "c0 = (if nbytes a \<le> 3 then ucast (push_bit (8 * (3 - nbytes a)) (GetLow64 a))
               else ucast (GetLow64 (base_shr a (8 * (nbytes a - 3)))))"
  let ?m0 = "compact_mantissa (nbytes a) (limbs_val a)"
  have c0: "unat c0 = ?m0" unfolding c0_def by (rule GetCompact_low [OF len])
  have m0: "?m0 < 2 ^ 24" by (rule compact_mantissa_less [OF nbytes_bounds(1)])
  have sign: "c0 AND 0x00800000 \<noteq> 0 \<longleftrightarrow> 2 ^ 23 \<le> ?m0"
    unfolding limb_bit_test c0 using bit_top_iff [of ?m0 23] m0 by simp
  define c1 where "c1 = (if c0 AND 0x00800000 \<noteq> 0 then drop_bit 8 c0 else c0)"
  define n1 where "n1 = (if c0 AND 0x00800000 \<noteq> 0 then nbytes a + 1 else nbytes a)"
  have p: "compact_parts (nbytes a) (limbs_val a) = (n1, unat c1)"
    using c0 sign by (auto simp: compact_parts_def compact_norm_def c1_def n1_def compact_size simp del: drop_bit_numeral_bit0)
  then have c1: "unat c1 < 2 ^ 23" using compact_norm_less [OF m0, of "nbytes a"] by (simp add: compact_parts_def)
  have n1: "n1 < 256" using nbytes_bounds(3) [of a] len by (simp add: n1_def)
  let ?b = "neg \<and> unat c1 \<noteq> 0"
  define c2 where "c2 = c1 OR push_bit 24 (of_nat n1)"
  have un: "unat (of_nat n1 :: uint32) = n1" using n1 by (simp add: unat_of_nat take_bit_nat_eq_self)
  have c2: "unat c2 = unat c1 + 2 ^ 24 * n1"
    unfolding c2_def using c1 n1 by (subst unat_or_push_bit) (simp_all add: un)
  have "unat (c2 AND 0x007fffff) = unat c1"
  proof -
    have "unat c1 + 2 ^ 24 * n1 = unat c1 + 2 ^ 23 * (2 * n1)" by simp
    then show ?thesis unfolding compact_mask c2 using c1 by (simp only: mod_mult_self2 mod_less)
  qed
  then have nz: "c2 AND 0x007fffff \<noteq> 0 \<longleftrightarrow> unat c1 \<noteq> 0" by (metis unat_eq_zero unsigned_0)
  have "unat (c2 OR (if ?b then 0x00800000 else 0)) = compact_pack neg (n1, unat c1)"
  proof (cases ?b)
    case True
    have "c2 OR 0x00800000 = (c1 OR push_bit 23 1) OR push_bit 24 (of_nat n1)"
      by (simp add: c2_def or.assoc or.commute or.left_commute)
    moreover have "unat (c1 OR push_bit 23 1) = unat c1 + 2 ^ 23"
      using c1 by (subst unat_or_push_bit) simp_all
    moreover from this have "unat ((c1 OR push_bit 23 1) OR push_bit 24 (of_nat n1)) = unat c1 + 2 ^ 23 + 2 ^ 24 * n1"
      using c1 n1 by (subst unat_or_push_bit) (simp_all add: un del: push_bit_of_1)
    ultimately show ?thesis using True by (simp add: compact_pack_def)
  qed (auto simp: compact_pack_def c2)
  then have "c2 OR (if neg \<and> c2 AND 0x007fffff \<noteq> 0 then 0x00800000 else 0) = word_of_nat (compact_pack neg (n1, unat c1))"
    unfolding nz by (metis of_nat_unat ucast_id)
  then show ?thesis
    unfolding GetCompact_def nbytes_def [symmetric] Let_def c0_def [symmetric] c1_def [symmetric] n1_def [symmetric] c2_def [symmetric] p
    using n1 by (simp only: no_sign_bits [OF c1] if_True if_False simp_thms) simp
qed

lemma unat_GetCompact:
  assumes "length a = WIDTH" "GetCompact neg a = Ok c"
  shows "unat c = compact_pack neg (compact_parts (nbytes a) (limbs_val a))"
proof -
  obtain n m where p: "compact_parts (nbytes a) (limbs_val a) = (n, m)" by (rule prod.exhaust)
  have "m < 2 ^ 23" using compact_norm_less [OF compact_mantissa_less [OF nbytes_bounds(1)], of "nbytes a" a] p
    by (simp add: compact_parts_def)
  moreover have "n \<le> 33" using p nbytes_bounds(3) [of a] assms(1)
    by (auto simp: compact_parts_def compact_norm_def split: if_splits)
  ultimately have "compact_pack neg (n, m) < 2 ^ 32"
    by (cases "neg \<and> m \<noteq> 0") (auto simp: compact_pack_def)
  then show ?thesis using assms p by (auto simp: GetCompact_pack unat_of_nat take_bit_nat_eq_self)
qed

lemma compact_parts_value:
  assumes "compact_parts n v = (n', m)"
  shows "(if n' \<le> 3 then m div 256 ^ (3 - n') else m * 256 ^ (n' - 3)) = v div 256 ^ (n' - 3) * 256 ^ (n' - 3)"
proof (cases "2 ^ 23 \<le> compact_mantissa n v")
  case False
  then show ?thesis using assms by (auto simp: compact_parts_def compact_norm_def compact_mantissa_def split: if_splits)
next
  case True
  then have n': "n' = n + 1" and m: "m = compact_mantissa n v div 256" using assms by (auto simp: compact_parts_def compact_norm_def)
  consider "n \<le> 2" | "n = 3" | "3 < n" by linarith
  then show ?thesis
  proof cases
    case 1
    then have "(256 :: nat) ^ (3 - n) = 256 * 256 ^ (2 - n)" by (simp add: Suc_diff_le numeral_3_eq_3 numeral_2_eq_2 flip: power_Suc)
    then have "m = v * 256 ^ (2 - n)" using 1 by (simp add: m compact_mantissa_def)
    with 1 show ?thesis by (simp add: n')
  next
    case 2
    then show ?thesis by (simp add: n' m compact_mantissa_def)
  next
    case 3
    then have "n - 2 = Suc (n - 3)" by simp
    then have "(256 :: nat) ^ (n - 2) = 256 ^ (n - 3) * 256" by simp
    then have "m = v div 256 ^ (n - 2)" using 3 by (simp add: m compact_mantissa_def div_mult2_eq)
    with 3 show ?thesis by (simp add: n')
  qed
qed

lemma compact_exact_GetCompact:
  assumes "length a = WIDTH" "GetCompact neg a = Ok c" "compact_parts (nbytes a) (limbs_val a) = (n, m)"
  shows "compact_exact c = limbs_val a div 256 ^ (n - 3) * 256 ^ (n - 3)"
    and "SetCompact_negative c \<longleftrightarrow> neg \<and> compact_exact c \<noteq> 0"
proof -
  have m: "m < 2 ^ 23" using compact_norm_less [OF compact_mantissa_less [OF nbytes_bounds(1)], of "nbytes a" a] assms(3)
    by (simp add: compact_parts_def)
  note u = unat_GetCompact [OF assms(1,2), unfolded assms(3)]
  show "compact_exact c = limbs_val a div 256 ^ (n - 3) * 256 ^ (n - 3)"
    unfolding compact_exact_def Let_def u compact_pack_parts(1,2) [OF m] by (rule compact_parts_value [OF assms(3)])
  have "SetCompact_word c \<noteq> 0 \<longleftrightarrow> compact_exact c \<noteq> 0"
    unfolding unat_eq_zero [symmetric] SetCompact_word_val compact_exact_def Let_def by simp
  moreover have "bit (unat c) 23 \<longleftrightarrow> neg \<and> m \<noteq> 0" unfolding u by (rule compact_pack_parts(3) [OF m])
  moreover have "m = 0 \<Longrightarrow> compact_exact c = 0"
    unfolding compact_exact_def Let_def u compact_pack_parts(1,2) [OF m] by simp
  ultimately show "SetCompact_negative c \<longleftrightarrow> neg \<and> compact_exact c \<noteq> 0" unfolding SetCompact_negative_iff by auto
qed

lemma nbytes_unique:
  assumes "256 ^ (n - 1) \<le> limbs_val a" "limbs_val a < 256 ^ n"
  shows "nbytes a = n"
proof -
  have nz: "limbs_val a \<noteq> 0" using assms(1) by (metis le_zero_eq power_not_zero zero_neq_numeral)
  have "256 ^ (nbytes a - 1) < (256 :: nat) ^ n" using nbytes_bounds(2) [OF nz] assms(2) by linarith
  then have "nbytes a - 1 < n" by simp
  moreover have "256 ^ (n - 1) < (256 :: nat) ^ nbytes a" using nbytes_bounds(1) [of a] assms(1) by linarith
  then have "n - 1 < nbytes a" by simp
  ultimately show ?thesis by linarith
qed

lemma compact_parts_idem:
  assumes p: "compact_parts n v = (n', m)" and v: "256 ^ (n - 1) \<le> v"
  shows "256 ^ (n - 1) \<le> v div 256 ^ (n' - 3) * 256 ^ (n' - 3)"
    and "compact_parts n (v div 256 ^ (n' - 3) * 256 ^ (n' - 3)) = (n', m)"
proof -
  have n': "n' - 3 \<le> n - 1" using p by (auto simp: compact_parts_def compact_norm_def split: if_splits)
  let ?k = "n' - 3"
  have "(256 :: nat) ^ (n - 1) = 256 ^ (n - 1) div 256 ^ ?k * 256 ^ ?k"
    using n' by (simp add: le_imp_power_dvd)
  also have "\<dots> \<le> v div 256 ^ ?k * 256 ^ ?k" using v by (intro mult_right_mono div_le_mono) simp_all
  finally show "256 ^ (n - 1) \<le> v div 256 ^ ?k * 256 ^ ?k" .
  show "compact_parts n (v div 256 ^ ?k * 256 ^ ?k) = (n', m)"
  proof (cases "2 ^ 23 \<le> compact_mantissa n v \<and> 3 \<le> n")
    case False
    then have "?k = n - 3" using p by (auto simp: compact_parts_def compact_norm_def split: if_splits)
    then have "compact_mantissa n (v div 256 ^ ?k * 256 ^ ?k) = compact_mantissa n v" by (simp add: compact_mantissa_def)
    then show ?thesis using p by (simp add: compact_parts_def)
  next
    case True
    then have k: "?k = Suc (n - 3)" and m: "m = compact_mantissa n v div 256" and n: "n' = n + 1"
      using p by (auto simp: compact_parts_def compact_norm_def split: if_splits)
    have c: "compact_mantissa n w = w div 256 ^ (n - 3)" for w using True by (cases "n = 3") (auto simp: compact_mantissa_def)
    have "v div 256 ^ ?k * 256 ^ ?k = (v div 256 ^ (n - 3) div 256 * 256) * 256 ^ (n - 3)"
      by (simp add: k div_mult2_eq mult.commute [of 256] del: div_mult2_eq' flip: div_mult2_eq)
    then have cm: "compact_mantissa n (v div 256 ^ ?k * 256 ^ ?k) = m * 256" by (simp add: c m)
    have "2 ^ 23 \<le> m * 256" using div_le_mono [of "2 ^ 23" "compact_mantissa n v" 256] True m by simp
    then show ?thesis unfolding compact_parts_def compact_norm_def cm snd_conv fst_conv by (simp add: n)
  qed
qed

lemma GetCompact_SetCompact_GetCompact:
  assumes len: "length a = WIDTH" and c: "GetCompact neg a = Ok c"
  shows "limbs_val (SetCompact c) = compact_exact c \<and> compact_exact c \<le> limbs_val a \<and> GetCompact neg (SetCompact c) = Ok c"
proof -
  obtain n m where p: "compact_parts (nbytes a) (limbs_val a) = (n, m)" by (rule prod.exhaust)
  note ex = compact_exact_GetCompact(1) [OF len c p]
  have le: "compact_exact c \<le> limbs_val a" unfolding ex by (rule div_times_less_eq_dividend)
  then have sv: "limbs_val (SetCompact c) = compact_exact c"
    using limbs_val_less [of a] len by (simp add: SetCompact_val)
  have "nbytes (SetCompact c) = nbytes a \<and> compact_parts (nbytes a) (compact_exact c) = (n, m)"
  proof (cases "limbs_val a = 0")
    case True
    then have "compact_exact c = 0" using le by simp
    then show ?thesis using True p sv by (simp add: nbytes_bounds(4))
  next
    case False
    note idem = compact_parts_idem [OF p nbytes_bounds(2) [OF False]]
    then show ?thesis using nbytes_bounds(1) [of a] le unfolding sv [symmetric] ex [symmetric]
      by (metis nbytes_unique ex order_le_less_trans sv)
  qed
  then show ?thesis using sv le p c len by (simp add: GetCompact_pack)
qed

lemma compact_precision:
  assumes len: "length a = WIDTH" and c: "GetCompact neg a = Ok c"
  shows "2 ^ 15 * (limbs_val a - compact_exact c) \<le> limbs_val a"
proof (cases "limbs_val a = 0")
  case False
  let ?v = "limbs_val a"
  obtain n m where p: "compact_parts (nbytes a) ?v = (n, m)" by (rule prod.exhaust)
  have d: "?v - compact_exact c = ?v mod 256 ^ (n - 3)"
    unfolding compact_exact_GetCompact(1) [OF len c p] by (rule minus_div_mult_eq_mod)
  show ?thesis
  proof (cases "n \<le> 3")
    case True
    then show ?thesis by (simp add: d)
  next
    case n: False
    let ?P = "256 ^ (n - 3) :: nat"
    have "2 ^ 15 * ?P \<le> ?v"
    proof (cases "2 ^ 23 \<le> compact_mantissa (nbytes a) ?v")
      case True
      then have e: "n = nbytes a + 1" using p by (auto simp: compact_parts_def compact_norm_def)
      then have "2 ^ 23 * 256 ^ (nbytes a - 3) \<le> ?v" using True n
        by (cases "nbytes a = 3") (auto simp: compact_mantissa_def less_eq_div_iff_mult_less_eq)
      moreover have "?P = 256 * 256 ^ (nbytes a - 3)" using n e by (simp flip: power_Suc)
      ultimately show ?thesis by simp
    next
      case False
      then have e: "n = nbytes a" using p by (auto simp: compact_parts_def compact_norm_def)
      have "nbytes a - 1 = Suc (Suc (n - 3))" using n e by simp
      then have "256 ^ (nbytes a - 1) = 2 ^ 16 * ?P" by simp
      then have "2 ^ 16 * ?P \<le> ?v" using nbytes_bounds(2) [OF \<open>?v \<noteq> 0\<close>] by simp
      then show ?thesis by simp
    qed
    moreover have "2 ^ 15 * (?v mod ?P) \<le> 2 ^ 15 * ?P" by (intro mult_left_mono less_imp_le) simp_all
    ultimately show ?thesis unfolding d by (rule order_trans [rotated])
  qed
qed simp

lemma concat_limb_bytes: "le_nat (concat (map (\<lambda>x. le_bytes 4 (unat x)) a)) = limbs_val a"
proof (induction a)
  case (Cons x a)
  have "le_nat (le_bytes 4 (unat x)) = unat x" using unat_limb_less [of x] by (intro le_nat_le_bytes) simp
  with Cons show ?case by (simp add: le_nat_append)
qed simp

lemma UintToArith_limb:
  "x < length a \<Longrightarrow> take 4 (drop (x * 4) (concat (map (\<lambda>x. le_bytes 4 (unat x)) a))) = le_bytes 4 (unat (a ! x))"
proof (induction a arbitrary: x)
  case (Cons y a)
  show ?case
  proof (cases x)
    case (Suc k)
    then have "drop (x * 4) (concat (map (\<lambda>x. le_bytes 4 (unat x)) (y # a))) = drop (k * 4) (concat (map (\<lambda>x. le_bytes 4 (unat x)) a))"
      by simp
    with Cons Suc show ?thesis by simp
  qed simp
qed simp

lemma UintToArith_ArithToUint: "length a = WIDTH \<Longrightarrow> UintToArith256 (ArithToUint256 a) = a"
proof -
  assume len: "length a = WIDTH"
  have "le_nat (le_bytes 4 (unat (w :: uint32))) = unat w" for w
    using unat_limb_less [of w] by (intro le_nat_le_bytes) simp
  then show ?thesis unfolding UintToArith256_def ArithToUint256_def
    using len by (intro nth_equalityI) (auto simp: UintToArith_limb)
qed

lemma length_ArithToUint256: "length (ArithToUint256 a) = 4 * length a"
  by (induction a) (simp_all add: ArithToUint256_def)

lemma length_UintToArith256 [simp]: "length (UintToArith256 u) = WIDTH"
  by (simp add: UintToArith256_def)

section \<open>Properties\<close>

text \<open>
  C20: The 256-bit integers compute modulo two to the 256: addition, subtraction, multiplication and the left shift
  are the arithmetic operations reduced by that modulus, the right shift and the division are exact, division
  fails exactly for a zero divisor, and \<^verbatim>\<open>CompareTo\<close> is the order of the numbers.
\<close>

theorem arith_uint256_arithmetic:
  assumes "length a = WIDTH" and "length b = WIDTH"
  shows "limbs_val (base_add a b) = (limbs_val a + limbs_val b) mod 2 ^ 256 \<and>
    int (limbs_val (base_sub a b)) = (int (limbs_val a) - int (limbs_val b)) mod 2 ^ 256 \<and>
    limbs_val (base_mul a b) = limbs_val a * limbs_val b mod 2 ^ 256 \<and>
    limbs_val (base_shl a n) = limbs_val a * 2 ^ n mod 2 ^ 256 \<and>
    limbs_val (base_shr a n) = limbs_val a div 2 ^ n \<and>
    map_option limbs_val (base_div a b) = (if limbs_val b = 0 then None else Some (limbs_val a div limbs_val b)) \<and>
    (CompareTo a b < 0 \<longleftrightarrow> limbs_val a < limbs_val b) \<and>
    (CompareTo a b = 0 \<longleftrightarrow> limbs_val a = limbs_val b)"
proof (intro conjI)
  show "limbs_val (base_add a b) = (limbs_val a + limbs_val b) mod 2 ^ 256"
    using base_add_val(1) [of a b] assms by simp
  have "int (limbs_val (base_sub a b)) = int (limbs_val a + 2 ^ 256 - limbs_val b) mod 2 ^ 256"
    using base_sub_val [of a b] assms by (simp add: zmod_int)
  also have "int (limbs_val a + 2 ^ 256 - limbs_val b) = int (limbs_val a) - int (limbs_val b) + 2 ^ 256"
    using limbs_val_less [of b] assms(2) by simp
  finally show "int (limbs_val (base_sub a b)) = (int (limbs_val a) - int (limbs_val b)) mod 2 ^ 256"
    by (simp only: mod_add_self2)
  show "limbs_val (base_mul a b) = limbs_val a * limbs_val b mod 2 ^ 256"
    using base_mul_val [of a b] assms by simp
  show "limbs_val (base_shl a n) = limbs_val a * 2 ^ n mod 2 ^ 256" by (simp add: base_shl_val assms)
  show "limbs_val (base_shr a n) = limbs_val a div 2 ^ n" by (rule base_shr_val)
  show "map_option limbs_val (base_div a b) = (if limbs_val b = 0 then None else Some (limbs_val a div limbs_val b))"
    using base_div_val [of a b] assms by (cases "base_div a b") auto
  show "CompareTo a b < 0 \<longleftrightarrow> limbs_val a < limbs_val b" "CompareTo a b = 0 \<longleftrightarrow> limbs_val a = limbs_val b"
    using assms by (auto simp: CompareTo_val)
qed

theorem arith_uint256_arithmetic_witness:
  "limbs_val (base_add [7, 0, 0, 0, 0, 0, 0, 0] [2, 0, 0, 0, 0, 0, 0, 0]) = 9 \<and>
   map_option limbs_val (base_div [7, 0, 0, 0, 0, 0, 0, 0] [2, 0, 0, 0, 0, 0, 0, 0]) = Some 3 \<and>
   limbs_val (base_shl [7, 0, 0, 0, 0, 0, 0, 0] 3) = 56"
  using arith_uint256_arithmetic [of "[7, 0, 0, 0, 0, 0, 0, 0]" "[2, 0, 0, 0, 0, 0, 0, 0]" 3] by simp

text \<open>
  C21: The compact form of a target. Encoding a 256-bit number never fails an assertion; what is decoded again does not
  overflow, is never greater than the number, differs from it by at most one part in two to the 15, carries
  the sign asked for unless it is zero, and encodes to the same word.
\<close>

theorem compact_roundtrip:
  assumes "length a = WIDTH"
  shows "\<exists>c. GetCompact neg a = Ok c \<and> \<not> SetCompact_overflow c \<and>
    limbs_val (SetCompact c) \<le> limbs_val a \<and>
    2 ^ 15 * (limbs_val a - limbs_val (SetCompact c)) \<le> limbs_val a \<and>
    (SetCompact_negative c \<longleftrightarrow> neg \<and> limbs_val (SetCompact c) \<noteq> 0) \<and>
    GetCompact neg (SetCompact c) = Ok c"
proof -
  obtain c where c: "GetCompact neg a = Ok c" using GetCompact_pack [OF assms] by blast
  obtain n m where p: "compact_parts (nbytes a) (limbs_val a) = (n, m)" by (rule prod.exhaust)
  note rt = GetCompact_SetCompact_GetCompact [OF assms c]
  have "\<not> SetCompact_overflow c"
    using rt limbs_val_less [of a] assms unfolding SetCompact_overflow_iff by simp
  then show ?thesis
    using c rt compact_precision [OF assms c] compact_exact_GetCompact(2) [OF assms c p] by auto
qed

theorem compact_roundtrip_witness:
  "\<exists>c. GetCompact False [0x12345678, 0, 0, 0, 0, 0, 0, 0] = Ok c \<and>
     limbs_val (SetCompact c) \<le> 0x12345678 \<and> GetCompact False (SetCompact c) = Ok c"
  using compact_roundtrip [of "[0x12345678, 0, 0, 0, 0, 0, 0, 0]" False] by auto

text \<open>
  C28: \<^verbatim>\<open>SetCompact\<close> reports an overflow exactly when the number the compact word stands for does not fit
  in 256 bits, and otherwise delivers that number.
\<close>

theorem SetCompact_overflow_exact:
  "(SetCompact_overflow c \<longleftrightarrow> 2 ^ 256 \<le> compact_exact c) \<and> limbs_val (SetCompact c) = compact_exact c mod 2 ^ 256"
  using SetCompact_overflow_iff SetCompact_val by blast

end
