(* ===== verification/Pow.thy ===== *)
theory Pow
  imports Chain Compact_Targets "HOL-Library.Signed_Division"
begin

unbundle bit_operations_syntax

text \<open>
  Proof of work and difficulty: \<^verbatim>\<open>src/src/pow.cpp\<close>, the parameters it reads from \<^verbatim>\<open>src/src/consensus/params.h\<close> and
  \<^verbatim>\<open>src/src/chainparams.h\<close>, and the fork heights of \<^verbatim>\<open>src/src/main.h\<close>. Heights, times and spans are integers; a comparison
  with an unsigned 64-bit parameter converts first (\<open>u64\<close>), and the multiplication of a target by a span takes the
  span modulo two to the 32, as the overload that the compiler selects does. \<open>Throw\<close> is the division by zero of
  \<^verbatim>\<open>uint_error\<close>, \<open>Abort\<close> a failed assertion or a null pointer.
\<close>

section \<open>Parameters\<close>

record pow_params =
  powLimit :: uint256
  prePowLimit :: uint256
  nPowAveragingWindow :: int
  nPowMaxAdjustDown :: int
  nPowMaxAdjustUp :: int
  nPowTargetSpacing :: int
  forkStartHeight :: int
  forkHeightRange :: int
  EquihashParamsUpdate :: int
  LwmaHeight :: int
  LwmaAveragingWin :: int

text \<open>The main network.\<close>

definition main_params :: pow_params where
  "main_params =
     \<lparr> powLimit = 0x07ffffffffffffffffffffffffffffffffffffffffffffffffffffffffffffff,
       prePowLimit = 0x0007ffffffffffffffffffffffffffffffffffffffffffffffffffffffffffff,
       nPowAveragingWindow = 17, nPowMaxAdjustDown = 32, nPowMaxAdjustUp = 16, nPowTargetSpacing = 150,
       forkStartHeight = 272991, forkHeightRange = 5467, EquihashParamsUpdate = 618000,
       LwmaHeight = 618018, LwmaAveragingWin = 120 \<rparr>"

definition u64 :: "int \<Rightarrow> int" where
  "u64 x = x mod 2 ^ 64"

definition AveragingWindowTimespan :: "pow_params \<Rightarrow> bool \<Rightarrow> int" where
  "AveragingWindowTimespan params isFork =
     (nPowAveragingWindow params * nPowTargetSpacing params) sdiv (if isFork then 20 else 1)"

definition MinActualTimespan :: "pow_params \<Rightarrow> bool \<Rightarrow> int" where
  "MinActualTimespan params isFork = (AveragingWindowTimespan params isFork * (100 - nPowMaxAdjustUp params)) sdiv 100"

definition MaxActualTimespan :: "pow_params \<Rightarrow> bool \<Rightarrow> int" where
  "MaxActualTimespan params isFork = (AveragingWindowTimespan params isFork * (100 + nPowMaxAdjustDown params)) sdiv 100"

definition isForkBlock :: "pow_params \<Rightarrow> int \<Rightarrow> bool" where
  "isForkBlock params height \<longleftrightarrow>
     forkHeightRange params > 0 \<and> height > forkStartHeight params \<and>
     height \<le> forkStartHeight params + forkHeightRange params"

definition isForkEnabled :: "pow_params \<Rightarrow> int \<Rightarrow> bool" where
  "isForkEnabled params height \<longleftrightarrow> height > forkStartHeight params"

definition uint_arith :: "uint256 \<Rightarrow> base_uint" where
  "uint_arith u = UintToArith256 (blob_bytes u)"

text \<open>The divisor and the factor come as signed 64-bit integers.\<close>

definition div_int :: "base_uint \<Rightarrow> int \<Rightarrow> (unit, base_uint) outcome" where
  "div_int a n = (case base_div a (base_uint_of (word_of_int n)) of None \<Rightarrow> Throw | Some q \<Rightarrow> Ok q)"

definition mul_int :: "base_uint \<Rightarrow> int \<Rightarrow> base_uint" where
  "mul_int a n = base_mul32 a (word_of_int n)"

section \<open>Retargeting\<close>

definition IncreaseDifficultyBy :: "uint32 \<Rightarrow> int \<Rightarrow> pow_params \<Rightarrow> (unit, uint32) outcome" where
  "IncreaseDifficultyBy bits multiplier params =
     rbind (div_int (SetCompact bits) multiplier) (\<lambda>target.
       let pow_limit = uint_arith (powLimit params) in
       GetCompact False (if CompareTo target pow_limit > 0 then pow_limit else target))"

definition CalculateNextWorkRequired ::
  "base_uint \<Rightarrow> int \<Rightarrow> int \<Rightarrow> pow_params \<Rightarrow> base_uint \<Rightarrow> bool \<Rightarrow> (unit, uint32) outcome" where
  "CalculateNextWorkRequired bnAvg nLastBlockTime nFirstBlockTime params bnPowLimit isFork =
     (let span0 = nLastBlockTime - nFirstBlockTime;
          span1 = AveragingWindowTimespan params isFork + (span0 - AveragingWindowTimespan params isFork) sdiv 4;
          span2 = (if span1 < MinActualTimespan params isFork then MinActualTimespan params isFork else span1);
          nActualTimespan = (if span2 > MaxActualTimespan params isFork then MaxActualTimespan params isFork else span2) in
      rbind (div_int bnAvg (AveragingWindowTimespan params isFork)) (\<lambda>quot.
        let bnNew = mul_int quot nActualTimespan in
        GetCompact False (if CompareTo bnNew bnPowLimit > 0 then bnPowLimit else bnNew)))"

text \<open>
  The loop over the last \<^verbatim>\<open>N\<close> blocks of the weighted average. The state is the previous timestamp, the
  counter \<^verbatim>\<open>j\<close>, the weighted sum and the average.
\<close>

fun lwma_loop ::
  "block_map \<Rightarrow> index_ptr \<Rightarrow> int \<Rightarrow> int \<Rightarrow> int \<Rightarrow> int list \<Rightarrow> int \<Rightarrow> int \<Rightarrow> int \<Rightarrow> base_uint \<Rightarrow> (unit, int \<times> base_uint) outcome" where
  "lwma_loop m pindexLast T N k [] previousTimestamp j sumWeightedSolvetimes avgTarget = Ok (sumWeightedSolvetimes, avgTarget)"
| "lwma_loop m pindexLast T N k (i # ks) previousTimestamp j sumWeightedSolvetimes avgTarget =
     rbind (GetAncestor m pindexLast i) (\<lambda>p.
       case Option.bind p m of
         None \<Rightarrow> Abort
       | Some block \<Rightarrow>
           let thisTimestamp = (if GetBlockTime block > previousTimestamp then GetBlockTime block else previousTimestamp + 1);
               solvetime = min (6 * T) (thisTimestamp - previousTimestamp);
               j' = j + 1 in
           rbind (div_int (SetCompact (bi_nBits block)) N) (\<lambda>t1. rbind (div_int t1 k) (\<lambda>t2.
             lwma_loop m pindexLast T N k ks thisTimestamp j' (sumWeightedSolvetimes + solvetime * j') (base_add avgTarget t2))))"

definition LwmaCalculateNextWorkRequired :: "block_map \<Rightarrow> index_ptr \<Rightarrow> pow_params \<Rightarrow> (unit, uint32) outcome" where
  "LwmaCalculateNextWorkRequired m pindexLast params =
     (case m pindexLast of
        None \<Rightarrow> Abort
      | Some idx \<Rightarrow>
          let T = nPowTargetSpacing params; N = LwmaAveragingWin params; k = (N * (N + 1) * T) sdiv 2;
              height = nHeight idx; limit = uint_arith (powLimit params) in
          rbind (GetAncestor m pindexLast (height - N)) (\<lambda>p.
            case Option.bind p m of
              None \<Rightarrow> Abort
            | Some first \<Rightarrow>
                rbind (lwma_loop m pindexLast T N k [height - N + 1 .. height] (GetBlockTime first) 0 0 (replicate WIDTH 0))
                  (\<lambda>(sumWeightedSolvetimes, avgTarget).
                    let nextTarget = mul_int avgTarget sumWeightedSolvetimes in
                    GetCompact False (if CompareTo nextTarget limit > 0 then limit else nextTarget))))"

fun averaging_loop :: "block_map \<Rightarrow> nat \<Rightarrow> index_ptr option \<Rightarrow> base_uint \<Rightarrow> (unit, index_ptr option \<times> base_uint) outcome" where
  "averaging_loop m (Suc n) (Some p) bnTot =
     (case m p of None \<Rightarrow> Abort | Some b \<Rightarrow> averaging_loop m n (pprev b) (base_add bnTot (SetCompact (bi_nBits b))))"
| "averaging_loop m _ pindexFirst bnTot = Ok (pindexFirst, bnTot)"

text \<open>The relaxed difficulty of the first blocks after the change of the Equihash parameters; \<open>None\<close> falls through.\<close>

definition upgrade_bits ::
  "'a CBlockHeader_scheme option \<Rightarrow> CBlockIndex \<Rightarrow> uint32 \<Rightarrow> pow_params \<Rightarrow> (unit, uint32 option) outcome" where
  "upgrade_bits pblock idx nProofOfWorkLimit params =
     (case pblock of
        None \<Rightarrow> Ok None
      | Some block \<Rightarrow>
          let gap = header_GetBlockTime block - GetBlockTime idx; T = nPowTargetSpacing params in
          if gap > T * 12 then Ok (Some nProofOfWorkLimit)
          else if gap > T * 6 then rbind (IncreaseDifficultyBy nProofOfWorkLimit 128 params) (\<lambda>d. Ok (Some d))
          else if gap > T * 2 then rbind (IncreaseDifficultyBy nProofOfWorkLimit 256 params) (\<lambda>d. Ok (Some d))
          else Ok None)"

definition GetNextWorkRequired ::
  "block_map \<Rightarrow> index_ptr option \<Rightarrow> 'a CBlockHeader_scheme option \<Rightarrow> pow_params \<Rightarrow> (unit, uint32) outcome" where
  "GetNextWorkRequired m pindexLast pblock params =
     (case Option.bind pindexLast m of
        None \<Rightarrow> Abort
      | Some idx \<Rightarrow>
          let height = nHeight idx + 1;
              proofOfWorkLimit = uint_arith (if \<not> isForkEnabled params height then prePowLimit params else powLimit params) in
          rbind (GetCompact False proofOfWorkLimit) (\<lambda>nProofOfWorkLimit.
          rbind (if u64 height \<ge> EquihashParamsUpdate params \<and>
                    u64 height < u64 (EquihashParamsUpdate params + nPowAveragingWindow params)
                 then upgrade_bits pblock idx nProofOfWorkLimit params else Ok None) (\<lambda>early.
            case early of
              Some bits \<Rightarrow> Ok bits
            | None \<Rightarrow>
                if u64 (nHeight idx) > LwmaHeight params then LwmaCalculateNextWorkRequired m (the pindexLast) params
                else if \<not> isForkBlock params height \<and> isForkBlock params (height - nPowAveragingWindow params)
                then Ok nProofOfWorkLimit
                else if isForkBlock params height \<and> \<not> isForkBlock params (height - nPowAveragingWindow params)
                then Ok nProofOfWorkLimit
                else
                  rbind (averaging_loop m (nat (nPowAveragingWindow params)) pindexLast (replicate WIDTH 0)) (\<lambda>(pindexFirst, bnTot).
                    case pindexFirst of
                      None \<Rightarrow> Ok nProofOfWorkLimit
                    | Some first \<Rightarrow>
                        rbind (div_int bnTot (nPowAveragingWindow params)) (\<lambda>bnAvg.
                        rbind (GetMedianTimePast m (the pindexLast)) (\<lambda>lastTime.
                        rbind (GetMedianTimePast m first) (\<lambda>firstTime.
                          CalculateNextWorkRequired bnAvg lastTime firstTime params proofOfWorkLimit
                            (isForkBlock params (nHeight idx + 1)))))))))"

section \<open>Checking and measuring work\<close>

definition CheckProofOfWork :: "uint256 \<Rightarrow> uint32 \<Rightarrow> pow_params \<Rightarrow> bool" where
  "CheckProofOfWork hash bits params =
     (let bnTarget = SetCompact bits in
      if SetCompact_negative bits \<or> EqualTo bnTarget 0 \<or> SetCompact_overflow bits \<or>
         CompareTo bnTarget (uint_arith (powLimit params)) > 0 then False
      else if CompareTo (uint_arith hash) bnTarget > 0 then False
      else True)"

definition GetBlockProof :: "uint32 \<Rightarrow> (unit, base_uint) outcome" where
  "GetBlockProof bits =
     (let bnTarget = SetCompact bits in
      if SetCompact_negative bits \<or> SetCompact_overflow bits \<or> EqualTo bnTarget 0 then Ok (base_uint_of 0)
      else
        (case base_div (base_compl bnTarget) (base_add bnTarget (base_uint_of 1)) of
           None \<Rightarrow> Throw
         | Some q \<Rightarrow> Ok (base_add q (base_uint_of 1))))"

definition GetBlockProofEquivalentTime ::
  "CBlockIndex \<Rightarrow> CBlockIndex \<Rightarrow> CBlockIndex \<Rightarrow> pow_params \<Rightarrow> (unit, int) outcome" where
  "GetBlockProofEquivalentTime to from tip params =
     (let (r, sign) = (if CompareTo (nChainWork to) (nChainWork from) > 0
                      then (base_sub (nChainWork to) (nChainWork from), 1)
                      else (base_sub (nChainWork from) (nChainWork to), - 1)) in
      rbind (GetBlockProof (bi_nBits tip)) (\<lambda>proof.
        case base_div (base_mul r (base_uint_of (word_of_int (nPowTargetSpacing params)))) proof of
          None \<Rightarrow> Throw
        | Some q \<Rightarrow>
            if base_bits q > 63 then Ok (sign * INT64_MAX)
            else Ok (sint (word_of_int sign * GetLow64 q))))"

section \<open>Targets as numbers\<close>

lemma limbs_of_bytes:
  "length bs = 4 * n \<Longrightarrow> limbs_val (map (\<lambda>x. word_of_nat (le_nat (take 4 (drop (x * 4) bs)))) [0..<n]) = le_nat bs"
proof (induction n arbitrary: bs)
  case (Suc n)
  have split: "le_nat bs = le_nat (take 4 bs) + 256 ^ 4 * le_nat (drop 4 bs)"
    using le_nat_append [of "take 4 bs" "drop 4 bs"] Suc.prems by simp
  have lt: "le_nat (take 4 bs) < 2 ^ 32" using le_nat_less [of "take 4 bs"] Suc.prems by simp
  let ?f = "\<lambda>bs x. word_of_nat (le_nat (take 4 (drop (x * 4) bs))) :: uint32"
  have "[0..<Suc n] = 0 # map Suc [0..<n]" by (simp add: upt_conv_Cons map_Suc_upt del: upt_Suc)
  then have "map (?f bs) [0..<Suc n] = ?f bs 0 # map (?f (drop 4 bs)) [0..<n]" by (simp add: add.commute del: upt_Suc)
  then have "limbs_val (map (?f bs) [0..<Suc n]) = unat (?f bs 0) + 2 ^ 32 * limbs_val (map (?f (drop 4 bs)) [0..<n])"
    by (simp only: limbs_val.simps)
  also have "limbs_val (map (?f (drop 4 bs)) [0..<n]) = le_nat (drop 4 bs)" using Suc.prems by (intro Suc.IH) simp
  also have "unat (?f bs 0) = le_nat (take 4 bs)" using lt by (simp add: unat_of_nat take_bit_nat_eq_self)
  finally show ?case unfolding split by simp
qed simp

lemma uint_arith_val [simp]: "limbs_val (uint_arith u) = unat u" "length (uint_arith u) = WIDTH"
proof -
  have "unat u < 256 ^ 32" using unsigned_less [where ?'a = nat, of u] by simp
  then show "limbs_val (uint_arith u) = unat u"
    using limbs_of_bytes [of "blob_bytes u" 8]
    by (simp add: uint_arith_def UintToArith256_def blob_bytes_def le_nat_le_bytes)
qed (simp add: uint_arith_def)

lemma EqualTo_0: "length a = WIDTH \<Longrightarrow> EqualTo a 0 \<longleftrightarrow> limbs_val a = 0"
proof -
  assume "length a = WIDTH"
  then obtain x0 x1 x2 x3 x4 x5 x6 x7 where "a = [x0, x1, x2, x3, x4, x5, x6, x7]"
    by (auto simp: length_Suc_conv eval_nat_numeral)
  moreover have "(ucast x :: uint64) = 0 \<longleftrightarrow> x = 0" for x :: uint32 by (metis unat_ucast_limb unat_eq_zero unsigned_0)
  ultimately show ?thesis by (auto simp: EqualTo_def unat_eq_zero)
qed

lemma GetCompact_le:
  assumes "length a = WIDTH"
  shows "\<exists>c. GetCompact neg a = Ok c \<and> compact_exact c \<le> limbs_val a"
  using GetCompact_pack [OF assms] GetCompact_SetCompact_GetCompact [OF assms] by blast

lemma div_int_val:
  assumes "length a = WIDTH" "0 < n" "n < 2 ^ 64"
  shows "\<exists>q. div_int a n = Ok q \<and> limbs_val q = limbs_val a div nat n \<and> length q = WIDTH"
proof -
  have v: "limbs_val (base_uint_of (word_of_int n)) = nat n"
    using assms(2,3) by (simp add: base_uint_of_val unsigned_of_int take_bit_int_eq_self)
  then obtain q where "base_div a (base_uint_of (word_of_int n)) = Some q"
    using base_div_val(1) [of a "base_uint_of (word_of_int n)"] assms by (cases "base_div a (base_uint_of (word_of_int n))") auto
  with base_div_val(2) [OF _ this] v assms show ?thesis by (simp add: div_int_def)
qed

lemma compact_exact_not_max: "compact_exact c \<noteq> 2 ^ 256 - 1"
proof (cases "unat c div 2 ^ 24 \<le> 3")
  case True
  have "unat c mod 2 ^ 23 div 256 ^ (3 - unat c div 2 ^ 24) \<le> unat c mod 2 ^ 23" by (rule div_le_dividend)
  also have "\<dots> < 2 ^ 23" by simp
  finally show ?thesis using True unfolding compact_exact_def Let_def by simp
next
  case False
  then have "even (compact_exact c)" unfolding compact_exact_def Let_def by simp
  moreover have "odd (2 ^ 256 - 1 :: nat)" by simp
  ultimately show ?thesis by metis
qed

lemma GetBlockProof_val:
  assumes "\<not> SetCompact_negative c" "\<not> SetCompact_overflow c" "compact_exact c \<noteq> 0"
  shows "\<exists>w. GetBlockProof c = Ok w \<and> limbs_val w = 2 ^ 256 div (compact_exact c + 1) \<and> length w = WIDTH"
proof -
  let ?t = "compact_exact c"
  have v: "limbs_val (SetCompact c) = ?t" and lt: "?t < 2 ^ 256" using assms(2) SetCompact_overflow_iff [of c] by (simp_all add: SetCompact_val)
  have lt1: "?t + 1 < 2 ^ 256" using lt compact_exact_not_max [of c] by linarith
  have one: "limbs_val (base_uint_of 1) = 1" by (simp add: base_uint_of_val)
  have d: "limbs_val (base_add (SetCompact c) (base_uint_of 1)) = ?t + 1"
    using base_add_val(1) [of "SetCompact c" "base_uint_of 1"] lt1 by (simp add: v one)
  have n: "limbs_val (base_compl (SetCompact c)) = 2 ^ 256 - 1 - ?t" by (simp add: base_compl_val v)
  obtain q where q: "base_div (base_compl (SetCompact c)) (base_add (SetCompact c) (base_uint_of 1)) = Some q"
    using base_div_val(1) [of "base_compl (SetCompact c)" "base_add (SetCompact c) (base_uint_of 1)"] d
    by (cases "base_div (base_compl (SetCompact c)) (base_add (SetCompact c) (base_uint_of 1))") (auto simp: base_add_val(2))
  then have qv: "limbs_val q = (2 ^ 256 - 1 - ?t) div (?t + 1)" "length q = WIDTH"
    using base_div_val(2) [OF _ q] d n by (auto simp: base_add_val(2))
  have e: "(2 ^ 256 :: nat) = (2 ^ 256 - 1 - ?t) + (?t + 1)" using lt by linarith
  have "2 ^ 256 div (?t + 1) = (2 ^ 256 - 1 - ?t) div (?t + 1) + 1" by (subst e) (rule div_add_self2, simp)
  moreover have "2 ^ 256 div (?t + 1) < (2 ^ 256 :: nat)" using assms(3) by (intro div_less_dividend) simp_all
  ultimately have "limbs_val (base_add q (base_uint_of 1)) = 2 ^ 256 div (?t + 1)"
    using base_add_val(1) [of q "base_uint_of 1"] qv by (simp add: one)
  then show ?thesis using assms q v by (simp add: GetBlockProof_def Let_def EqualTo_0 base_add_val(2) qv(2))
qed

section \<open>The required target is within the limit\<close>

definition pow_params_ok :: "pow_params \<Rightarrow> bool" where
  "pow_params_ok params \<longleftrightarrow>
     0 < nPowAveragingWindow params \<and> 20 \<le> nPowAveragingWindow params * nPowTargetSpacing params \<and>
     nPowAveragingWindow params * nPowTargetSpacing params < 2 ^ 64 \<and>
     0 < LwmaAveragingWin params \<and> LwmaAveragingWin params \<le> LwmaHeight params \<and>
     LwmaAveragingWin params * (LwmaAveragingWin params + 1) * nPowTargetSpacing params < 2 ^ 64 \<and>
     unat (prePowLimit params) \<le> unat (powLimit params)"

definition within_limit :: "pow_params \<Rightarrow> (unit, uint32) outcome \<Rightarrow> bool" where
  "within_limit params r \<longleftrightarrow> (\<exists>c. r = Ok c \<and> compact_exact c \<le> unat (powLimit params))"

lemma within_limitI: "r = Ok c \<Longrightarrow> compact_exact c \<le> unat (powLimit params) \<Longrightarrow> within_limit params r"
  by (simp add: within_limit_def)

lemma sdiv_pos: "0 \<le> a \<Longrightarrow> 0 < b \<Longrightarrow> a sdiv b = a div (b :: int)"
  by (auto simp: signed_divide_int_def sgn_if)

lemma clip_limit:
  assumes "length a = WIDTH" "unat u \<le> unat (powLimit params)"
  shows "within_limit params (GetCompact False (if CompareTo a (uint_arith u) > 0 then uint_arith u else a))"
proof -
  have "CompareTo a (uint_arith u) > 0 \<longleftrightarrow> unat u < limbs_val a" using assms(1) by (simp add: CompareTo_val)
  then show ?thesis
    using GetCompact_le [of "uint_arith u" False] GetCompact_le [OF assms(1), of False] assms(2)
    by (auto simp: within_limit_def)
qed

lemma timespan_pos: "pow_params_ok params \<Longrightarrow> 0 < AveragingWindowTimespan params isFork \<and> AveragingWindowTimespan params isFork < 2 ^ 64"
proof -
  let ?w = "nPowAveragingWindow params * nPowTargetSpacing params"
  assume "pow_params_ok params"
  then have w: "20 \<le> ?w" "?w < 2 ^ 64" by (simp_all add: pow_params_ok_def)
  have "?w div 20 \<le> ?w" "1 \<le> ?w div 20" using w(1) by linarith+
  then show ?thesis using w by (simp add: AveragingWindowTimespan_def sdiv_pos)
qed

lemma window_bounds:
  assumes "pow_params_ok params"
  shows "0 < nPowTargetSpacing params" "0 < nPowAveragingWindow params" "nPowAveragingWindow params < 2 ^ 64"
proof -
  show w: "0 < nPowAveragingWindow params" using assms by (simp add: pow_params_ok_def)
  have "0 < nPowAveragingWindow params * nPowTargetSpacing params" using assms by (simp add: pow_params_ok_def)
  with w show T: "0 < nPowTargetSpacing params" by (simp add: zero_less_mult_iff)
  have "nPowAveragingWindow params * 1 \<le> nPowAveragingWindow params * nPowTargetSpacing params" using T w by (intro mult_left_mono) auto
  also have "\<dots> < 2 ^ 64" using assms by (simp add: pow_params_ok_def)
  finally show "nPowAveragingWindow params < 2 ^ 64" by simp
qed

lemma length_mul_int [simp]: "length (mul_int a n) = length a"
  by (simp add: mul_int_def base_mul32_val(2))

lemma IncreaseDifficultyBy_within:
  "0 < k \<Longrightarrow> k < 2 ^ 64 \<Longrightarrow> within_limit params (IncreaseDifficultyBy bits k params)"
  using div_int_val [of "SetCompact bits" k] clip_limit [of _ "powLimit params" params]
  by (auto simp: IncreaseDifficultyBy_def Let_def)

lemma CalculateNextWorkRequired_within:
  assumes "pow_params_ok params" "length bnAvg = WIDTH" "unat u \<le> unat (powLimit params)"
  shows "within_limit params (CalculateNextWorkRequired bnAvg l f params (uint_arith u) isFork)"
proof -
  obtain q where "div_int bnAvg (AveragingWindowTimespan params isFork) = Ok q" "length q = WIDTH"
    using div_int_val [OF assms(2)] timespan_pos [OF assms(1)] by blast
  then show ?thesis
    using clip_limit [OF _ assms(3)] by (simp add: CalculateNextWorkRequired_def Let_def)
qed

lemma ancestor_found:
  assumes "block_tree m" "m p = Some b" "0 \<le> h" "h \<le> nHeight b"
  shows "\<exists>q c. GetAncestor m p h = Ok (Some q) \<and> m q = Some c"
  using walk_exists [OF assms(1,2), of "nat (nHeight b - h)"] GetAncestor_walk [OF assms(1,2), of h] assms(3,4) by auto

lemma lwma_loop_total:
  assumes t: "block_tree m" "m p = Some b" and N: "0 < N" "N < 2 ^ 64" and k: "0 < k" "k < 2 ^ 64"
  shows "\<forall>i \<in> set is. 0 \<le> i \<and> i \<le> nHeight b \<Longrightarrow> length avg = WIDTH \<Longrightarrow>
    \<exists>s a. lwma_loop m p T N k is prev j sw avg = Ok (s, a) \<and> length a = WIDTH"
proof (induction "is" arbitrary: prev j sw avg)
  case (Cons i js)
  obtain q c where qc: "GetAncestor m p i = Ok (Some q)" "m q = Some c" using ancestor_found [OF t, of i] Cons.prems(1) by auto
  obtain t1 where t1: "div_int (SetCompact (bi_nBits c)) N = Ok t1" "length t1 = WIDTH" using div_int_val [of "SetCompact (bi_nBits c)" N] N by auto
  obtain t2 where t2: "div_int t1 k = Ok t2" "length t2 = WIDTH" using div_int_val [OF t1(2) k] by auto
  have "length (base_add avg t2) = WIDTH" using base_add_val(2) [of avg t2] t2(2) Cons.prems(2) by simp
  then show ?case using Cons.IH [of "base_add avg t2"] Cons.prems(1) qc t1(1) t2(1) by (simp add: Let_def)
qed simp

lemma LwmaCalculateNextWorkRequired_within:
  assumes t: "block_tree m" "m p = Some b" and ok: "pow_params_ok params" and h: "LwmaHeight params < nHeight b"
  shows "within_limit params (LwmaCalculateNextWorkRequired m p params)"
proof -
  let ?N = "LwmaAveragingWin params" and ?T = "nPowTargetSpacing params"
  let ?k = "(?N * (?N + 1) * ?T) sdiv 2"
  have N: "0 < ?N" "?N \<le> LwmaHeight params" "?N * (?N + 1) * ?T < 2 ^ 64" using ok by (simp_all add: pow_params_ok_def)
  have T: "0 < ?T" by (rule window_bounds(1) [OF ok])
  have "1 * 2 \<le> ?N * (?N + 1)" using N(1) by (intro mult_mono) auto
  then have M: "2 \<le> ?N * (?N + 1)" by simp
  have "?N * (?N + 1) * 1 \<le> ?N * (?N + 1) * ?T" using T M by (intro mult_left_mono) linarith+
  moreover have "?N * 1 \<le> ?N * (?N + 1)" using N(1) by (intro mult_left_mono) auto
  ultimately have K: "2 \<le> ?N * (?N + 1) * ?T" "?N < 2 ^ 64" using N(3) M by linarith+
  then have k: "0 < ?k" "?k < 2 ^ 64" using N(3) by (simp_all add: sdiv_pos)
  obtain q c where qc: "GetAncestor m p (nHeight b - ?N) = Ok (Some q)" "m q = Some c"
    using ancestor_found [OF t, of "nHeight b - ?N"] N h by auto
  obtain s a where l: "lwma_loop m p ?T ?N ?k [nHeight b - ?N + 1 .. nHeight b] (GetBlockTime c) 0 0 (replicate WIDTH 0) = Ok (s, a)"
      "length a = WIDTH"
    using lwma_loop_total [OF t N(1) K(2) k, of "[nHeight b - ?N + 1 .. nHeight b]" "replicate WIDTH 0" ?T "GetBlockTime c" 0 0] N(2) h by auto
  then show ?thesis
    using t(2) qc clip_limit [of "mul_int a s" "powLimit params" params] by (simp add: LwmaCalculateNextWorkRequired_def Let_def)
qed

lemma averaging_loop_total:
  assumes "block_tree m"
  shows "(\<forall>p. ptr = Some p \<longrightarrow> m p \<noteq> None) \<Longrightarrow> length tot = WIDTH \<Longrightarrow>
    \<exists>r a. averaging_loop m n ptr tot = Ok (r, a) \<and> length a = WIDTH \<and> (\<forall>p. r = Some p \<longrightarrow> m p \<noteq> None)"
proof (induction n arbitrary: ptr tot)
  case (Suc n)
  show ?case
  proof (cases ptr)
    case (Some p)
    then obtain b where b: "m p = Some b" using Suc.prems(1) by auto
    have "\<forall>q. pprev b = Some q \<longrightarrow> m q \<noteq> None" using assms b by (cases rule: parent_cases) auto
    then show ?thesis using Suc.IH [of "pprev b" "base_add tot (SetCompact (bi_nBits b))"] Suc.prems(2) Some b
      by (simp add: base_add_val(2))
  qed (use Suc.prems in auto)
qed simp

lemma GetMedianTimePast_total:
  assumes "block_tree m"
  shows "m p \<noteq> None \<Longrightarrow> \<exists>x. GetMedianTimePast m p = Ok x"
proof -
  have "(\<forall>p. ptr = Some p \<longrightarrow> m p \<noteq> None) \<Longrightarrow> \<exists>ts. median_times m n ptr = Ok ts" for n ptr
  proof (induction n arbitrary: ptr)
    case (Suc n)
    show ?case
    proof (cases ptr)
      case (Some p)
      then obtain b where b: "m p = Some b" using Suc.prems(1) by auto
      have "\<forall>q. pprev b = Some q \<longrightarrow> m q \<noteq> None" using assms b by (cases rule: parent_cases) auto
      then show ?thesis using Suc.IH [of "pprev b"] Some b by auto
    qed simp
  qed simp
  then show "m p \<noteq> None \<Longrightarrow> \<exists>x. GetMedianTimePast m p = Ok x" unfolding GetMedianTimePast_def by (metis option.inject rbind_simps(1))
qed

lemma upgrade_bits_within:
  assumes "compact_exact c \<le> unat (powLimit params)"
  shows "\<exists>r. upgrade_bits pblock idx c params = Ok r \<and> (\<forall>d. r = Some d \<longrightarrow> compact_exact d \<le> unat (powLimit params))"
  using assms IncreaseDifficultyBy_within [of 128 params c] IncreaseDifficultyBy_within [of 256 params c]
  by (auto simp: upgrade_bits_def Let_def within_limit_def split: option.splits)

lemma GetNextWorkRequired_within:
  assumes t: "block_tree m" "m p = Some b" and ok: "pow_params_ok params"
  shows "within_limit params (GetNextWorkRequired m (Some p) pblock params)"
proof -
  let ?h = "nHeight b + 1"
  define u where "u = (if \<not> isForkEnabled params ?h then prePowLimit params else powLimit params)"
  have u: "unat u \<le> unat (powLimit params)" using ok by (simp add: u_def pow_params_ok_def)
  obtain c where c: "GetCompact False (uint_arith u) = Ok c" "compact_exact c \<le> unat (powLimit params)"
    using GetCompact_le [of "uint_arith u" False] u by auto
  let ?up = "u64 ?h \<ge> EquihashParamsUpdate params \<and> u64 ?h < u64 (EquihashParamsUpdate params + nPowAveragingWindow params)"
  have "\<exists>early. (if ?up then upgrade_bits pblock b c params else Ok None) = Ok early \<and>
      (\<forall>d. early = Some d \<longrightarrow> compact_exact d \<le> unat (powLimit params))"
    using upgrade_bits_within [OF c(2), of pblock b] by (cases ?up) auto
  then obtain early where e: "(if ?up then upgrade_bits pblock b c params else Ok None) = Ok early"
      "\<forall>d. early = Some d \<longrightarrow> compact_exact d \<le> unat (powLimit params)" by blast
  have lwma: "u64 (nHeight b) > LwmaHeight params \<Longrightarrow> within_limit params (LwmaCalculateNextWorkRequired m p params)"
    using block_treeD [OF t] by (intro LwmaCalculateNextWorkRequired_within [OF t ok]) (auto simp: u64_def intro: less_le_trans zmod_le_nonneg_dividend)
  obtain r a where av: "averaging_loop m (nat (nPowAveragingWindow params)) (Some p) (replicate WIDTH 0) = Ok (r, a)" "length a = WIDTH"
      "\<forall>q. r = Some q \<longrightarrow> m q \<noteq> None"
    using averaging_loop_total [OF t(1), of "Some p" "replicate WIDTH 0" "nat (nPowAveragingWindow params)"] t(2) by auto
  have w: "0 < nPowAveragingWindow params" "nPowAveragingWindow params < 2 ^ 64"
    using window_bounds [OF ok] by simp_all
  obtain q where q: "div_int a (nPowAveragingWindow params) = Ok q" "length q = WIDTH" using div_int_val [OF av(2) w] by blast
  obtain tl where tl: "GetMedianTimePast m p = Ok tl" using GetMedianTimePast_total [OF t(1), of p] t(2) by auto
  have "within_limit params (rbind (GetMedianTimePast m f) (\<lambda>firstTime. CalculateNextWorkRequired q tl firstTime params (uint_arith u) isF))"
    if "r = Some f" for f isF
    using GetMedianTimePast_total [OF t(1), of f] av(3) that CalculateNextWorkRequired_within [OF ok q(2) u] by auto
  then show ?thesis
    unfolding GetNextWorkRequired_def bind.bind_lunit t(2) option.case Let_def u_def [symmetric] c(1) rbind_simps e(1)
    using e(2) c(2) lwma av(1) q(1) tl by (auto intro: within_limitI split: option.splits)
qed

section \<open>Properties\<close>

text \<open>
  C29: A hash passes the proof-of-work check exactly when the compact target is positive, is not above the limit of the
  chain, and the hash, read as a number, is not above the target. A compact word that overflows 256 bits never passes.
\<close>

theorem CheckProofOfWork_iff:
  "CheckProofOfWork hash bits params \<longleftrightarrow>
     \<not> SetCompact_negative bits \<and> 0 < compact_exact bits \<and> compact_exact bits \<le> unat (powLimit params) \<and>
     unat hash \<le> compact_exact bits"
proof (cases "SetCompact_overflow bits")
  case True
  then have "unat (powLimit params) < compact_exact bits"
    using unsigned_less [where ?'a = nat, of "powLimit params"] by (simp add: SetCompact_overflow_iff)
  with True show ?thesis by (simp add: CheckProofOfWork_def)
next
  case False
  then have "limbs_val (SetCompact bits) = compact_exact bits" by (simp add: SetCompact_overflow_iff SetCompact_val)
  with False show ?thesis by (auto simp: CheckProofOfWork_def Let_def EqualTo_0 CompareTo_val)
qed

text \<open>
  C30: The work of a block is always defined: zero for an unusable target, and otherwise the exact quotient of two to the 256
  by the target plus one, although two to the 256 itself does not fit the integers it is computed with.
\<close>

theorem GetBlockProof_exact:
  "\<exists>w. GetBlockProof c = Ok w \<and> length w = WIDTH \<and>
     limbs_val w = (if SetCompact_negative c \<or> 2 ^ 256 \<le> compact_exact c \<or> compact_exact c = 0 then 0
                    else 2 ^ 256 div (compact_exact c + 1))"
proof (cases "SetCompact_negative c \<or> SetCompact_overflow c \<or> compact_exact c = 0")
  case True
  have "\<not> SetCompact_overflow c \<Longrightarrow> compact_exact c = 0 \<Longrightarrow> limbs_val (SetCompact c) = 0" by (simp add: SetCompact_val)
  with True have "GetBlockProof c = Ok (base_uint_of 0)" by (auto simp: GetBlockProof_def Let_def EqualTo_0)
  with True show ?thesis unfolding SetCompact_overflow_iff [symmetric] by (simp add: base_uint_of_val)
next
  case False
  then show ?thesis unfolding SetCompact_overflow_iff [symmetric] using GetBlockProof_val [of c] by auto
qed

text \<open>
  C31: On every well-formed block tree, for every candidate block or none, the required target is computed without failing an
  assertion, dividing by zero or following a null pointer, and it is never easier than the limit of the chain. This
  holds on each of the paths: before the fork, around it, after the parameter upgrade, with the averaged
  retargeting and with the weighted one.
\<close>

theorem GetNextWorkRequired_bounded:
  assumes "block_tree m" and "m p = Some b" and "pow_params_ok params"
  shows "\<exists>c. GetNextWorkRequired m (Some p) pblock params = Ok c \<and> compact_exact c \<le> unat (powLimit params)"
  using GetNextWorkRequired_within [OF assms] by (simp add: within_limit_def)

lemma main_params_ok: "pow_params_ok main_params"
  by (simp add: pow_params_ok_def main_params_def)

theorem GetNextWorkRequired_bounded_witness:
  "\<exists>c. GetNextWorkRequired sample_tree (Some 4) (Some header_SetNull) main_params = Ok c \<and>
     compact_exact c \<le> unat (powLimit main_params)"
  by (rule GetNextWorkRequired_bounded [OF sample_tree_ok _ main_params_ok]) (simp add: sample_tree_def)

end
