(* ===== verification/Coins_Update.thy ===== *)
theory Coins_Update
  imports Coins_Views Pow
begin

text \<open>
  Connecting and disconnecting transactions: \<^verbatim>\<open>UpdateCoins\<close>, \<^verbatim>\<open>ApplyTxInUndo\<close> and \<^verbatim>\<open>DisconnectBlock\<close> of \<^verbatim>\<open>src/src/main.cpp\<close> over
  the views of \<^verbatim>\<open>src/src/coins.cpp\<close>, with the undo records of \<^verbatim>\<open>src/src/undo.h\<close>. \<open>cs\<close> is the view with the cache that is
  changed on top. The undo data of a block is an argument: it is what \<^verbatim>\<open>UndoReadFromDisk\<close> returned, if anything. Disconnecting a
  block is shown to restore the state before it was connected.
\<close>

section \<open>Undo records\<close>

record CTxInUndo =
  undo_txout :: CTxOut
  undo_fCoinBase :: bool
  undo_nHeight :: uint32
  undo_nVersion :: int

type_synonym CTxUndo = "CTxInUndo list"

record CBlockUndo =
  vtxundo :: "CTxUndo list"
  old_tree_root :: uint256

definition CTxInUndo_of :: "CTxOut \<Rightarrow> CTxInUndo" where
  "CTxInUndo_of txoutIn = \<lparr> undo_txout = txoutIn, undo_fCoinBase = False, undo_nHeight = 0, undo_nVersion = 0 \<rparr>"

section \<open>Connecting\<close>

text \<open>The change made through the modifier for one input; \<open>None\<close> is the failed assertion.\<close>

definition spend_output :: "uint32 \<Rightarrow> CCoins \<Rightarrow> CCoins \<times> CTxInUndo option" where
  "spend_output nPos coins =
     (if unat nPos \<ge> length (coins_vout coins) \<or> CTxOut_IsNull (coins_vout coins ! unat nPos) then (coins, None)
      else
        let undo = CTxInUndo_of (coins_vout coins ! unat nPos); (coins', _) = Spend coins nPos in
        (coins',
         Some (if length (coins_vout coins') = 0
               then undo\<lparr> undo_nHeight := word_of_int (coins_nHeight coins'), undo_fCoinBase := fCoinBase coins',
                          undo_nVersion := coins_nVersion coins' \<rparr>
               else undo)))"

fun spend_inputs ::
  "CCoinsViewDB \<Rightarrow> CCoinsViewCache list \<Rightarrow> COutPoint list \<Rightarrow> (unit, CTxUndo \<times> CCoinsViewCache list) outcome" where
  "spend_inputs db cs [] = Ok ([], cs)"
| "spend_inputs db cs (out # outs) =
     (case ModifyCoins db (hd cs) (tl cs) (prevout_hash out) (spend_output (prevout_n out)) of
        (None, _) \<Rightarrow> Abort
      | (Some undo, cs') \<Rightarrow> rbind (spend_inputs db cs' outs) (\<lambda>(undos, cs''). Ok (undo # undos, cs'')))"

fun set_nullifiers :: "CCoinsViewCache list \<Rightarrow> uint256 list \<Rightarrow> bool \<Rightarrow> CCoinsViewCache list" where
  "set_nullifiers cs [] spent = cs"
| "set_nullifiers cs (nf # nfs) spent = set_nullifiers (SetNullifier (hd cs) nf spent # tl cs) nfs spent"

definition tx_nullifiers :: "CTransaction \<Rightarrow> uint256 list" where
  "tx_nullifiers tx = concat (map nullifiers (vjoinsplit tx))"

definition UpdateCoins ::
  "(valtype \<Rightarrow> valtype) \<Rightarrow> CCoinsViewDB \<Rightarrow> CCoinsViewCache list \<Rightarrow> CTransaction \<Rightarrow> int \<Rightarrow>
     (unit, CTxUndo \<times> CCoinsViewCache list) outcome" where
  "UpdateCoins H db cs tx height =
     rbind (if \<not> IsCoinBase tx then spend_inputs db cs (map prevout (vin tx)) else Ok ([], cs)) (\<lambda>(txundo, cs1).
       let cs2 = set_nullifiers cs1 (tx_nullifiers tx) True in
       Ok (txundo, snd (ModifyCoins db (hd cs2) (tl cs2) (GetHash H tx) (\<lambda>_. (FromTx tx height, ())))))"

section \<open>Disconnecting\<close>

text \<open>The change for one undo record: the result is \<^verbatim>\<open>fClean\<close>, \<open>None\<close> a write outside the vector.\<close>

definition undo_output :: "CTxInUndo \<Rightarrow> uint32 \<Rightarrow> CCoins \<Rightarrow> CCoins \<times> bool option" where
  "undo_output undo n coins =
     (let (coins1, clean1) =
            (if undo_nHeight undo \<noteq> 0
             then (coins_Clear\<lparr> fCoinBase := undo_fCoinBase undo, coins_nHeight := sint (undo_nHeight undo),
                                coins_nVersion := undo_nVersion undo \<rparr>, IsPruned coins)
             else (coins, \<not> IsPruned coins));
          clean2 = (clean1 \<and> \<not> IsAvailable coins1 n);
          outs = coins_vout coins1;
          outs' = (if length outs < unat (n + 1) then outs @ replicate (unat (n + 1) - length outs) CTxOut_SetNull else outs) in
      if unat n \<ge> length outs' then (coins, None)
      else (coins1\<lparr> coins_vout := outs'[unat n := undo_txout undo] \<rparr>, Some clean2))"

definition ApplyTxInUndo ::
  "CCoinsViewDB \<Rightarrow> CCoinsViewCache list \<Rightarrow> CTxInUndo \<Rightarrow> COutPoint \<Rightarrow> (unit, bool \<times> CCoinsViewCache list) outcome" where
  "ApplyTxInUndo db cs undo out =
     (case ModifyCoins db (hd cs) (tl cs) (prevout_hash out) (undo_output undo (prevout_n out)) of
        (None, _) \<Rightarrow> Abort | (Some clean, cs') \<Rightarrow> Ok (clean, cs'))"

text \<open>The undo records of a transaction, from the last input to the first.\<close>

fun apply_undos ::
  "CCoinsViewDB \<Rightarrow> CCoinsViewCache list \<Rightarrow> (CTxInUndo \<times> COutPoint) list \<Rightarrow> (unit, bool \<times> CCoinsViewCache list) outcome" where
  "apply_undos db cs [] = Ok (True, cs)"
| "apply_undos db cs ((undo, out) # rest) =
     rbind (apply_undos db cs rest) (\<lambda>(clean, cs1).
       rbind (ApplyTxInUndo db cs1 undo out) (\<lambda>(clean1, cs2). Ok (clean \<and> clean1, cs2)))"

definition remove_outputs :: "CTransaction \<Rightarrow> int \<Rightarrow> CCoins \<Rightarrow> CCoins \<times> bool" where
  "remove_outputs tx height outs =
     (let outs1 = ClearUnspendable outs; outsBlock = FromTx tx height;
          outs2 = (if coins_nVersion outsBlock < 0 then outs1\<lparr> coins_nVersion := coins_nVersion outsBlock \<rparr> else outs1) in
      (coins_Clear, coins_equal outs2 outsBlock))"

text \<open>One round of the loop; \<open>undo\<close> is the record of the transaction when it is not a coinbase, and \<open>Err\<close> an inconsistency.\<close>

definition disconnect_tx ::
  "(valtype \<Rightarrow> valtype) \<Rightarrow> CCoinsViewDB \<Rightarrow> CCoinsViewCache list \<Rightarrow> CTransaction \<Rightarrow> int \<Rightarrow> CTxUndo option \<Rightarrow>
     (unit, bool \<times> CCoinsViewCache list) outcome" where
  "disconnect_tx H db cs tx height undo =
     (let (clean, cs1) = ModifyCoins db (hd cs) (tl cs) (GetHash H tx) (remove_outputs tx height);
          cs2 = set_nullifiers cs1 (tx_nullifiers tx) False in
      case undo of
        None \<Rightarrow> Ok (clean, cs2)
      | Some txundo \<Rightarrow>
          if length txundo \<noteq> length (vin tx) then Err ()
          else rbind (apply_undos db cs2 (zip txundo (map prevout (vin tx)))) (\<lambda>(clean', cs3). Ok (clean \<and> clean', cs3)))"

text \<open>The loop over the transactions, the last one first; \<open>i\<close> is the index of the first transaction of the list.\<close>

fun disconnect_txs ::
  "(valtype \<Rightarrow> valtype) \<Rightarrow> CCoinsViewDB \<Rightarrow> CCoinsViewCache list \<Rightarrow> int \<Rightarrow> int \<Rightarrow> CTxUndo list \<Rightarrow> nat \<Rightarrow> CTransaction list \<Rightarrow>
     (unit, bool \<times> CCoinsViewCache list) outcome" where
  "disconnect_txs H db cs height nNonCBIdx undos i [] = Ok (True, cs)"
| "disconnect_txs H db cs height nNonCBIdx undos i (tx # txs) =
     rbind (disconnect_txs H db cs height nNonCBIdx undos (Suc i) txs) (\<lambda>(clean, cs1).
       rbind (disconnect_tx H db cs1 tx height (if int i > nNonCBIdx then Some (undos ! (i - 1)) else None)) (\<lambda>(clean1, cs2).
         Ok (clean \<and> clean1, cs2)))"

record consensus_params =
  pow :: pow_params
  coinbaseMaturity :: int
  fCoinbaseMustBeProtected :: bool
  nSubsidySlowStartInterval :: int
  nSubsidyHalvingInterval :: int
  nUnmovedBurnHeight :: int
  zResetHeight :: int
  hashGenesisBlock :: uint256
  forkCBPerBlock :: int
  forkExtraHashSentinel :: uint256

text \<open>
  \<open>hashBlock\<close>, \<open>height\<close> and \<open>hashPrev\<close> come from the block index; \<open>undo\<close> is \<open>None\<close> when there is no undo data or it cannot be read. The
  result is \<^verbatim>\<open>fClean\<close> with the view.
\<close>

definition DisconnectBlock ::
  "(valtype \<Rightarrow> valtype) \<Rightarrow> consensus_params \<Rightarrow> CCoinsViewDB \<Rightarrow> CCoinsViewCache list \<Rightarrow> CTransaction list \<Rightarrow> uint256 \<Rightarrow> int \<Rightarrow> uint256 \<Rightarrow>
     CBlockUndo option \<Rightarrow> (unit, bool \<times> CCoinsViewCache list) outcome" where
  "DisconnectBlock H params db cs txs hashBlock height hashPrev undo =
     (case GetBestBlock db cs of
        (best, cs0) \<Rightarrow>
          if hashBlock \<noteq> best then Abort
          else
            (case undo of
               None \<Rightarrow> Err ()
             | Some blockUndo \<Rightarrow>
                 if length (vtxundo blockUndo) + 1 \<noteq> length txs then Err ()
                 else
                   rbind (disconnect_txs H db cs0 height (if isForkBlock (pow params) height then signed_take_bit 31 (forkCBPerBlock params) else 0)
                            (vtxundo blockUndo) 0 txs) (\<lambda>(clean, cs1).
                   rbind (PopAnchor db cs1 (old_tree_root blockUndo) (height \<ge> zResetHeight params)) (\<lambda>cs2.
                     Ok (clean, SetBestBlock hashPrev (hd cs2) # tl cs2)))))"

section \<open>Spending an output and undoing it\<close>

text \<open>
  The shape of the records that the node stores: spent outputs are the null output, none is at the end, and the height is
  that of a block after the first.
\<close>

definition coins_canonical :: "CCoins \<Rightarrow> bool" where
  "coins_canonical coins \<longleftrightarrow>
     list_all (\<lambda>txout. CTxOut_IsNull txout \<longrightarrow> txout = CTxOut_SetNull) (coins_vout coins) \<and>
     (coins_vout coins \<noteq> [] \<longrightarrow> \<not> CTxOut_IsNull (last (coins_vout coins))) \<and>
     length (coins_vout coins) < 2 ^ 32 \<and> 0 < coins_nHeight coins \<and> coins_nHeight coins < 2 ^ 31"

abbreviation strip :: "CTxOut list \<Rightarrow> CTxOut list" where
  "strip xs \<equiv> rev (dropWhile CTxOut_IsNull (rev xs))"

lemma null_SetNull [simp]: "CTxOut_IsNull CTxOut_SetNull"
  by (simp add: CTxOut_IsNull_def CTxOut_SetNull_def)

lemma strip_split:
  assumes "list_all (\<lambda>txout. CTxOut_IsNull txout \<longrightarrow> txout = CTxOut_SetNull) xs"
  shows "xs = strip xs @ replicate (length xs - length (strip xs)) CTxOut_SetNull"
proof -
  let ?t = "takeWhile CTxOut_IsNull (rev xs)"
  have "rev xs = ?t @ dropWhile CTxOut_IsNull (rev xs)" by simp
  then have "xs = strip xs @ rev ?t" by (metis rev_append rev_rev_ident)
  moreover have "\<forall>y \<in> set ?t. y = CTxOut_SetNull" using assms by (auto simp: list_all_iff dest: set_takeWhileD)
  then have "rev ?t = replicate (length ?t) CTxOut_SetNull" by (metis length_rev replicate_eqI set_rev)
  ultimately show ?thesis by (metis add_diff_cancel_left' length_append length_rev)
qed

lemma strip_last: "xs \<noteq> [] \<Longrightarrow> \<not> CTxOut_IsNull (last xs) \<Longrightarrow> strip xs = xs"
  by (cases xs rule: rev_cases) auto

lemma strip_last_not_null: "strip xs \<noteq> [] \<Longrightarrow> \<not> CTxOut_IsNull (last (strip xs))"
  by (simp add: last_rev hd_dropWhile)

lemma length_strip: "length (strip xs) \<le> length xs"
  using length_dropWhile_le [of CTxOut_IsNull "rev xs"] by simp

lemma strip_nth: "i < length (strip xs) \<Longrightarrow> strip xs ! i = xs ! i"
proof -
  have "rev xs = takeWhile CTxOut_IsNull (rev xs) @ dropWhile CTxOut_IsNull (rev xs)" by simp
  then have "xs = strip xs @ rev (takeWhile CTxOut_IsNull (rev xs))" by (metis rev_append rev_rev_ident)
  then show "i < length (strip xs) \<Longrightarrow> strip xs ! i = xs ! i" by (metis nth_append)
qed

lemma strip_beyond: "length (strip xs) \<le> i \<Longrightarrow> i < length xs \<Longrightarrow> CTxOut_IsNull (xs ! i)"
proof -
  assume i: "length (strip xs) \<le> i" "i < length xs"
  let ?t = "takeWhile CTxOut_IsNull (rev xs)"
  have "rev xs = ?t @ dropWhile CTxOut_IsNull (rev xs)" by simp
  then have xs: "xs = strip xs @ rev ?t" by (metis rev_append rev_rev_ident)
  then have "length xs = length (strip xs) + length (rev ?t)" by (metis length_append)
  with i xs have "xs ! i \<in> set (rev ?t)" by (metis add_less_imp_less_left le_add_diff_inverse nth_append nth_mem not_less)
  then show ?thesis by (auto dest: set_takeWhileD)
qed

lemma IsAvailable_Cleanup [simp]: "IsAvailable (Cleanup coins) n = IsAvailable coins n"
proof (cases "unat n < length (strip (coins_vout coins))")
  case True
  then show ?thesis using length_strip [of "coins_vout coins"] strip_nth [OF True]
    by (simp add: IsAvailable_def Cleanup_def del: length_rev)
next
  case False
  then show ?thesis using strip_beyond [of "coins_vout coins" "unat n"]
    by (auto simp: IsAvailable_def Cleanup_def simp del: length_rev)
qed

lemma Cleanup_canonical [simp]: "coins_canonical coins \<Longrightarrow> Cleanup coins = coins"
  by (cases "coins_vout coins = []") (simp_all add: Cleanup_def coins_canonical_def strip_last)

lemma canonical_pruned: "coins_canonical coins \<Longrightarrow> IsPruned coins \<longleftrightarrow> coins_vout coins = []"
  by (cases "coins_vout coins = []") (auto simp: coins_canonical_def IsPruned_def list_all_iff dest!: last_in_set)

lemma resize_strip:
  assumes null: "list_all (\<lambda>txout. CTxOut_IsNull txout \<longrightarrow> txout = CTxOut_SetNull) xs"
    and last: "\<not> CTxOut_IsNull (last xs)" and n: "n < length xs"
  defines "ys \<equiv> strip (xs[n := CTxOut_SetNull])"
  shows "(if length ys < n + 1 then ys @ replicate (n + 1 - length ys) CTxOut_SetNull else ys) = xs[n := CTxOut_SetNull]"
proof (cases "n + 1 = length xs")
  case True
  have ne: "xs \<noteq> []" using n by auto
  have all: "list_all (\<lambda>txout. CTxOut_IsNull txout \<longrightarrow> txout = CTxOut_SetNull) (xs[n := CTxOut_SetNull])"
    using null set_update_subset_insert by (fastforce simp: list_all_iff)
  have split: "xs[n := CTxOut_SetNull] = ys @ replicate (length xs - length ys) CTxOut_SetNull"
    using strip_split [OF all] by (simp add: ys_def)
  have "CTxOut_IsNull (last (xs[n := CTxOut_SetNull]))" using True ne by (auto simp: last_list_update)
  then have "ys \<noteq> xs[n := CTxOut_SetNull]" using strip_last_not_null ne by (metis list_update_nonempty ys_def)
  then have "length ys < n + 1" using split True by (metis append.right_neutral diff_is_0_eq' not_less replicate_0)
  then show ?thesis using split True by simp
next
  case False
  have ne: "xs[n := CTxOut_SetNull] \<noteq> []" using n by auto
  have "last (xs[n := CTxOut_SetNull]) = last xs" using False n ne by (simp add: last_conv_nth)
  then have "ys = xs[n := CTxOut_SetNull]" unfolding ys_def using strip_last [OF ne] last by simp
  then show ?thesis using False n by auto
qed

lemma spend_output_canonical:
  assumes c: "coins_canonical coins" and a: "IsAvailable coins n"
  obtains coins' undo where "spend_output n coins = (coins', Some undo)" "coins_canonical coins'"
    "coins' = coins\<lparr> coins_vout := strip ((coins_vout coins)[unat n := CTxOut_SetNull]) \<rparr>" 
    "undo = (if coins_vout coins' = []
       then \<lparr> undo_txout = coins_vout coins ! unat n, undo_fCoinBase = fCoinBase coins, undo_nHeight = word_of_int (coins_nHeight coins),
              undo_nVersion = coins_nVersion coins \<rparr>
       else CTxInUndo_of (coins_vout coins ! unat n))"
proof -
  let ?ys = "(coins_vout coins)[unat n := CTxOut_SetNull]"
  let ?c = "coins\<lparr> coins_vout := strip ?ys \<rparr>"
  have "list_all (\<lambda>txout. CTxOut_IsNull txout \<longrightarrow> txout = CTxOut_SetNull) ?ys"
    using c set_update_subset_insert by (fastforce simp: coins_canonical_def list_all_iff)
  then have "list_all (\<lambda>txout. CTxOut_IsNull txout \<longrightarrow> txout = CTxOut_SetNull) (strip ?ys)"
    by (auto simp: list_all_iff dest: set_dropWhileD)
  moreover have "length (strip ?ys) < 2 ^ 32"
    using c length_strip [of ?ys] by (simp add: coins_canonical_def del: length_rev)
  ultimately have can: "coins_canonical ?c"
    using c strip_last_not_null [of ?ys] by (simp add: coins_canonical_def)
  define zs where "zs = strip ?ys"
  have "Spend coins n = (coins\<lparr> coins_vout := zs \<rparr>, True)" using a by (simp add: Spend_def Cleanup_def IsAvailable_def zs_def)
  then have sp: "spend_output n coins = (coins\<lparr> coins_vout := zs \<rparr>, Some (if zs = []
       then \<lparr> undo_txout = coins_vout coins ! unat n, undo_fCoinBase = fCoinBase coins, undo_nHeight = word_of_int (coins_nHeight coins),
              undo_nVersion = coins_nVersion coins \<rparr>
       else CTxInUndo_of (coins_vout coins ! unat n)))"
    using a by (simp add: spend_output_def IsAvailable_def CTxInUndo_of_def)
  have can': "coins_canonical (coins\<lparr> coins_vout := zs \<rparr>)" using can by (simp only: zs_def)
  show thesis by (rule that [OF sp can']) (simp only: zs_def, simp)
qed

lemma index_no_wrap: assumes "unat (n :: uint32) < k" "k < 2 ^ 32" shows "unat (n + 1) = unat n + 1"
proof -
  have len: "LENGTH(32) = 32" by simp
  have "unat n + 1 < 2 ^ 32" using assms by linarith
  then have "unat n + unat (1 :: uint32) < 2 ^ LENGTH(32)" unfolding unat_1 len .
  then have "unat (n + 1) = unat n + unat (1 :: uint32)" by (rule unat_add_lem [THEN iffD1])
  then show ?thesis unfolding unat_1 .
qed

lemma undo_spend:
  assumes c: "coins_canonical coins" and a: "IsAvailable coins n" and s: "spend_output n coins = (coins', Some undo)"
    and p: "if IsPruned coins' then IsPruned p else p = coins'"
  shows "undo_output undo n p = (coins, Some True)"
proof -
  obtain c1 u1 where c1: "spend_output n coins = (c1, Some u1)" "coins_canonical c1"
    "c1 = coins\<lparr> coins_vout := strip ((coins_vout coins)[unat n := CTxOut_SetNull]) \<rparr>"
    "u1 = (if coins_vout c1 = []
       then \<lparr> undo_txout = coins_vout coins ! unat n, undo_fCoinBase = fCoinBase coins, undo_nHeight = word_of_int (coins_nHeight coins),
              undo_nVersion = coins_nVersion coins \<rparr>
       else CTxInUndo_of (coins_vout coins ! unat n))"
    by (rule spend_output_canonical [OF c a])
  have same: "c1 = coins'" "u1 = undo" using s c1(1) by simp_all
  note c' = c1(2) [unfolded same] and eq = c1(3) [unfolded same] and u = c1(4) [unfolded same]
  have n: "unat n < length (coins_vout coins)" using a by (simp add: IsAvailable_def)
  have h: "sint (word_of_int (coins_nHeight coins) :: uint32) = coins_nHeight coins"
    using c by (simp add: coins_canonical_def signed_of_int signed_take_bit_int_eq_self)
  then have h0: "(word_of_int (coins_nHeight coins) :: uint32) \<noteq> 0" using c by (auto simp: coins_canonical_def)
  have n1: "unat (n + 1) = unat n + 1" using c n by (intro index_no_wrap) (auto simp: coins_canonical_def)
  let ?d = "coins\<lparr> coins_vout := (coins_vout coins)[unat n := CTxOut_SetNull] \<rparr>"
  have "coins' = Cleanup ?d" by (simp add: eq Cleanup_def)
  then have gone: "\<not> IsAvailable coins' n" using n by (simp add: IsAvailable_def [of ?d])
  have last: "\<not> CTxOut_IsNull (last (coins_vout coins))" and
    nulls: "list_all (\<lambda>txout. CTxOut_IsNull txout \<longrightarrow> txout = CTxOut_SetNull) (coins_vout coins)"
    using c n by (auto simp: coins_canonical_def)
  let ?ys = "coins_vout coins'"
  have resized: "(if length ?ys < unat n + 1 then ?ys @ replicate (unat n + 1 - length ?ys) CTxOut_SetNull else ?ys) =
      (coins_vout coins)[unat n := CTxOut_SetNull]"
  proof -
    have "?ys = strip ((coins_vout coins)[unat n := CTxOut_SetNull])" by (simp add: eq)
    then show ?thesis using resize_strip [OF nulls last n] by (simp only:)
  qed
  show ?thesis
  proof (cases "?ys = []")
    case True
    then have "IsPruned coins'" by (simp add: IsPruned_def)
    then show ?thesis using True resized u h h0 n n1 p
      by (simp add: undo_output_def coins_Clear_def IsAvailable_def)
  next
    case False
    then have "\<not> IsPruned coins'" using canonical_pruned [OF c'] by simp
    moreover have "coins'\<lparr> coins_vout := (coins_vout coins)[unat n := coins_vout coins ! unat n] \<rparr> = coins" by (simp add: eq)
    ultimately show ?thesis using False resized u n n1 p gone
      by (cases "length ?ys < Suc (unat n)") (simp_all add: undo_output_def CTxInUndo_of_def)
  qed
qed

section \<open>Spending the inputs of a transaction and undoing it\<close>

definition map_canonical :: "(uint256 \<Rightarrow> CCoins option) \<Rightarrow> bool" where
  "map_canonical U \<longleftrightarrow> (\<forall>txid coins. U txid = Some coins \<longrightarrow> coins_canonical coins)"

definition output_available :: "(uint256 \<Rightarrow> CCoins option) \<Rightarrow> COutPoint \<Rightarrow> bool" where
  "output_available U out \<longleftrightarrow> (case U (prevout_hash out) of Some coins \<Rightarrow> IsAvailable coins (prevout_n out) | None \<Rightarrow> False)"

text \<open>\<open>changes_to db cs cs' S\<close>: the view \<open>cs'\<close> has the shape of \<open>cs\<close> and shows the state \<open>S\<close>.\<close>

definition changes_to :: "CCoinsViewDB \<Rightarrow> CCoinsViewCache list \<Rightarrow> CCoinsViewCache list \<Rightarrow> view_state \<Rightarrow> bool" where
  "changes_to db cs cs' S \<longleftrightarrow> view_ok db cs' \<and> length cs' = length cs \<and> view_abs db cs' = S"

lemma changes_to_trans: "changes_to db cs cs' S \<Longrightarrow> changes_to db cs' cs'' S' \<Longrightarrow> changes_to db cs cs'' S'"
  by (simp add: changes_to_def)

lemma st_unspent_abs [simp]: "st_unspent (view_abs db cs) = view_unspent db cs"
  by (simp add: view_abs_def)

lemma ModifyCoins_changes:
  assumes "view_ok db cs" "cs \<noteq> []" and f: "f (current_coins db cs txid) = (coins', r)"
  obtains cs' where "ModifyCoins db (hd cs) (tl cs) txid f = (r, cs')"
    "changes_to db cs cs' ((view_abs db cs)\<lparr> st_unspent := (view_unspent db cs)(txid := unspent (Some (Cleanup coins'))) \<rparr>)"
proof -
  obtain c base where cs: "cs = c # base" using assms(2) by (cases cs) auto
  show thesis
    by (rule ModifyCoins_abs [where c = c and base = base and db = db and f = f, OF _ f [unfolded cs]])
       (use assms(1) cs that in \<open>auto simp: changes_to_def\<close>)
qed

lemma unspent_map: "view_unspent db cs txid = Some coins \<Longrightarrow> \<not> IsPruned coins"
  by (auto simp: view_unspent_def unspent_def split: option.splits if_splits)

lemma unspent_Some [simp]: "unspent (Some coins) = (if IsPruned coins then None else Some coins)"
  by (simp add: unspent_def)

lemma IsAvailable_Spend_other:
  assumes "(n :: uint32) \<noteq> m"
  shows "IsAvailable (Cleanup (coins\<lparr> coins_vout := (coins_vout coins)[unat n := CTxOut_SetNull] \<rparr>)) m = IsAvailable coins m"
proof -
  have "unat n \<noteq> unat m" using assms by (metis unsigned_word_eqI)
  then show ?thesis by (simp add: IsAvailable_def [of "coins\<lparr> coins_vout := _ \<rparr>"] IsAvailable_def [of coins])
qed

lemma IsAvailable_not_pruned: "IsAvailable coins n \<Longrightarrow> \<not> IsPruned coins"
  by (auto simp: IsAvailable_def IsPruned_def list_all_length)

lemma spend_one:
  assumes ok: "view_ok db cs" "cs \<noteq> []" and can: "map_canonical (view_unspent db cs)" and av: "output_available (view_unspent db cs) out"
  obtains coins undo cs' coins' where "view_unspent db cs (prevout_hash out) = Some coins"
    "ModifyCoins db (hd cs) (tl cs) (prevout_hash out) (spend_output (prevout_n out)) = (Some undo, cs')"
    "changes_to db cs cs' ((view_abs db cs)\<lparr> st_unspent := (view_unspent db cs)(prevout_hash out := unspent (Some coins')) \<rparr>)"
    "coins_canonical coins'" "spend_output (prevout_n out) coins = (coins', Some undo)"
    "\<And>m. m \<noteq> prevout_n out \<Longrightarrow> IsAvailable coins' m = IsAvailable coins m"
proof -
  obtain coins where u: "view_unspent db cs (prevout_hash out) = Some coins" and a: "IsAvailable coins (prevout_n out)"
    using av by (auto simp: output_available_def split: option.splits)
  have c: "coins_canonical coins" using can u by (auto simp: map_canonical_def)
  obtain c1 u1 where sp: "spend_output (prevout_n out) coins = (c1, Some u1)" "coins_canonical c1"
    "c1 = coins\<lparr> coins_vout := strip ((coins_vout coins)[unat (prevout_n out) := CTxOut_SetNull]) \<rparr>"
    by (rule spend_output_canonical [OF c a])
  have other: "m \<noteq> prevout_n out \<Longrightarrow> IsAvailable c1 m = IsAvailable coins m" for m
    using IsAvailable_Spend_other [of "prevout_n out" m coins] by (simp add: sp(3) Cleanup_def)
  have "spend_output (prevout_n out) (current_coins db cs (prevout_hash out)) = (c1, Some u1)"
    using sp(1) current_coins_unspent [OF u] by simp
  then obtain cs' where "ModifyCoins db (hd cs) (tl cs) (prevout_hash out) (spend_output (prevout_n out)) = (Some u1, cs')"
    "changes_to db cs cs' ((view_abs db cs)\<lparr> st_unspent := (view_unspent db cs)(prevout_hash out := unspent (Some (Cleanup c1))) \<rparr>)"
    by (rule ModifyCoins_changes [OF ok])
  then show thesis using that [OF u _ _ sp(2,1) other] sp(2) by simp
qed

lemma undo_one:
  assumes ok: "view_ok db cs" "cs \<noteq> []" and c: "coins_canonical coins" "IsAvailable coins (prevout_n out)"
    and sp: "spend_output (prevout_n out) coins = (coins', Some undo)" "coins_canonical coins'"
    and u: "view_unspent db cs (prevout_hash out) = unspent (Some coins')"
  obtains cs' where "ApplyTxInUndo db cs undo out = Ok (True, cs')"
    "changes_to db cs cs' ((view_abs db cs)\<lparr> st_unspent := (view_unspent db cs)(prevout_hash out := Some coins) \<rparr>)"
proof -
  have "if IsPruned coins' then IsPruned (current_coins db cs (prevout_hash out)) else current_coins db cs (prevout_hash out) = coins'"
    using u current_coins_unspent [of db cs "prevout_hash out"] current_coins_pruned [of db cs "prevout_hash out"] by auto
  from undo_spend [OF c sp(1) this]
  obtain cs' where "ModifyCoins db (hd cs) (tl cs) (prevout_hash out) (undo_output undo (prevout_n out)) = (Some True, cs')"
    "changes_to db cs cs' ((view_abs db cs)\<lparr> st_unspent := (view_unspent db cs)(prevout_hash out := unspent (Some (Cleanup coins))) \<rparr>)"
    by (rule ModifyCoins_changes [OF ok])
  then show thesis using that c(1) IsAvailable_not_pruned [OF c(2)] by (simp add: ApplyTxInUndo_def)
qed

text \<open>\<open>undone db U' zs U\<close>: the undo records lead back from the unspent outputs \<open>U'\<close> to \<open>U\<close> in every view.\<close>

definition undone ::
  "CCoinsViewDB \<Rightarrow> (uint256 \<Rightarrow> CCoins option) \<Rightarrow> (CTxInUndo \<times> COutPoint) list \<Rightarrow> (uint256 \<Rightarrow> CCoins option) \<Rightarrow> bool" where
  "undone db U' zs U \<longleftrightarrow>
     (\<forall>cs. view_ok db cs \<and> cs \<noteq> [] \<and> view_unspent db cs = U' \<longrightarrow>
        (\<exists>cs'. apply_undos db cs zs = Ok (True, cs') \<and> changes_to db cs cs' ((view_abs db cs)\<lparr> st_unspent := U \<rparr>)))"

lemma changes_to_unspent: "changes_to db cs cs' S \<Longrightarrow> view_unspent db cs' = st_unspent S"
  by (auto simp: changes_to_def)

lemma changes_toD: "changes_to db cs cs' S \<Longrightarrow> view_ok db cs' \<and> length cs' = length cs \<and> view_abs db cs' = S"
  by (simp add: changes_to_def)

lemma undone_step:
  assumes rest: "undone db U' zs (U(prevout_hash out := unspent (Some coins')))"
    and c: "coins_canonical coins" "IsAvailable coins (prevout_n out)" "U (prevout_hash out) = Some coins"
    and sp: "spend_output (prevout_n out) coins = (coins', Some undo)" "coins_canonical coins'"
  shows "undone db U' ((undo, out) # zs) U"
  unfolding undone_def
proof (intro allI impI)
  fix cs assume cs: "view_ok db cs \<and> cs \<noteq> [] \<and> view_unspent db cs = U'"
  then obtain cs1 where 1: "apply_undos db cs zs = Ok (True, cs1)"
      "changes_to db cs cs1 ((view_abs db cs)\<lparr> st_unspent := U(prevout_hash out := unspent (Some coins')) \<rparr>)"
    using rest unfolding undone_def by blast
  have ok1: "view_ok db cs1" "cs1 \<noteq> []" using changes_toD [OF 1(2)] cs by auto
  have u1: "view_unspent db cs1 = U(prevout_hash out := unspent (Some coins'))" using changes_to_unspent [OF 1(2)] by (simp del: unspent_Some)
  then have "view_unspent db cs1 (prevout_hash out) = unspent (Some coins')" by (simp del: unspent_Some)
  from undo_one [OF ok1 c(1,2) sp this] obtain cs2 where 2: "ApplyTxInUndo db cs1 undo out = Ok (True, cs2)"
    "changes_to db cs1 cs2 ((view_abs db cs1)\<lparr> st_unspent := (view_unspent db cs1)(prevout_hash out := Some coins) \<rparr>)" by blast
  have "(view_unspent db cs1)(prevout_hash out := Some coins) = U" using u1 c(3) by (auto simp: fun_eq_iff)
  then have "changes_to db cs cs2 ((view_abs db cs)\<lparr> st_unspent := U \<rparr>)"
    using changes_to_trans [OF 1(2) 2(2)] changes_toD [OF 1(2)] by simp
  then show "\<exists>cs'. apply_undos db cs ((undo, out) # zs) = Ok (True, cs') \<and>
      changes_to db cs cs' ((view_abs db cs)\<lparr> st_unspent := U \<rparr>)" using 1(1) 2(1) by simp
qed

text \<open>The unspent outputs after outputs are spent one after the other, and after a transaction is connected.\<close>

fun spent_map :: "(uint256 \<Rightarrow> CCoins option) \<Rightarrow> COutPoint list \<Rightarrow> uint256 \<Rightarrow> CCoins option" where
  "spent_map U [] = U"
| "spent_map U (out # outs) =
     spent_map (U(prevout_hash out := unspent (Some (fst (spend_output (prevout_n out) (the (U (prevout_hash out)))))))) outs"

definition connected_map :: "(valtype \<Rightarrow> valtype) \<Rightarrow> (uint256 \<Rightarrow> CCoins option) \<Rightarrow> CTransaction \<Rightarrow> int \<Rightarrow> uint256 \<Rightarrow> CCoins option" where
  "connected_map H U tx height =
     (if IsCoinBase tx then U else spent_map U (map prevout (vin tx)))(GetHash H tx := unspent (Some (FromTx tx height)))"

lemma spend_inputs_undone:
  assumes "view_ok db cs" "cs \<noteq> []" "map_canonical (view_unspent db cs)" "distinct outs"
    "\<And>out. out \<in> set outs \<Longrightarrow> output_available (view_unspent db cs) out"
  shows "\<exists>undos cs' U'. spend_inputs db cs outs = Ok (undos, cs') \<and> length undos = length outs \<and>
      changes_to db cs cs' ((view_abs db cs)\<lparr> st_unspent := U' \<rparr>) \<and> map_canonical U' \<and> U' = spent_map (view_unspent db cs) outs \<and>
      (\<forall>k. view_unspent db cs k = None \<longrightarrow> U' k = None) \<and> undone db U' (zip undos outs) (view_unspent db cs)"
  using assms
proof (induction outs arbitrary: cs)
  case Nil
  then show ?case
    by (intro exI [of _ "[]"] exI [of _ cs] exI [of _ "view_unspent db cs"]) (auto simp: changes_to_def view_abs_def undone_def)
next
  case (Cons out outs)
  let ?U = "view_unspent db cs"
  have av: "output_available ?U out" using Cons.prems(5) by simp
  obtain coins undo cs1 coins' where s: "?U (prevout_hash out) = Some coins"
      "ModifyCoins db (hd cs) (tl cs) (prevout_hash out) (spend_output (prevout_n out)) = (Some undo, cs1)"
      "changes_to db cs cs1 ((view_abs db cs)\<lparr> st_unspent := ?U(prevout_hash out := unspent (Some coins')) \<rparr>)"
      "coins_canonical coins'" "spend_output (prevout_n out) coins = (coins', Some undo)"
    and other: "\<And>m. m \<noteq> prevout_n out \<Longrightarrow> IsAvailable coins' m = IsAvailable coins m"
    by (rule spend_one [OF Cons.prems(1,2,3) av]) blast
  let ?U1 = "?U(prevout_hash out := unspent (Some coins'))"
  have ok1: "view_ok db cs1" "cs1 \<noteq> []" using changes_toD [OF s(3)] Cons.prems(2) by auto
  have u1: "view_unspent db cs1 = ?U1" using changes_to_unspent [OF s(3)] by (simp del: unspent_Some)
  have can1: "map_canonical (view_unspent db cs1)" using Cons.prems(3) s(4) by (auto simp: u1 map_canonical_def)
  have av1: "output_available (view_unspent db cs1) o'" if "o' \<in> set outs" for o'
  proof -
    have "output_available ?U o'" using Cons.prems(5) that by simp
    moreover have "prevout_n o' \<noteq> prevout_n out" if "prevout_hash o' = prevout_hash out"
      using that \<open>o' \<in> set outs\<close> Cons.prems(4) by (metis COutPoint.expand distinct.simps(2))
    ultimately show ?thesis using s(1) other IsAvailable_not_pruned [of coins' "prevout_n o'"]
      by (auto simp: u1 output_available_def split: option.splits if_splits)
  qed
  from Cons.IH [OF ok1 can1 _ av1] Cons.prems(4) obtain undos cs' U' where
    r: "spend_inputs db cs1 outs = Ok (undos, cs')" "length undos = length outs"
      "changes_to db cs1 cs' ((view_abs db cs1)\<lparr> st_unspent := U' \<rparr>)" "map_canonical U'"
      "\<forall>k. view_unspent db cs1 k = None \<longrightarrow> U' k = None" "undone db U' (zip undos outs) (view_unspent db cs1)"
      "U' = spent_map (view_unspent db cs1) outs"
    by auto
  have a: "coins_canonical coins" "IsAvailable coins (prevout_n out)"
    using s(1) av Cons.prems(3) by (auto simp: output_available_def map_canonical_def)
  have "changes_to db cs cs' ((view_abs db cs)\<lparr> st_unspent := U' \<rparr>)"
    using changes_to_trans [OF s(3) r(3)] changes_toD [OF s(3)] by simp
  moreover have "\<forall>k. ?U k = None \<longrightarrow> U' k = None" using r(5) s(1) unfolding u1 by (metis fun_upd_other option.distinct(1))
  moreover have "U' = spent_map ?U (out # outs)" using r(7) s(1,5) by (simp add: u1)
  ultimately show ?case using undone_step [OF r(6) [unfolded u1] a s(1,5,4)] s(2) r(1,2,4) by auto
qed

lemma set_nullifiers_changes:
  assumes "view_ok db cs" "cs \<noteq> []"
  shows "changes_to db cs (set_nullifiers cs nfs spent)
    ((view_abs db cs)\<lparr> st_nullifier := (\<lambda>n. if n \<in> set nfs then spent else view_nullifier db cs n) \<rparr>)"
  using assms
proof (induction nfs arbitrary: cs)
  case Nil
  then show ?case by (simp add: changes_to_def view_abs_def)
next
  case (Cons nf nfs)
  obtain c base where cs: "cs = c # base" using Cons.prems(2) by (cases cs) auto
  let ?cs = "SetNullifier c nf spent # base"
  have ok: "view_ok db ?cs" and abs: "view_abs db ?cs = (view_abs db cs)\<lparr> st_nullifier := (view_nullifier db cs)(nf := spent) \<rparr>"
    using SetNullifier_abs [of db c base nf spent] Cons.prems(1) cs by simp_all
  have nul: "view_nullifier db ?cs = (view_nullifier db cs)(nf := spent)" using arg_cong [OF abs, of st_nullifier] by (simp add: view_abs_def)
  have "(\<lambda>n. if n \<in> set nfs then spent else view_nullifier db ?cs n) = (\<lambda>n. if n \<in> set (nf # nfs) then spent else view_nullifier db cs n)"
    unfolding nul by auto
  with Cons.IH [OF ok] show ?case by (simp add: cs changes_to_def abs [unfolded cs])
qed

section \<open>Connecting and disconnecting a transaction\<close>

lemma IsUnspendable_Nil: "\<not> IsUnspendable []"
  by (simp add: IsUnspendable_def)

lemma ClearUnspendable_pruned: "IsPruned coins \<Longrightarrow> IsPruned (ClearUnspendable coins)"
  by (auto simp: ClearUnspendable_def IsPruned_def Cleanup_def list_all_iff dest!: set_dropWhileD)

lemma strip_subset: "set (strip xs) \<subseteq> set xs"
  by (auto dest: set_dropWhileD)

lemma FromTx_spendable: "\<forall>txout \<in> set (coins_vout (FromTx tx height)). \<not> IsUnspendable (scriptPubKey txout)"
proof -
  have "\<not> IsUnspendable (scriptPubKey CTxOut_SetNull)" by (simp add: CTxOut_SetNull_def IsUnspendable_Nil)
  then show ?thesis using strip_subset by (auto simp: FromTx_def ClearUnspendable_def Cleanup_def dest!: set_dropWhileD)
qed

lemma ClearUnspendable_FromTx [simp]: "ClearUnspendable (FromTx tx height) = FromTx tx height"
proof -
  let ?f = "FromTx tx height"
  have "map (\<lambda>txout. if IsUnspendable (scriptPubKey txout) then CTxOut_SetNull else txout) (coins_vout ?f) = coins_vout ?f"
    using FromTx_spendable by (simp add: map_idI)
  then have "ClearUnspendable ?f = Cleanup ?f" by (simp add: ClearUnspendable_def)
  then show ?thesis by (simp add: FromTx_def ClearUnspendable_def)
qed

lemma FromTx_canonical:
  assumes "0 < height" "height < 2 ^ 31" "length (vout tx) < 2 ^ 32" "list_all (\<lambda>txout. 0 \<le> nValue txout) (vout tx)"
  shows "coins_canonical (FromTx tx height)"
proof -
  let ?outs = "map (\<lambda>txout. if IsUnspendable (scriptPubKey txout) then CTxOut_SetNull else txout) (vout tx)"
  have f: "coins_vout (FromTx tx height) = strip ?outs" "coins_nHeight (FromTx tx height) = height"
    by (simp_all add: FromTx_def ClearUnspendable_def Cleanup_def)
  have "list_all (\<lambda>txout. CTxOut_IsNull txout \<longrightarrow> txout = CTxOut_SetNull) ?outs"
    using assms(4) by (auto simp: list_all_iff CTxOut_IsNull_def)
  then have "list_all (\<lambda>txout. CTxOut_IsNull txout \<longrightarrow> txout = CTxOut_SetNull) (strip ?outs)"
    using strip_subset [of ?outs] unfolding list_all_iff by blast
  moreover have "length (strip ?outs) < 2 ^ 32" using length_strip [of ?outs] assms(3) by (simp only: length_map)
  ultimately show ?thesis using strip_last_not_null [of ?outs] assms(1,2) unfolding coins_canonical_def f by blast
qed

lemma remove_outputs_FromTx:
  assumes "if IsPruned (FromTx tx height) then IsPruned p else p = FromTx tx height"
  shows "remove_outputs tx height p = (coins_Clear, True)"
proof (cases "IsPruned (FromTx tx height)")
  case True
  then have "IsPruned (ClearUnspendable p)" using assms ClearUnspendable_pruned by simp
  then have "IsPruned ((ClearUnspendable p)\<lparr> coins_nVersion := v \<rparr>)" for v by (simp add: IsPruned_def)
  with True \<open>IsPruned (ClearUnspendable p)\<close> show ?thesis by (simp add: remove_outputs_def coins_equal_def Let_def)
next
  case False
  then show ?thesis using assms by (simp add: remove_outputs_def coins_equal_def Let_def)
qed

lemma UpdateCoins_outputs:
  assumes "view_ok db cs" "cs \<noteq> []"
  obtains cs' where "ModifyCoins db (hd cs) (tl cs) (GetHash H tx) (\<lambda>_. (FromTx tx height, ())) = ((), cs')"
    "changes_to db cs cs' ((view_abs db cs)\<lparr> st_unspent := (view_unspent db cs)(GetHash H tx := unspent (Some (FromTx tx height))) \<rparr>)"
proof -
  have "Cleanup (FromTx tx height) = FromTx tx height" by (simp add: FromTx_def ClearUnspendable_def)
  then show thesis using ModifyCoins_changes [OF assms, of "\<lambda>_. (FromTx tx height, ())" "GetHash H tx" "FromTx tx height" "()"] that by auto
qed

lemma disconnect_outputs:
  assumes "view_ok db cs" "cs \<noteq> []" "view_unspent db cs (GetHash H tx) = unspent (Some (FromTx tx height))"
  obtains cs' where "ModifyCoins db (hd cs) (tl cs) (GetHash H tx) (remove_outputs tx height) = (True, cs')"
    "changes_to db cs cs' ((view_abs db cs)\<lparr> st_unspent := (view_unspent db cs)(GetHash H tx := None) \<rparr>)"
proof -
  have "if IsPruned (FromTx tx height) then IsPruned (current_coins db cs (GetHash H tx))
      else current_coins db cs (GetHash H tx) = FromTx tx height"
    using assms(3) current_coins_unspent [of db cs "GetHash H tx"] current_coins_pruned [of db cs "GetHash H tx"] by auto
  note ModifyCoins_changes [where f = "remove_outputs tx height", OF assms(1,2) remove_outputs_FromTx [OF this]]
  moreover have "IsPruned (Cleanup coins_Clear)" by (simp add: IsPruned_def coins_Clear_def Cleanup_def)
  ultimately show thesis using that by auto
qed

text \<open>What \<^verbatim>\<open>ConnectBlock\<close> has checked of a transaction before it updates the coins.\<close>

definition tx_connectable :: "(valtype \<Rightarrow> valtype) \<Rightarrow> view_state \<Rightarrow> CTransaction \<Rightarrow> bool" where
  "tx_connectable H S tx \<longleftrightarrow>
     (IsCoinBase tx \<or>
       distinct (map prevout (vin tx)) \<and> list_all (output_available (st_unspent S)) (map prevout (vin tx))) \<and>
     st_unspent S (GetHash H tx) = None \<and> list_all (\<lambda>nf. \<not> st_nullifier S nf) (tx_nullifiers tx) \<and>
     list_all (\<lambda>txout. 0 \<le> nValue txout) (vout tx) \<and> length (vout tx) < 2 ^ 32"

text \<open>\<open>disconnects f db S' S\<close>: in every view of the coins and nullifiers of \<open>S'\<close>, \<open>f\<close> ends clean and leads back to those of \<open>S\<close>.\<close>

definition disconnects ::
  "(CCoinsViewCache list \<Rightarrow> (unit, bool \<times> CCoinsViewCache list) outcome) \<Rightarrow> CCoinsViewDB \<Rightarrow> view_state \<Rightarrow> view_state \<Rightarrow> bool" where
  "disconnects f db S' S \<longleftrightarrow>
     (\<forall>cs. view_ok db cs \<and> cs \<noteq> [] \<and> view_unspent db cs = st_unspent S' \<and> view_nullifier db cs = st_nullifier S' \<longrightarrow>
        (\<exists>cs'. f cs = Ok (True, cs') \<and>
           changes_to db cs cs' ((view_abs db cs)\<lparr> st_unspent := st_unspent S, st_nullifier := st_nullifier S \<rparr>)))"

lemma changes_to_nullifier: "changes_to db cs cs' S \<Longrightarrow> view_nullifier db cs' = st_nullifier S"
  by (auto simp: changes_to_def view_abs_def)

lemma st_commute: "(S :: view_state)\<lparr> st_nullifier := N, st_unspent := U \<rparr> = S\<lparr> st_unspent := U, st_nullifier := N \<rparr>"
  by simp

lemma UpdateCoins_inputs:
  assumes "view_ok db cs" "cs \<noteq> []" "map_canonical (view_unspent db cs)" "tx_connectable H (view_abs db cs) tx"
  obtains undos cs' U' where "(if \<not> IsCoinBase tx then spend_inputs db cs (map prevout (vin tx)) else Ok ([], cs)) = Ok (undos, cs')"
    "changes_to db cs cs' ((view_abs db cs)\<lparr> st_unspent := U' \<rparr>)" "map_canonical U'"
    "U' = (if IsCoinBase tx then view_unspent db cs else spent_map (view_unspent db cs) (map prevout (vin tx)))" "\<forall>k. view_unspent db cs k = None \<longrightarrow> U' k = None"
    "IsCoinBase tx \<longrightarrow> undos = [] \<and> U' = view_unspent db cs"
    "\<not> IsCoinBase tx \<longrightarrow> length undos = length (vin tx) \<and> undone db U' (zip undos (map prevout (vin tx))) (view_unspent db cs)"
proof (cases "IsCoinBase tx")
  case True
  have "changes_to db cs cs ((view_abs db cs)\<lparr> st_unspent := view_unspent db cs \<rparr>)"
    using assms(1) by (simp add: changes_to_def view_abs_def)
  with that [of "[]" cs "view_unspent db cs"] True assms(3) show ?thesis by simp
next
  case False
  then have "distinct (map prevout (vin tx))"
    "\<And>out. out \<in> set (map prevout (vin tx)) \<Longrightarrow> output_available (view_unspent db cs) out"
    using assms(4) by (auto simp: tx_connectable_def list_all_iff)
  from spend_inputs_undone [OF assms(1-3) this] that False show ?thesis by auto
qed

definition tx_undo :: "CTransaction \<Rightarrow> CTxUndo \<Rightarrow> CTxUndo option" where
  "tx_undo tx undos = (if IsCoinBase tx then None else Some undos)"

lemma disconnect_tx_back:
  assumes S: "st_unspent S (GetHash H tx) = None" "list_all (\<lambda>nf. \<not> st_nullifier S nf) (tx_nullifiers tx)"
    and U: "\<And>k. st_unspent S k = None \<Longrightarrow> U k = None"
      "IsCoinBase tx \<Longrightarrow> U = st_unspent S"
      "\<not> IsCoinBase tx \<Longrightarrow> length undos = length (vin tx) \<and> undone db U (zip undos (map prevout (vin tx))) (st_unspent S)"
    and S': "st_unspent S' = U(GetHash H tx := unspent (Some (FromTx tx height)))"
      "st_nullifier S' = (\<lambda>n. if n \<in> set (tx_nullifiers tx) then True else st_nullifier S n)"
  shows "disconnects (\<lambda>cs. disconnect_tx H db cs tx height (tx_undo tx undos)) db S' S"
  unfolding disconnects_def
proof (intro allI impI)
  fix cs
  assume "view_ok db cs \<and> cs \<noteq> [] \<and> view_unspent db cs = st_unspent S' \<and> view_nullifier db cs = st_nullifier S'"
  then have ok: "view_ok db cs" "cs \<noteq> []" and u: "view_unspent db cs = st_unspent S'" and nf: "view_nullifier db cs = st_nullifier S'"
    by simp_all
  have "view_unspent db cs (GetHash H tx) = unspent (Some (FromTx tx height))" using u S' by (simp del: unspent_Some)
  from disconnect_outputs [OF ok this] obtain cs1 where
    1: "ModifyCoins db (hd cs) (tl cs) (GetHash H tx) (remove_outputs tx height) = (True, cs1)"
      "changes_to db cs cs1 ((view_abs db cs)\<lparr> st_unspent := (view_unspent db cs)(GetHash H tx := None) \<rparr>)" by blast
  have "(view_unspent db cs)(GetHash H tx := None) = U" using u S'(1) U(1) [OF S(1)] by (auto simp: fun_eq_iff)
  note 1 = 1 [unfolded this]
  have ok1: "view_ok db cs1" "cs1 \<noteq> []" using changes_toD [OF 1(2)] ok by auto
  let ?cs2 = "set_nullifiers cs1 (tx_nullifiers tx) False"
  have "(\<lambda>n. if n \<in> set (tx_nullifiers tx) then False else view_nullifier db cs1 n) = st_nullifier S"
    using S(2) by (auto simp: changes_to_nullifier [OF 1(2)] nf S'(2) list_all_iff view_abs_def fun_eq_iff)
  then have 2: "changes_to db cs ?cs2 ((view_abs db cs)\<lparr> st_unspent := U, st_nullifier := st_nullifier S \<rparr>)"
    using changes_to_trans [OF 1(2) set_nullifiers_changes [OF ok1, of "tx_nullifiers tx" False]] changes_toD [OF 1(2)] by simp
  have ok2: "view_ok db ?cs2" "?cs2 \<noteq> []" using changes_toD [OF 2] ok by auto
  show "\<exists>cs'. disconnect_tx H db cs tx height (tx_undo tx undos) = Ok (True, cs') \<and>
      changes_to db cs cs' ((view_abs db cs)\<lparr> st_unspent := st_unspent S, st_nullifier := st_nullifier S \<rparr>)"
  proof (cases "IsCoinBase tx")
    case True
    then show ?thesis using 1(1) 2 U(2) by (simp add: disconnect_tx_def tx_undo_def)
  next
    case False
    have "view_unspent db ?cs2 = U" using changes_to_unspent [OF 2] by simp
    with U(3) [OF False] ok2 obtain cs3 where
      3: "apply_undos db ?cs2 (zip undos (map prevout (vin tx))) = Ok (True, cs3)"
        "changes_to db ?cs2 cs3 ((view_abs db ?cs2)\<lparr> st_unspent := st_unspent S \<rparr>)" unfolding undone_def by blast
    have "changes_to db cs cs3 ((view_abs db cs)\<lparr> st_unspent := st_unspent S, st_nullifier := st_nullifier S \<rparr>)"
      using changes_to_trans [OF 2 3(2)] changes_toD [OF 2] by (simp add: st_commute)
    then show ?thesis using 1(1) 3(1) U(3) [OF False] False by (simp add: disconnect_tx_def tx_undo_def)
  qed
qed

lemma UpdateCoins_disconnects:
  assumes ok: "view_ok db cs" "cs \<noteq> []" and can: "map_canonical (view_unspent db cs)"
    and tx: "tx_connectable H (view_abs db cs) tx" and h: "0 < height" "height < 2 ^ 31"
  obtains undos cs' U' N' where "UpdateCoins H db cs tx height = Ok (undos, cs')" "map_canonical U'"
    "U' = connected_map H (view_unspent db cs) tx height" "\<forall>k. view_unspent db cs k = None \<and> k \<noteq> GetHash H tx \<longrightarrow> U' k = None"
    "changes_to db cs cs' ((view_abs db cs)\<lparr> st_unspent := U', st_nullifier := N' \<rparr>)"
    "disconnects (\<lambda>cs. disconnect_tx H db cs tx height (tx_undo tx undos)) db (view_abs db cs') (view_abs db cs)"
proof -
  obtain undos cs1 U where 1: "(if \<not> IsCoinBase tx then spend_inputs db cs (map prevout (vin tx)) else Ok ([], cs)) = Ok (undos, cs1)"
    "changes_to db cs cs1 ((view_abs db cs)\<lparr> st_unspent := U \<rparr>)" "map_canonical U"
    "U = (if IsCoinBase tx then view_unspent db cs else spent_map (view_unspent db cs) (map prevout (vin tx)))"
    "\<forall>k. view_unspent db cs k = None \<longrightarrow> U k = None"
    "IsCoinBase tx \<longrightarrow> undos = [] \<and> U = view_unspent db cs"
    "\<not> IsCoinBase tx \<longrightarrow> length undos = length (vin tx) \<and> undone db U (zip undos (map prevout (vin tx))) (view_unspent db cs)"
    by (rule UpdateCoins_inputs [OF ok can tx])
  have ok1: "view_ok db cs1" "cs1 \<noteq> []" using changes_toD [OF 1(2)] ok by auto
  let ?cs2 = "set_nullifiers cs1 (tx_nullifiers tx) True"
  let ?N = "\<lambda>n. if n \<in> set (tx_nullifiers tx) then True else st_nullifier (view_abs db cs) n"
  have abs1: "view_abs db cs1 = (view_abs db cs)\<lparr> st_unspent := U \<rparr>" and nul: "view_nullifier db cs1 = st_nullifier (view_abs db cs)"
    using changes_toD [OF 1(2)] changes_to_nullifier [OF 1(2)] by simp_all
  have 2: "changes_to db cs ?cs2 ((view_abs db cs)\<lparr> st_unspent := U, st_nullifier := ?N \<rparr>)"
    using changes_to_trans [OF 1(2) set_nullifiers_changes [OF ok1, of "tx_nullifiers tx" True]] unfolding abs1 nul .
  have ok2: "view_ok db ?cs2" "?cs2 \<noteq> []" using changes_toD [OF 2] ok by auto
  obtain cs3 where 3: "ModifyCoins db (hd ?cs2) (tl ?cs2) (GetHash H tx) (\<lambda>_. (FromTx tx height, ())) = ((), cs3)"
    "changes_to db ?cs2 cs3 ((view_abs db ?cs2)\<lparr> st_unspent := (view_unspent db ?cs2)(GetHash H tx := unspent (Some (FromTx tx height))) \<rparr>)"
    by (rule UpdateCoins_outputs [OF ok2])
  let ?U = "U(GetHash H tx := unspent (Some (FromTx tx height)))"
  have 4: "changes_to db cs cs3 ((view_abs db cs)\<lparr> st_unspent := ?U, st_nullifier := ?N \<rparr>)"
    using changes_to_trans [OF 2 3(2)] changes_toD [OF 2] changes_to_unspent [OF 2] by (simp add: st_commute)
  have "coins_canonical (FromTx tx height)" using tx h by (intro FromTx_canonical) (simp_all add: tx_connectable_def)
  then have "map_canonical ?U" using 1(3) by (simp add: map_canonical_def)
  moreover have "UpdateCoins H db cs tx height = Ok (undos, cs3)" using 1(1) 3(1) by (simp add: UpdateCoins_def Let_def)
  moreover have "disconnects (\<lambda>cs. disconnect_tx H db cs tx height (tx_undo tx undos)) db (view_abs db cs3) (view_abs db cs)"
    using tx 1(5-7) changes_toD [OF 4] by (intro disconnect_tx_back [where U = U]) (auto simp: tx_connectable_def simp del: unspent_Some)
  moreover have "\<forall>k. view_unspent db cs k = None \<and> k \<noteq> GetHash H tx \<longrightarrow> ?U k = None" using 1(5) by simp
  moreover have "?U = connected_map H (view_unspent db cs) tx height" using 1(4) by (simp add: connected_map_def)
  ultimately show thesis using that 4 by blast
qed

end
