(* ===== verification/Tx_Check.thy ===== *)
theory Tx_Check
  imports Coins_Update Signature
begin

unbundle bit_operations_syntax

text \<open>
  The checks of transactions in \<^verbatim>\<open>src/src/main.cpp\<close>: those without context, the counts of signature operations, and the checks of
  the inputs against a view, with the readers of \<^verbatim>\<open>src/src/coins.cpp\<close> that they call and the validation state of
  \<^verbatim>\<open>src/src/consensus/validation.h\<close>. A check that returns false is \<open>Err\<close> with the state it leaves. The verification of a joinsplit
  proof and that of the signature over the joinsplits are arguments. Log lines and counters of metrics are left out.
\<close>

section \<open>The validation state\<close>

abbreviation (input) REJECT_INVALID :: byte where "REJECT_INVALID \<equiv> 0x10"
abbreviation (input) REJECT_OBSOLETE :: byte where "REJECT_OBSOLETE \<equiv> 0x11"
abbreviation (input) REJECT_NONSTANDARD :: byte where "REJECT_NONSTANDARD \<equiv> 0x40"

datatype mode_state = MODE_VALID | MODE_INVALID | MODE_ERROR

record CValidationState =
  mode :: mode_state
  nDoS :: int
  strRejectReason :: string
  chRejectCode :: byte
  corruptionPossible :: bool

definition CValidationState_new :: CValidationState where
  "CValidationState_new =
     \<lparr> mode = MODE_VALID, nDoS = 0, strRejectReason = '''', chRejectCode = 0, corruptionPossible = False \<rparr>"

definition DoS :: "int \<Rightarrow> byte \<Rightarrow> string \<Rightarrow> bool \<Rightarrow> CValidationState \<Rightarrow> CValidationState" where
  "DoS level code reason corruption state =
     (let state1 = state\<lparr> chRejectCode := code, strRejectReason := reason, corruptionPossible := corruption \<rparr> in
      if mode state = MODE_ERROR then state1
      else state1\<lparr> nDoS := nDoS state1 + level, mode := MODE_INVALID \<rparr>)"

definition Invalid :: "byte \<Rightarrow> string \<Rightarrow> CValidationState \<Rightarrow> CValidationState" where
  "Invalid code reason state = DoS 0 code reason False state"

definition Error :: "string \<Rightarrow> CValidationState \<Rightarrow> CValidationState" where
  "Error reason state =
     (let state1 = (if mode state = MODE_VALID then state\<lparr> strRejectReason := reason \<rparr> else state) in
      state1\<lparr> mode := MODE_ERROR \<rparr>)"

definition IsInvalid :: "CValidationState \<Rightarrow> int option" where
  "IsInvalid state = (if mode state = MODE_INVALID then Some (nDoS state) else None)"

type_synonym 'a check = "(CValidationState, 'a) outcome"

text \<open>A call that does not fail with an error of its own.\<close>

definition call :: "(unit, 'a) outcome \<Rightarrow> 'a check" where
  "call m = (case m of Ok x \<Rightarrow> Ok x | Abort \<Rightarrow> Abort | _ \<Rightarrow> Throw)"

definition ScriptErrorString :: "ScriptError \<Rightarrow> string" where
  "ScriptErrorString serror =
     (case serror of
        SCRIPT_ERR_OK \<Rightarrow> ''No error''
      | SCRIPT_ERR_EVAL_FALSE \<Rightarrow> ''Script evaluated without error but finished with a false/empty top stack element''
      | SCRIPT_ERR_VERIFY \<Rightarrow> ''Script failed an OP_VERIFY operation''
      | SCRIPT_ERR_EQUALVERIFY \<Rightarrow> ''Script failed an OP_EQUALVERIFY operation''
      | SCRIPT_ERR_CHECKMULTISIGVERIFY \<Rightarrow> ''Script failed an OP_CHECKMULTISIGVERIFY operation''
      | SCRIPT_ERR_CHECKSIGVERIFY \<Rightarrow> ''Script failed an OP_CHECKSIGVERIFY operation''
      | SCRIPT_ERR_NUMEQUALVERIFY \<Rightarrow> ''Script failed an OP_NUMEQUALVERIFY operation''
      | SCRIPT_ERR_SCRIPT_SIZE \<Rightarrow> ''Script is too big''
      | SCRIPT_ERR_PUSH_SIZE \<Rightarrow> ''Push value size limit exceeded''
      | SCRIPT_ERR_OP_COUNT \<Rightarrow> ''Operation limit exceeded''
      | SCRIPT_ERR_STACK_SIZE \<Rightarrow> ''Stack size limit exceeded''
      | SCRIPT_ERR_SIG_COUNT \<Rightarrow> ''Signature count negative or greater than pubkey count''
      | SCRIPT_ERR_PUBKEY_COUNT \<Rightarrow> ''Pubkey count negative or limit exceeded''
      | SCRIPT_ERR_BAD_OPCODE \<Rightarrow> ''Opcode missing or not understood''
      | SCRIPT_ERR_DISABLED_OPCODE \<Rightarrow> ''Attempted to use a disabled opcode''
      | SCRIPT_ERR_INVALID_STACK_OPERATION \<Rightarrow> ''Operation not valid with the current stack size''
      | SCRIPT_ERR_INVALID_ALTSTACK_OPERATION \<Rightarrow> ''Operation not valid with the current altstack size''
      | SCRIPT_ERR_OP_RETURN \<Rightarrow> ''OP_RETURN was encountered''
      | SCRIPT_ERR_UNBALANCED_CONDITIONAL \<Rightarrow> ''Invalid OP_IF construction''
      | SCRIPT_ERR_NEGATIVE_LOCKTIME \<Rightarrow> ''Negative locktime''
      | SCRIPT_ERR_UNSATISFIED_LOCKTIME \<Rightarrow> ''Locktime requirement not satisfied''
      | SCRIPT_ERR_SIG_HASHTYPE \<Rightarrow> ''Signature hash type missing or not understood''
      | SCRIPT_ERR_SIG_DER \<Rightarrow> ''Non-canonical DER signature''
      | SCRIPT_ERR_MINIMALDATA \<Rightarrow> ''Data push larger than necessary''
      | SCRIPT_ERR_SIG_PUSHONLY \<Rightarrow> ''Only non-push operators allowed in signatures''
      | SCRIPT_ERR_SIG_HIGH_S \<Rightarrow> ''Non-canonical signature: S value is unnecessarily high''
      | SCRIPT_ERR_SIG_NULLDUMMY \<Rightarrow> ''Dummy CHECKMULTISIG argument must be zero''
      | SCRIPT_ERR_MINIMALIF \<Rightarrow> ''OP_IF/NOTIF argument must be minimal''
      | SCRIPT_ERR_SIG_NULLFAIL \<Rightarrow> ''Signature must be zero for failed CHECK(MULTI)SIG operation''
      | SCRIPT_ERR_DISCOURAGE_UPGRADABLE_NOPS \<Rightarrow> ''NOPx reserved for soft-fork upgrades''
      | SCRIPT_ERR_DISCOURAGE_UPGRADABLE_WITNESS_PROGRAM \<Rightarrow> ''Witness version reserved for soft-fork upgrades''
      | SCRIPT_ERR_PUBKEYTYPE \<Rightarrow> ''Public key is neither compressed or uncompressed''
      | SCRIPT_ERR_CLEANSTACK \<Rightarrow> ''Extra items left on stack after execution''
      | SCRIPT_ERR_WITNESS_PROGRAM_WRONG_LENGTH \<Rightarrow> ''Witness program has incorrect length''
      | SCRIPT_ERR_WITNESS_PROGRAM_WITNESS_EMPTY \<Rightarrow> ''Witness program was passed an empty witness''
      | SCRIPT_ERR_WITNESS_PROGRAM_MISMATCH \<Rightarrow> ''Witness program hash mismatch''
      | SCRIPT_ERR_WITNESS_MALLEATED \<Rightarrow> ''Witness requires empty scriptSig''
      | SCRIPT_ERR_WITNESS_MALLEATED_P2SH \<Rightarrow> ''Witness requires only-redeemscript scriptSig''
      | SCRIPT_ERR_WITNESS_UNEXPECTED \<Rightarrow> ''Witness provided for non-witness script''
      | SCRIPT_ERR_WITNESS_PUBKEYTYPE \<Rightarrow> ''Using non-compressed keys in segwit''
      | SCRIPT_ERR_SEGWIT_LOCKED \<Rightarrow> ''Segwit fork outputs are currently locked pending full implementation''
      | SCRIPT_ERR_UNKNOWN_ERROR \<Rightarrow> ''unknown error''
      | SCRIPT_ERR_ERROR_COUNT \<Rightarrow> ''unknown error'')"

section \<open>Checks without context\<close>

abbreviation (input) MIN_TX_VERSION :: int where "MIN_TX_VERSION \<equiv> 1"
abbreviation (input) MAX_TX_SIZE :: nat where "MAX_TX_SIZE \<equiv> 100000"

definition IsFinalTx :: "CTransaction \<Rightarrow> int \<Rightarrow> int \<Rightarrow> bool" where
  "IsFinalTx tx nBlockHeight nBlockTime =
     (if nLockTime tx = 0 then True
      else if uint (nLockTime tx) < (if uint (nLockTime tx) < LOCKTIME_THRESHOLD then nBlockHeight else nBlockTime) then True
      else list_all CTxIn_IsFinal (vin tx))"

fun check_outputs :: "CValidationState \<Rightarrow> CAmount \<Rightarrow> CTxOut list \<Rightarrow> CAmount check" where
  "check_outputs state nValueOut [] = Ok nValueOut"
| "check_outputs state nValueOut (txout # outs) =
     (if nValue txout < 0 then Err (DoS 100 REJECT_INVALID ''bad-txns-vout-negative'' False state)
      else if nValue txout > MAX_MONEY then Err (DoS 100 REJECT_INVALID ''bad-txns-vout-toolarge'' False state)
      else if \<not> MoneyRange (nValueOut + nValue txout)
      then Err (DoS 100 REJECT_INVALID ''bad-txns-txouttotal-toolarge'' False state)
      else check_outputs state (nValueOut + nValue txout) outs)"

fun check_joinsplits :: "CValidationState \<Rightarrow> CAmount \<Rightarrow> JSDescription list \<Rightarrow> CAmount check" where
  "check_joinsplits state nValueOut [] = Ok nValueOut"
| "check_joinsplits state nValueOut (joinsplit # jss) =
     (if vpub_old joinsplit < 0 then Err (DoS 100 REJECT_INVALID ''bad-txns-vpub_old-negative'' False state)
      else if vpub_new joinsplit < 0 then Err (DoS 100 REJECT_INVALID ''bad-txns-vpub_new-negative'' False state)
      else if vpub_old joinsplit > MAX_MONEY then Err (DoS 100 REJECT_INVALID ''bad-txns-vpub_old-toolarge'' False state)
      else if vpub_new joinsplit > MAX_MONEY then Err (DoS 100 REJECT_INVALID ''bad-txns-vpub_new-toolarge'' False state)
      else if vpub_new joinsplit \<noteq> 0 \<and> vpub_old joinsplit \<noteq> 0
      then Err (DoS 100 REJECT_INVALID ''bad-txns-vpubs-both-nonzero'' False state)
      else if \<not> MoneyRange (nValueOut + vpub_old joinsplit)
      then Err (DoS 100 REJECT_INVALID ''bad-txns-txouttotal-toolarge'' False state)
      else check_joinsplits state (nValueOut + vpub_old joinsplit) jss)"

fun check_value_in :: "CValidationState \<Rightarrow> CAmount \<Rightarrow> JSDescription list \<Rightarrow> unit check" where
  "check_value_in state nValueIn [] = Ok ()"
| "check_value_in state nValueIn (it # jss) =
     (if \<not> in_int64 (nValueIn + vpub_new it) then Abort
      else if \<not> MoneyRange (vpub_new it) \<or> \<not> MoneyRange (nValueIn + vpub_new it)
      then Err (DoS 100 REJECT_INVALID ''bad-txns-txintotal-toolarge'' False state)
      else check_value_in state (nValueIn + vpub_new it) jss)"

text \<open>A loop that looks for each element in the set of those before it.\<close>

fun repeats :: "'a list \<Rightarrow> 'a list \<Rightarrow> bool" where
  "repeats seen [] = False"
| "repeats seen (x # xs) = (if x \<in> set seen then True else repeats (x # seen) xs)"

definition CheckTransactionWithoutProofVerification :: "CTransaction \<Rightarrow> CValidationState \<Rightarrow> unit check" where
  "CheckTransactionWithoutProofVerification tx state =
     (if nVersion tx < MIN_TX_VERSION then Err (DoS 100 REJECT_INVALID ''bad-txns-version-too-low'' False state)
      else if vin tx = [] \<and> vjoinsplit tx = [] then Err (DoS 10 REJECT_INVALID ''bad-txns-vin-empty'' False state)
      else if vout tx = [] \<and> vjoinsplit tx = [] then Err (DoS 10 REJECT_INVALID ''bad-txns-vout-empty'' False state)
      else if length (ser_CTransaction tx) > MAX_TX_SIZE then Err (DoS 100 REJECT_INVALID ''bad-txns-oversize'' False state)
      else
        rbind (check_outputs state 0 (vout tx)) (\<lambda>nValueOut.
        rbind (check_joinsplits state nValueOut (vjoinsplit tx)) (\<lambda>_.
        rbind (check_value_in state 0 (vjoinsplit tx)) (\<lambda>_.
          if repeats [] (map prevout (vin tx)) then Err (DoS 100 REJECT_INVALID ''bad-txns-inputs-duplicate'' False state)
          else if repeats [] (tx_nullifiers tx)
          then Err (DoS 100 REJECT_INVALID ''bad-joinsplits-nullifiers-duplicate'' False state)
          else if IsCoinBase tx then
            (if length (vjoinsplit tx) > 0 then Err (DoS 100 REJECT_INVALID ''bad-cb-has-joinsplits'' False state)
             else if length (scriptSig (hd (vin tx))) < 2 \<or> length (scriptSig (hd (vin tx))) > 100
             then Err (DoS 100 REJECT_INVALID ''bad-cb-length'' False state)
             else Ok ())
          else if list_ex (\<lambda>txin. COutPoint_IsNull (prevout txin)) (vin tx)
          then Err (DoS 10 REJECT_INVALID ''bad-txns-prevout-null'' False state)
          else Ok ()))))"

definition CheckTransaction ::
  "(JSDescription \<Rightarrow> uint256 \<Rightarrow> bool) \<Rightarrow> CTransaction \<Rightarrow> CValidationState \<Rightarrow> unit check" where
  "CheckTransaction js_Verify tx state =
     rbind (CheckTransactionWithoutProofVerification tx state) (\<lambda>_.
       if list_all (\<lambda>joinsplit. js_Verify joinsplit (joinSplitPubKey tx)) (vjoinsplit tx) then Ok ()
       else Err (DoS 100 REJECT_INVALID ''bad-txns-joinsplit-verification-failed'' False state))"

definition GetLegacySigOpCount :: "CTransaction \<Rightarrow> uint32" where
  "GetLegacySigOpCount tx =
     fold (\<lambda>txout n. n + of_nat (GetSigOpCount (scriptPubKey txout) False)) (vout tx)
       (fold (\<lambda>txin n. n + of_nat (GetSigOpCount (scriptSig txin) False)) (vin tx) 0)"

text \<open>\<open>verify\<close> is \<^verbatim>\<open>crypto_sign_verify_detached\<close>, with the signature, the message and the key.\<close>

definition CheckJoinSplitSigs ::
  "crypto_env \<Rightarrow> (valtype \<Rightarrow> uint256 \<Rightarrow> uint256 \<Rightarrow> bool) \<Rightarrow> CTransaction \<Rightarrow> CValidationState \<Rightarrow> uint32 \<Rightarrow> unit check" where
  "CheckJoinSplitSigs env verify tx state flags =
     (if length (vjoinsplit tx) > 0 then
        let fork = has_flag flags SCRIPT_VERIFY_FORKID;
            hashtype = (if fork then SIGHASH_ALL OR SIGHASH_FORKID else SIGHASH_ALL) in
        (case SignatureHash env [] tx NOT_AN_INPUT hashtype (if fork then FORKID_IN_USE else FORKID_NONE) of
           Ok dataToBeSigned \<Rightarrow>
             if verify (joinSplitSig tx) dataToBeSigned (joinSplitPubKey tx) then Ok ()
             else Err (DoS 100 REJECT_INVALID ''bad-txns-invalid-joinsplit-signature'' False state)
         | Abort \<Rightarrow> Abort
         | _ \<Rightarrow> Err (DoS 100 REJECT_INVALID ''error-computing-signature-hash'' False state))
      else Ok ())"

section \<open>Reading the inputs\<close>

definition GetOutputFor ::
  "CCoinsViewDB \<Rightarrow> CCoinsViewCache list \<Rightarrow> CTxIn \<Rightarrow> ('e, CTxOut \<times> CCoinsViewCache list) outcome" where
  "GetOutputFor db cs input =
     (case AccessCoins db (hd cs) (tl cs) (prevout_hash (prevout input)) of
        (Some coins, cs') \<Rightarrow>
          if IsAvailable coins (prevout_n (prevout input)) then Ok (coins_vout coins ! unat (prevout_n (prevout input)), cs') else Abort
      | (None, cs') \<Rightarrow> Abort)"

fun value_in ::
  "CCoinsViewDB \<Rightarrow> CCoinsViewCache list \<Rightarrow> CAmount \<Rightarrow> CTxIn list \<Rightarrow> ('e, CAmount \<times> CCoinsViewCache list) outcome" where
  "value_in db cs nResult [] = Ok (nResult, cs)"
| "value_in db cs nResult (txin # ins) =
     rbind (GetOutputFor db cs txin) (\<lambda>(txout, cs').
       if in_int64 (nResult + nValue txout) then value_in db cs' (nResult + nValue txout) ins else Abort)"

definition GetValueIn ::
  "CCoinsViewDB \<Rightarrow> CCoinsViewCache list \<Rightarrow> CTransaction \<Rightarrow> ('e, CAmount \<times> CCoinsViewCache list) outcome" where
  "GetValueIn db cs tx =
     (if IsCoinBase tx then Ok (0, cs)
      else
        rbind (value_in db cs 0 (vin tx)) (\<lambda>(nResult, cs').
        rbind (GetJoinSplitValueIn tx) (\<lambda>js.
          if in_int64 (nResult + js) then Ok (nResult + js, cs') else Abort)))"

fun have_inputs :: "CCoinsViewDB \<Rightarrow> CCoinsViewCache list \<Rightarrow> CTxIn list \<Rightarrow> bool \<times> CCoinsViewCache list" where
  "have_inputs db cs [] = (True, cs)"
| "have_inputs db cs (txin # ins) =
     (case AccessCoins db (hd cs) (tl cs) (prevout_hash (prevout txin)) of
        (Some coins, cs') \<Rightarrow> if IsAvailable coins (prevout_n (prevout txin)) then have_inputs db cs' ins else (False, cs')
      | (None, cs') \<Rightarrow> (False, cs'))"

definition HaveInputs :: "CCoinsViewDB \<Rightarrow> CCoinsViewCache list \<Rightarrow> CTransaction \<Rightarrow> bool \<times> CCoinsViewCache list" where
  "HaveInputs db cs tx = (if \<not> IsCoinBase tx then have_inputs db cs (vin tx) else (True, cs))"

fun any_nullifier :: "CCoinsViewDB \<Rightarrow> CCoinsViewCache list \<Rightarrow> uint256 list \<Rightarrow> bool \<times> CCoinsViewCache list" where
  "any_nullifier db cs [] = (False, cs)"
| "any_nullifier db cs (nf # nfs) =
     (case GetNullifier db cs nf of (spent, cs') \<Rightarrow> if spent then (True, cs') else any_nullifier db cs' nfs)"

text \<open>The loop over the joinsplits with the trees after those before; \<open>Throw\<close> is a full tree.\<close>

fun js_requirements ::
  "CCoinsViewDB \<Rightarrow> CCoinsViewCache list \<Rightarrow> bool \<Rightarrow> (uint256 \<times> ZCIncrementalMerkleTree) list \<Rightarrow> JSDescription list \<Rightarrow>
     (unit, bool \<times> CCoinsViewCache list) outcome" where
  "js_requirements db cs postBurn intermediates [] = Ok (True, cs)"
| "js_requirements db cs postBurn intermediates (joinsplit # jss) =
     (case any_nullifier db cs (nullifiers joinsplit) of
        (True, cs1) \<Rightarrow> Ok (False, cs1)
      | (False, cs1) \<Rightarrow>
          (case (case map_of intermediates (js_anchor joinsplit) of
                   Some t \<Rightarrow> (Some t, cs1) | None \<Rightarrow> GetAnchorAt db cs1 (js_anchor joinsplit) postBurn) of
             (None, cs2) \<Rightarrow> Ok (False, cs2)
           | (Some t, cs2) \<Rightarrow>
               rbind (imt_appends INCREMENTAL_MERKLE_TREE_DEPTH sha256_compress t (commitments joinsplit)) (\<lambda>t'.
                 js_requirements db cs2 postBurn
                   (case map_of intermediates (tree_root t') of None \<Rightarrow> (tree_root t', t') # intermediates | Some _ \<Rightarrow> intermediates)
                   jss)))"

definition HaveJoinSplitRequirements ::
  "CCoinsViewDB \<Rightarrow> CCoinsViewCache list \<Rightarrow> CTransaction \<Rightarrow> bool \<Rightarrow> (unit, bool \<times> CCoinsViewCache list) outcome" where
  "HaveJoinSplitRequirements db cs tx postBurn = js_requirements db cs postBurn [] (vjoinsplit tx)"

fun p2sh_sigops ::
  "CCoinsViewDB \<Rightarrow> CCoinsViewCache list \<Rightarrow> uint32 \<Rightarrow> CTxIn list \<Rightarrow> ('e, uint32 \<times> CCoinsViewCache list) outcome" where
  "p2sh_sigops db cs nSigOps [] = Ok (nSigOps, cs)"
| "p2sh_sigops db cs nSigOps (txin # ins) =
     rbind (GetOutputFor db cs txin) (\<lambda>(txout, cs').
       p2sh_sigops db cs'
         (if IsPayToScriptHash (scriptPubKey txout)
          then nSigOps + of_nat (GetSigOpCount_P2SH (scriptPubKey txout) (scriptSig txin)) else nSigOps) ins)"

definition GetP2SHSigOpCount ::
  "CCoinsViewDB \<Rightarrow> CCoinsViewCache list \<Rightarrow> CTransaction \<Rightarrow> ('e, uint32 \<times> CCoinsViewCache list) outcome" where
  "GetP2SHSigOpCount db cs tx = (if IsCoinBase tx then Ok (0, cs) else p2sh_sigops db cs 0 (vin tx))"

section \<open>Checks of the inputs\<close>

definition GetSpendHeight ::
  "block_map \<Rightarrow> CCoinsViewDB \<Rightarrow> CCoinsViewCache list \<Rightarrow> ('e, int \<times> CCoinsViewCache list) outcome" where
  "GetSpendHeight m db cs =
     (case GetBestBlock db cs of
        (best, cs') \<Rightarrow> (case m best of None \<Rightarrow> Abort | Some pindexPrev \<Rightarrow> Ok (nHeight pindexPrev + 1, cs')))"

text \<open>\<open>protect\<close> is \<^verbatim>\<open>fCoinbaseEnforcedProtectionEnabled\<close>.\<close>

fun check_inputs_loop ::
  "bool \<Rightarrow> consensus_params \<Rightarrow> CCoinsViewDB \<Rightarrow> CCoinsViewCache list \<Rightarrow> CTransaction \<Rightarrow> CValidationState \<Rightarrow> int \<Rightarrow> CAmount \<Rightarrow>
     CTxIn list \<Rightarrow> (CAmount \<times> CCoinsViewCache list) check" where
  "check_inputs_loop protect params db cs tx state nSpendHeight nValueIn [] = Ok (nValueIn, cs)"
| "check_inputs_loop protect params db cs tx state nSpendHeight nValueIn (txin # ins) =
     (case AccessCoins db (hd cs) (tl cs) (prevout_hash (prevout txin)) of
        (None, _) \<Rightarrow> Abort
      | (Some coins, cs') \<Rightarrow>
          if nUnmovedBurnHeight params \<noteq> 0 \<and> nSpendHeight > nUnmovedBurnHeight params \<and>
             coins_nHeight coins \<le> forkStartHeight (pow params) + forkHeightRange (pow params)
          then Err (Invalid REJECT_INVALID ''bad-txns-coins-burned'' state)
          else if fCoinBase coins \<and> nSpendHeight - coins_nHeight coins < coinbaseMaturity params
          then Err (Invalid REJECT_INVALID ''bad-txns-premature-spend-of-coinbase'' state)
          else if fCoinBase coins \<and> protect \<and> \<not> isForkBlock (pow params) (coins_nHeight coins) \<and>
                  fCoinbaseMustBeProtected params \<and> vout tx \<noteq> []
          then Err (Invalid REJECT_INVALID ''bad-txns-coinbase-spend-has-transparent-outputs'' state)
          else if unat (prevout_n (prevout txin)) \<ge> length (coins_vout coins) then Abort
          else
            let v = nValue (coins_vout coins ! unat (prevout_n (prevout txin))) in
            if \<not> in_int64 (nValueIn + v) then Abort
            else if \<not> MoneyRange v \<or> \<not> MoneyRange (nValueIn + v)
            then Err (DoS 100 REJECT_INVALID ''bad-txns-inputvalues-outofrange'' False state)
            else check_inputs_loop protect params db cs' tx state nSpendHeight (nValueIn + v) ins)"

definition CheckTxInputs ::
  "bool \<Rightarrow> consensus_params \<Rightarrow> CCoinsViewDB \<Rightarrow> CCoinsViewCache list \<Rightarrow> CTransaction \<Rightarrow> CValidationState \<Rightarrow> int \<Rightarrow>
     CCoinsViewCache list check" where
  "CheckTxInputs protect params db cs tx state nSpendHeight =
     (case HaveInputs db cs tx of
        (False, _) \<Rightarrow> Err (Invalid 0 '''' state)
      | (True, cs1) \<Rightarrow>
          rbind (call (HaveJoinSplitRequirements db cs1 tx (nSpendHeight > zResetHeight params))) (\<lambda>(met, cs2).
            if \<not> met then Err (Invalid 0 '''' state)
            else
              rbind (check_inputs_loop protect params db cs2 tx state nSpendHeight 0 (vin tx)) (\<lambda>(nIn, cs3).
              rbind (GetJoinSplitValueIn tx) (\<lambda>js.
                let nValueIn = nIn + js in
                if \<not> MoneyRange nValueIn then Err (DoS 100 REJECT_INVALID ''bad-txns-inputvalues-outofrange'' False state)
                else
                  rbind (GetValueOut tx) (\<lambda>nValueOut.
                    if nValueIn < nValueOut then Err (DoS 100 REJECT_INVALID ''bad-txns-in-belowout'' False state)
                    else
                      let nTxFee = nValueIn - nValueOut in
                      if nTxFee < 0 then Err (DoS 100 REJECT_INVALID ''bad-txns-fee-negative'' False state)
                      else if \<not> MoneyRange (0 + nTxFee) then Err (DoS 100 REJECT_INVALID ''bad-txns-fee-outofrange'' False state)
                      else Ok cs3)))))"

text \<open>What the checks call outside: the primitives of \<^verbatim>\<open>crypto_env\<close>, the verification of signatures and of joinsplits.\<close>

record check_env =
  ce_crypto :: crypto_env
  ce_ecdsa :: ecdsa
  ce_sign_verify :: "valtype \<Rightarrow> uint256 \<Rightarrow> uint256 \<Rightarrow> bool"
  ce_js_Verify :: "JSDescription \<Rightarrow> uint256 \<Rightarrow> bool"
  fCoinbaseEnforcedProtectionEnabled :: bool
  nScriptCheckThreads :: nat

record CScriptCheck =
  sc_scriptPubKey :: CScript
  sc_ptxTo :: CTransaction
  sc_nIn :: nat
  sc_nFlags :: uint32

definition CScriptCheck_of :: "CCoins \<Rightarrow> CTransaction \<Rightarrow> nat \<Rightarrow> uint32 \<Rightarrow> CScriptCheck" where
  "CScriptCheck_of txFromIn txToIn nInIn nFlagsIn =
     \<lparr> sc_scriptPubKey = scriptPubKey (coins_vout txFromIn ! unat (prevout_n (prevout (vin txToIn ! nInIn)))), sc_ptxTo = txToIn,
       sc_nIn = nInIn, sc_nFlags = nFlagsIn \<rparr>"

text \<open>The result with the error that \<^verbatim>\<open>GetScriptError\<close> returns.\<close>

definition CScriptCheck_run :: "check_env \<Rightarrow> CScriptCheck \<Rightarrow> (unit, bool \<times> ScriptError) outcome" where
  "CScriptCheck_run env check =
     (case VerifyScript (ce_crypto env) (TransactionSignatureChecker (ce_crypto env) (ce_ecdsa env) (sc_ptxTo check) (sc_nIn check))
             (sc_nFlags check) (scriptSig (vin (sc_ptxTo check) ! sc_nIn check)) (sc_scriptPubKey check) of
        Ok _ \<Rightarrow> Ok (True, SCRIPT_ERR_OK) | Err e \<Rightarrow> Ok (False, e) | Throw \<Rightarrow> Throw | Abort \<Rightarrow> Abort)"

abbreviation (input) STANDARD_NOT_MANDATORY_VERIFY_FLAGS :: uint32 where
  "STANDARD_NOT_MANDATORY_VERIFY_FLAGS \<equiv> STANDARD_SCRIPT_VERIFY_FLAGS AND NOT MANDATORY_SCRIPT_VERIFY_FLAGS"

text \<open>A check that is made at once.\<close>

definition script_check_now :: "check_env \<Rightarrow> CCoins \<Rightarrow> CTransaction \<Rightarrow> nat \<Rightarrow> uint32 \<Rightarrow> CValidationState \<Rightarrow> unit check" where
  "script_check_now env coins tx i flags state =
     rbind (call (CScriptCheck_run env (CScriptCheck_of coins tx i flags))) (\<lambda>(ok, err).
       if ok then Ok ()
       else
         rbind (if flags AND STANDARD_NOT_MANDATORY_VERIFY_FLAGS \<noteq> 0
                then call (CScriptCheck_run env (CScriptCheck_of coins tx i (flags AND NOT STANDARD_NOT_MANDATORY_VERIFY_FLAGS)))
                else Ok (False, err)) (\<lambda>(ok2, err2).
           if ok2 then
             Err (Invalid REJECT_NONSTANDARD (''non-mandatory-script-verify-flag ('' @ ScriptErrorString err2 @ '')'') state)
           else
             Err (DoS 100 REJECT_INVALID (''mandatory-script-verify-flag-failed ('' @ ScriptErrorString err @ '')'') False state)))"

text \<open>The loop over the inputs from \<open>i\<close>: a check is made at once, or put on the list that is returned.\<close>

fun script_checks ::
  "check_env \<Rightarrow> CCoinsViewDB \<Rightarrow> CCoinsViewCache list \<Rightarrow> CTransaction \<Rightarrow> CValidationState \<Rightarrow> uint32 \<Rightarrow> bool \<Rightarrow> nat \<Rightarrow> CTxIn list \<Rightarrow>
     (CScriptCheck list \<times> CCoinsViewCache list) check" where
  "script_checks env db cs tx state flags pvChecks i [] = Ok ([], cs)"
| "script_checks env db cs tx state flags pvChecks i (txin # ins) =
     (case AccessCoins db (hd cs) (tl cs) (prevout_hash (prevout txin)) of
        (None, _) \<Rightarrow> Abort
      | (Some coins, cs') \<Rightarrow>
          if unat (prevout_n (prevout txin)) \<ge> length (coins_vout coins) then Abort
          else
            rbind (if pvChecks then Ok [CScriptCheck_of coins tx i flags]
                   else rbind (script_check_now env coins tx i flags state) (\<lambda>_. Ok [])) (\<lambda>check.
            rbind (script_checks env db cs' tx state flags pvChecks (Suc i) ins) (\<lambda>(checks, cs'').
              Ok (check @ checks, cs''))))"

definition ContextualCheckInputs ::
  "check_env \<Rightarrow> consensus_params \<Rightarrow> block_map \<Rightarrow> CCoinsViewDB \<Rightarrow> CCoinsViewCache list \<Rightarrow> CTransaction \<Rightarrow> CValidationState \<Rightarrow> bool \<Rightarrow>
     uint32 \<Rightarrow> bool \<Rightarrow> (CScriptCheck list \<times> CCoinsViewCache list) check" where
  "ContextualCheckInputs env params m db cs tx state fScriptChecks flags pvChecks =
     (if \<not> IsCoinBase tx then
        rbind (GetSpendHeight m db cs) (\<lambda>(nSpendHeight, cs1).
        rbind (CheckTxInputs (fCoinbaseEnforcedProtectionEnabled env) params db cs1 tx state nSpendHeight) (\<lambda>cs2.
          if fScriptChecks then
            rbind (script_checks env db cs2 tx state flags pvChecks 0 (vin tx)) (\<lambda>(checks, cs3).
            rbind (CheckJoinSplitSigs (ce_crypto env) (ce_sign_verify env) tx state flags) (\<lambda>_. Ok (checks, cs3)))
          else Ok ([], cs2)))
      else Ok ([], cs))"

section \<open>The subsidy\<close>

definition SubsidySlowStartShift :: "consensus_params \<Rightarrow> int" where
  "SubsidySlowStartShift params = nSubsidySlowStartInterval params sdiv 2"

definition GetBlockSubsidy :: "int \<Rightarrow> consensus_params \<Rightarrow> ('e, CAmount) outcome" where
  "GetBlockSubsidy height params =
     (let nSubsidy = 1250000000; interval = nSubsidySlowStartInterval params in
      if height < interval sdiv 2 then if interval = 0 then Abort else Ok ((nSubsidy sdiv interval) * height)
      else if height < interval then if interval = 0 then Abort else Ok ((nSubsidy sdiv interval) * (height + 1))
      else if \<not> height > SubsidySlowStartShift params then Abort
      else
        let halvingInterval = (if isForkEnabled (pow params) height then drop_bit 2 (nSubsidyHalvingInterval params)
                               else nSubsidyHalvingInterval params) in
        if halvingInterval = 0 then Abort
        else
          let halvings = (height - SubsidySlowStartShift params) sdiv halvingInterval + (if isForkEnabled (pow params) height then 2 else 0) in
          if halvings \<ge> 64 then Ok 0
          else if halvings < 0 then Abort
          else Ok (drop_bit (nat halvings) nSubsidy))"

section \<open>What a transaction accepted without context is\<close>

definition tx_well_formed :: "CTransaction \<Rightarrow> bool" where
  "tx_well_formed tx \<longleftrightarrow>
     1 \<le> nVersion tx \<and> (vin tx \<noteq> [] \<or> vjoinsplit tx \<noteq> []) \<and> (vout tx \<noteq> [] \<or> vjoinsplit tx \<noteq> []) \<and>
     length (ser_CTransaction tx) \<le> 100000 \<and>
     list_all MoneyRange (map nValue (vout tx)) \<and>
     list_all (\<lambda>js. MoneyRange (vpub_old js) \<and> MoneyRange (vpub_new js) \<and> (vpub_old js = 0 \<or> vpub_new js = 0)) (vjoinsplit tx) \<and>
     MoneyRange (sum_list (map nValue (vout tx)) + sum_list (map vpub_old (vjoinsplit tx))) \<and>
     MoneyRange (sum_list (map vpub_new (vjoinsplit tx))) \<and>
     distinct (map prevout (vin tx)) \<and> distinct (tx_nullifiers tx) \<and>
     (if IsCoinBase tx then vjoinsplit tx = [] \<and> length (scriptSig (hd (vin tx))) \<in> {2..100}
      else list_all (\<lambda>txin. \<not> COutPoint_IsNull (prevout txin)) (vin tx))"

text \<open>The result is an acceptance exactly under a condition, and a penalty otherwise.\<close>

definition penalty :: "CValidationState \<Rightarrow> CValidationState \<Rightarrow> bool" where
  "penalty state state' \<longleftrightarrow>
     (\<exists>level reason. state' = DoS level REJECT_INVALID reason False state \<and> (level = 10 \<or> level = 100))"

definition decides :: "CValidationState \<Rightarrow> 'a check \<Rightarrow> bool \<Rightarrow> 'a \<Rightarrow> bool" where
  "decides state r b x \<longleftrightarrow> (if b then r = Ok x else \<exists>state'. r = Err state' \<and> penalty state state')"

lemma decides_bind:
  "decides state m b x \<Longrightarrow> (b \<Longrightarrow> decides state (f x) b' y) \<Longrightarrow> decides state (rbind m f) (b \<and> b') y"
  by (auto simp: decides_def split: if_splits)

lemma decides_if:
  "(\<not> c \<Longrightarrow> decides state m b x) \<Longrightarrow> level = 10 \<or> level = 100 \<Longrightarrow>
   decides state (if c then Err (DoS level REJECT_INVALID reason False state) else m) (\<not> c \<and> b) x"
  unfolding decides_def penalty_def by (cases c; cases b) auto

lemma decides_Ok: "decides state (Ok x) True x"
  by (simp add: decides_def)

lemma decides_cong: "decides state m b x \<Longrightarrow> b = b' \<Longrightarrow> (b \<Longrightarrow> x = y) \<Longrightarrow> decides state m b' y"
  by (auto simp: decides_def)

lemma MoneyRange_value: "MoneyRange (x + y) \<longleftrightarrow> 0 \<le> x + y \<and> x + y \<le> MAX_MONEY"
  "MoneyRange (nValue txout) \<longleftrightarrow> 0 \<le> nValue txout \<and> nValue txout \<le> MAX_MONEY"
  "MoneyRange (vpub_old js) \<longleftrightarrow> 0 \<le> vpub_old js \<and> vpub_old js \<le> MAX_MONEY"
  "MoneyRange (vpub_new js) \<longleftrightarrow> 0 \<le> vpub_new js \<and> vpub_new js \<le> MAX_MONEY"
  by (simp_all add: MoneyRange_def)

lemma MoneyRange_bounds: "MoneyRange acc \<Longrightarrow> 0 \<le> acc \<and> acc \<le> MAX_MONEY"
  by (simp add: MoneyRange_def)

lemma sum_nonneg: "list_all MoneyRange vs \<Longrightarrow> 0 \<le> sum_list vs"
  by (induction vs) (auto simp: MoneyRange_def)

lemma check_outputs_decides:
  "MoneyRange acc \<Longrightarrow>
   decides state (check_outputs state acc outs)
     (list_all MoneyRange (map nValue outs) \<and> MoneyRange (acc + sum_list (map nValue outs))) (acc + sum_list (map nValue outs))"
proof (induction outs arbitrary: acc)
  case Nil
  then show ?case by (simp add: decides_def)
next
  case (Cons txout outs)
  let ?b = "list_all MoneyRange (map nValue outs) \<and> MoneyRange (acc + nValue txout + sum_list (map nValue outs))"
  have "decides state (check_outputs state acc (txout # outs))
    (\<not> nValue txout < 0 \<and> \<not> MAX_MONEY < nValue txout \<and> \<not> \<not> MoneyRange (acc + nValue txout) \<and> ?b)
    (acc + nValue txout + sum_list (map nValue outs))"
    unfolding check_outputs.simps by (intro decides_if Cons.IH) simp_all
  then show ?case
    by (rule decides_cong) (use sum_nonneg [of "map nValue outs"] MoneyRange_bounds [OF Cons.prems] in \<open>auto simp: MoneyRange_value\<close>)
qed

lemma check_joinsplits_decides:
  "MoneyRange acc \<Longrightarrow>
   decides state (check_joinsplits state acc jss)
     (list_all (\<lambda>js. MoneyRange (vpub_old js) \<and> MoneyRange (vpub_new js) \<and> (vpub_old js = 0 \<or> vpub_new js = 0)) jss \<and>
      MoneyRange (acc + sum_list (map vpub_old jss))) (acc + sum_list (map vpub_old jss))"
proof (induction jss arbitrary: acc)
  case Nil
  then show ?case by (simp add: decides_def)
next
  case (Cons js jss)
  let ?p = "\<lambda>js. MoneyRange (vpub_old js) \<and> MoneyRange (vpub_new js) \<and> (vpub_old js = 0 \<or> vpub_new js = 0)"
  let ?b = "list_all ?p jss \<and> MoneyRange (acc + vpub_old js + sum_list (map vpub_old jss))"
  have s: "list_all ?p jss \<Longrightarrow> 0 \<le> sum_list (map vpub_old jss)" using sum_nonneg [of "map vpub_old jss"] by (auto simp: list_all_iff)
  have "decides state (check_joinsplits state acc (js # jss))
    (\<not> vpub_old js < 0 \<and> \<not> vpub_new js < 0 \<and> \<not> MAX_MONEY < vpub_old js \<and> \<not> MAX_MONEY < vpub_new js \<and>
     \<not> (vpub_new js \<noteq> 0 \<and> vpub_old js \<noteq> 0) \<and> \<not> \<not> MoneyRange (acc + vpub_old js) \<and> ?b) (acc + vpub_old js + sum_list (map vpub_old jss))"
    unfolding check_joinsplits.simps by (intro decides_if Cons.IH) simp_all
  then show ?case by (rule decides_cong) (use s MoneyRange_bounds [OF Cons.prems] in \<open>auto simp: MoneyRange_value\<close>)
qed

lemma check_value_in_decides:
  "MoneyRange acc \<Longrightarrow> list_all MoneyRange (map vpub_new jss) \<Longrightarrow>
   decides state (check_value_in state acc jss) (MoneyRange (acc + sum_list (map vpub_new jss))) ()"
proof (induction jss arbitrary: acc)
  case Nil
  then show ?case by (simp add: decides_def)
next
  case (Cons js jss)
  have i: "in_int64 (acc + vpub_new js)" using Cons.prems by (auto simp: MoneyRange_def in_int64_def)
  have "decides state (check_value_in state acc (js # jss))
    (\<not> (\<not> MoneyRange (vpub_new js) \<or> \<not> MoneyRange (acc + vpub_new js)) \<and> MoneyRange (acc + vpub_new js + sum_list (map vpub_new jss))) ()"
    unfolding check_value_in.simps using i Cons.prems by (simp only: not_True_eq_False if_False) (intro decides_if Cons.IH, simp_all)
  then show ?case
    by (rule decides_cong) (use sum_nonneg [of "map vpub_new jss"] MoneyRange_bounds [OF Cons.prems(1)] Cons.prems(2) in \<open>auto simp: MoneyRange_value\<close>)
qed

lemma repeats_distinct: "repeats seen xs \<longleftrightarrow> \<not> (distinct xs \<and> set xs \<inter> set seen = {})"
  by (induction xs arbitrary: seen) auto

lemma CheckTransactionWithoutProofVerification_decides:
  "decides state (CheckTransactionWithoutProofVerification tx state) (tx_well_formed tx) ()"
proof -
  let ?so = "sum_list (map nValue (vout tx))"
  let ?p = "\<lambda>js. MoneyRange (vpub_old js) \<and> MoneyRange (vpub_new js) \<and> (vpub_old js = 0 \<or> vpub_new js = 0)"
  let ?outs = "list_all MoneyRange (map nValue (vout tx)) \<and> MoneyRange (0 + ?so)"
  let ?js = "list_all ?p (vjoinsplit tx) \<and> MoneyRange (0 + ?so + sum_list (map vpub_old (vjoinsplit tx)))"
  let ?cb = "if IsCoinBase tx then \<not> length (vjoinsplit tx) > 0 \<and>
      \<not> (length (scriptSig (hd (vin tx))) < 2 \<or> length (scriptSig (hd (vin tx))) > 100) \<and> True
    else \<not> list_ex (\<lambda>txin. COutPoint_IsNull (prevout txin)) (vin tx) \<and> True"
  have z: "MoneyRange 0" by (simp add: MoneyRange_def)
  have cb: "decides state
      (if IsCoinBase tx then
            (if length (vjoinsplit tx) > 0 then Err (DoS 100 REJECT_INVALID ''bad-cb-has-joinsplits'' False state)
             else if length (scriptSig (hd (vin tx))) < 2 \<or> length (scriptSig (hd (vin tx))) > 100
             then Err (DoS 100 REJECT_INVALID ''bad-cb-length'' False state)
             else Ok ())
          else if list_ex (\<lambda>txin. COutPoint_IsNull (prevout txin)) (vin tx)
          then Err (DoS 10 REJECT_INVALID ''bad-txns-prevout-null'' False state)
          else Ok ()) ?cb ()"
  proof (cases "IsCoinBase tx")
    case True
    then show ?thesis by (simp only: if_True) (intro decides_if decides_Ok, simp_all)
  next
    case False
    then show ?thesis by (simp only: if_False) (intro decides_if decides_Ok, simp_all)
  qed
  have "decides state (CheckTransactionWithoutProofVerification tx state)
    (\<not> nVersion tx < 1 \<and> \<not> (vin tx = [] \<and> vjoinsplit tx = []) \<and> \<not> (vout tx = [] \<and> vjoinsplit tx = []) \<and>
     \<not> length (ser_CTransaction tx) > 100000 \<and> ?outs \<and> ?js \<and> MoneyRange (0 + sum_list (map vpub_new (vjoinsplit tx))) \<and>
     \<not> repeats [] (map prevout (vin tx)) \<and> \<not> repeats [] (tx_nullifiers tx) \<and> ?cb) ()"
    unfolding CheckTransactionWithoutProofVerification_def
    by (intro decides_if decides_bind [OF check_outputs_decides] decides_bind [OF check_joinsplits_decides]
          decides_bind [OF check_value_in_decides] cb z) (auto simp: list_all_iff)
  then show ?thesis
  proof (rule decides_cong)
    have "list_all ?p (vjoinsplit tx) \<Longrightarrow> 0 \<le> sum_list (map vpub_old (vjoinsplit tx))"
      using sum_nonneg [of "map vpub_old (vjoinsplit tx)"] by (auto simp: list_all_iff)
    then show "(\<not> nVersion tx < 1 \<and> \<not> (vin tx = [] \<and> vjoinsplit tx = []) \<and> \<not> (vout tx = [] \<and> vjoinsplit tx = []) \<and>
       \<not> length (ser_CTransaction tx) > 100000 \<and> ?outs \<and> ?js \<and> MoneyRange (0 + sum_list (map vpub_new (vjoinsplit tx))) \<and>
       \<not> repeats [] (map prevout (vin tx)) \<and> \<not> repeats [] (tx_nullifiers tx) \<and> ?cb) = tx_well_formed tx"
      using sum_nonneg [of "map nValue (vout tx)"]
      by (auto simp: tx_well_formed_def repeats_distinct list_ex_iff list_all_iff MoneyRange_value
        MoneyRange_def [of "sum_list (map nValue (vout tx))"])
  qed simp
qed

text \<open>
  C37: \<^verbatim>\<open>CheckTransaction\<close> accepts exactly the well-formed transactions whose joinsplits verify: at least one input and output or a
  joinsplit, at most 100000 bytes, every value and every total between 0 and 21 million coins, no input and no nullifier twice, and a
  coinbase without joinsplits with a script of 2 to 100 bytes or no null input. Every other transaction is rejected with a penalty
  of 10 or 100, and no sum leaves the range of 64 bits.
\<close>

theorem CheckTransaction_exact:
  "decides state (CheckTransaction js_Verify tx state)
     (tx_well_formed tx \<and> list_all (\<lambda>js. js_Verify js (joinSplitPubKey tx)) (vjoinsplit tx)) ()"
  unfolding CheckTransaction_def
  by (rule decides_bind [OF CheckTransactionWithoutProofVerification_decides]) (auto simp: decides_def penalty_def)

section \<open>The inputs in the state of a view\<close>

lemma AccessCoins_filled:
  assumes "view_ok db cs" "cs \<noteq> []"
  obtains cs' where "AccessCoins db (hd cs) (tl cs) txid = (view_coins db cs txid, cs')" "filled_view db cs cs'"
proof -
  obtain c base where cs: "cs = c # base" using assms(2) by (cases cs) auto
  have "AccessCoins db (hd cs) (tl cs) txid = view_GetCoins db cs txid" by (simp add: cs AccessCoins_def)
  then show thesis using GetCoins_filled [OF assms(1), of txid] that by (metis prod.collapse)
qed

lemma filled_trans: "filled_view db cs cs' \<Longrightarrow> filled_view db cs' cs'' \<Longrightarrow> filled_view db cs cs''"
  by (cases cs; cases cs'; cases cs'') (auto simp: filled_view_def)

lemma filled_props:
  assumes "filled_view db cs cs'"
  shows "view_ok db cs'" "cs \<noteq> [] \<Longrightarrow> cs' \<noteq> []" "view_unspent db cs' = view_unspent db cs" "view_nullifier db cs' = view_nullifier db cs"
    "view_coins db cs' = view_coins db cs" "view_abs db cs' = view_abs db cs" "length cs' = length cs"
    "view_best_block db cs' = view_best_block db cs"
  using assms filled_abs [OF assms] by (auto simp: filled_view_def view_unspent_def fun_eq_iff)

lemma available_coins:
  "output_available (view_unspent db cs) out \<longleftrightarrow>
     (case view_coins db cs (prevout_hash out) of Some coins \<Rightarrow> IsAvailable coins (prevout_n out) | None \<Rightarrow> False)"
  using IsAvailable_not_pruned
  by (auto simp: output_available_def view_unspent_def unspent_def split: option.splits)

definition output_of :: "(uint256 \<Rightarrow> CCoins option) \<Rightarrow> COutPoint \<Rightarrow> CTxOut" where
  "output_of U out = coins_vout (the (U (prevout_hash out))) ! unat (prevout_n out)"

lemma available_unspent:
  "output_available (view_unspent db cs) out \<Longrightarrow>
   \<exists>coins. view_coins db cs (prevout_hash out) = Some coins \<and> view_unspent db cs (prevout_hash out) = Some coins \<and>
     IsAvailable coins (prevout_n out) \<and> coins_vout coins ! unat (prevout_n out) = output_of (view_unspent db cs) out"
  by (auto simp: output_available_def output_of_def view_unspent_def unspent_def split: option.splits if_splits)

lemma have_inputs_filled:
  "view_ok db cs \<Longrightarrow> cs \<noteq> [] \<Longrightarrow>
   fst (have_inputs db cs ins) = list_all (output_available (view_unspent db cs)) (map prevout ins) \<and>
   filled_view db cs (snd (have_inputs db cs ins))"
proof (induction ins arbitrary: cs)
  case Nil
  then show ?case by (simp add: filled_refl)
next
  case (Cons txin ins)
  obtain cs' where a: "AccessCoins db (hd cs) (tl cs) (prevout_hash (prevout txin)) = (view_coins db cs (prevout_hash (prevout txin)), cs')"
    and f: "filled_view db cs cs'" by (rule AccessCoins_filled [OF Cons.prems])
  note p = filled_props [OF f]
  have "filled_view db cs (snd (have_inputs db cs' ins))" using filled_trans [OF f] Cons.IH [OF p(1) p(2) [OF Cons.prems(2)]] by simp
  then show ?case using a f Cons.IH [OF p(1) p(2) [OF Cons.prems(2)]]
    by (auto simp: available_coins p split: option.splits)
qed

lemma HaveInputs_filled:
  assumes "view_ok db cs" "cs \<noteq> []"
  shows "fst (HaveInputs db cs tx) \<longleftrightarrow> IsCoinBase tx \<or> list_all (output_available (view_unspent db cs)) (map prevout (vin tx))"
    and "filled_view db cs (snd (HaveInputs db cs tx))"
  using have_inputs_filled [OF assms] filled_refl [OF assms(1)] by (auto simp: HaveInputs_def)

lemma any_nullifier_filled:
  "view_ok db cs \<Longrightarrow>
   fst (any_nullifier db cs nfs) = list_ex (view_nullifier db cs) nfs \<and> filled_view db cs (snd (any_nullifier db cs nfs))"
proof (induction nfs arbitrary: cs)
  case Nil
  then show ?case by (simp add: filled_refl)
next
  case (Cons nf nfs)
  obtain r cs' where g: "GetNullifier db cs nf = (r, cs')" by (cases "GetNullifier db cs nf")
  then have r: "r = view_nullifier db cs nf" and f: "filled_view db cs cs'" using GetNullifier_filled [OF Cons.prems, of nf] by auto
  show ?case using g r f Cons.IH [of cs'] filled_props [OF f] filled_trans [OF f] by auto
qed

lemma js_requirements_met:
  "view_ok db cs \<Longrightarrow> js_requirements db cs postBurn im jss = Ok (met, cs') \<Longrightarrow>
   filled_view db cs cs' \<and> (met \<longrightarrow> list_all (\<lambda>nf. \<not> view_nullifier db cs nf) (concat (map nullifiers jss)))"
proof (induction jss arbitrary: cs im)
  case Nil
  then show ?case by (simp add: filled_refl)
next
  case (Cons js jss)
  obtain spent cs1 where n: "any_nullifier db cs (nullifiers js) = (spent, cs1)" by (cases "any_nullifier db cs (nullifiers js)")
  with any_nullifier_filled [OF Cons.prems(1), of "nullifiers js"]
  have s: "spent = list_ex (view_nullifier db cs) (nullifiers js)" and f1: "filled_view db cs cs1" by auto
  show ?case
  proof (cases spent)
    case True
    then show ?thesis using Cons.prems(2) n f1 by simp
  next
    case False
    obtain t cs2 where t: "(case map_of im (js_anchor js) of Some t \<Rightarrow> (Some t, cs1) | None \<Rightarrow> GetAnchorAt db cs1 (js_anchor js) postBurn) = (t, cs2)"
      by (cases "case map_of im (js_anchor js) of Some t \<Rightarrow> (Some t, cs1) | None \<Rightarrow> GetAnchorAt db cs1 (js_anchor js) postBurn")
    have f2: "filled_view db cs1 cs2"
      using t GetAnchorAt_filled [OF filled_props(1) [OF f1], of "js_anchor js" postBurn] filled_refl [OF filled_props(1) [OF f1]]
      by (auto split: option.splits)
    note f = filled_trans [OF f1 f2]
    show ?thesis
    proof (cases t)
      case None
      then show ?thesis using Cons.prems(2) n t False f by simp
    next
      case (Some tree)
      with Cons.prems(2) n t False obtain im' where "js_requirements db cs2 postBurn im' jss = Ok (met, cs')"
        by (auto simp: outcome_simps)
      from Cons.IH [OF filled_props(1) [OF f] this] have r: "filled_view db cs2 cs'"
        "met \<longrightarrow> list_all (\<lambda>nf. \<not> view_nullifier db cs2 nf) (concat (map nullifiers jss))" by simp_all
      then show ?thesis using filled_trans [OF f r(1)] False s by (auto simp: filled_props [OF f] list_ex_iff list_all_iff)
    qed
  qed
qed

text \<open>What \<^verbatim>\<open>CheckTxInputs\<close> asks of the coins that are spent.\<close>

definition spend_allowed ::
  "bool \<Rightarrow> consensus_params \<Rightarrow> CTransaction \<Rightarrow> int \<Rightarrow> (uint256 \<Rightarrow> CCoins option) \<Rightarrow> COutPoint \<Rightarrow> bool" where
  "spend_allowed protect params tx height U out \<longleftrightarrow>
     (let coins = the (U (prevout_hash out)) in
      \<not> (nUnmovedBurnHeight params \<noteq> 0 \<and> height > nUnmovedBurnHeight params \<and>
         coins_nHeight coins \<le> forkStartHeight (pow params) + forkHeightRange (pow params)) \<and>
      (fCoinBase coins \<longrightarrow> coins_nHeight coins + coinbaseMaturity params \<le> height) \<and>
      (fCoinBase coins \<and> protect \<and> \<not> isForkBlock (pow params) (coins_nHeight coins) \<and> fCoinbaseMustBeProtected params \<longrightarrow> vout tx = []))"

definition total_in :: "(uint256 \<Rightarrow> CCoins option) \<Rightarrow> CTransaction \<Rightarrow> CAmount" where
  "total_in U tx = sum_list (map (\<lambda>txin. nValue (output_of U (prevout txin))) (vin tx))"

lemma check_inputs_loop_sound:
  "view_ok db cs \<Longrightarrow> cs \<noteq> [] \<Longrightarrow> list_all (output_available (view_unspent db cs)) (map prevout ins) \<Longrightarrow> MoneyRange acc \<Longrightarrow>
   check_inputs_loop protect params db cs tx state height acc ins = Ok (v, cs') \<Longrightarrow>
   filled_view db cs cs' \<and> list_all (spend_allowed protect params tx height (view_unspent db cs)) (map prevout ins) \<and>
   v = acc + sum_list (map (\<lambda>txin. nValue (output_of (view_unspent db cs) (prevout txin))) ins) \<and> MoneyRange v"
proof (induction ins arbitrary: cs acc)
  case Nil
  then show ?case by (simp add: filled_refl)
next
  case (Cons txin ins)
  let ?out = "prevout txin" and ?U = "view_unspent db cs"
  obtain cs1 where a: "AccessCoins db (hd cs) (tl cs) (prevout_hash ?out) = (view_coins db cs (prevout_hash ?out), cs1)"
    and f: "filled_view db cs cs1" by (rule AccessCoins_filled [OF Cons.prems(1,2)])
  note p = filled_props [OF f]
  from Cons.prems(3) available_unspent [of db cs ?out] obtain coins where c: "view_coins db cs (prevout_hash ?out) = Some coins"
    "?U (prevout_hash ?out) = Some coins" "coins_vout coins ! unat (prevout_n ?out) = output_of ?U ?out" by auto
  let ?v = "nValue (output_of ?U ?out)"
  have r: "spend_allowed protect params tx height ?U ?out" "MoneyRange (acc + ?v)"
    "check_inputs_loop protect params db cs1 tx state height (acc + ?v) ins = Ok (v, cs')"
    using Cons.prems(5) a c by (auto simp: spend_allowed_def Let_def split: if_splits)
  from Cons.IH [OF p(1) p(2) [OF Cons.prems(2)] _ r(2,3)] Cons.prems(3)
  have "filled_view db cs1 cs'" "list_all (spend_allowed protect params tx height ?U) (map prevout ins)"
    "v = acc + ?v + sum_list (map (\<lambda>txin. nValue (output_of ?U (prevout txin))) ins)" "MoneyRange v" by (auto simp: p)
  then show ?case using r(1) filled_trans [OF f] by simp
qed

lemma call_Ok: "call m = Ok x \<longleftrightarrow> m = Ok x"
  by (auto simp: call_def split: outcome.splits)

lemma HaveJoinSplitRequirements_met:
  assumes "view_ok db cs" "HaveJoinSplitRequirements db cs tx postBurn = Ok (met, cs')"
  shows "filled_view db cs cs'" "met \<Longrightarrow> list_all (\<lambda>nf. \<not> view_nullifier db cs nf) (tx_nullifiers tx)"
  using js_requirements_met [OF assms(1) assms(2) [unfolded HaveJoinSplitRequirements_def]] by (simp_all add: tx_nullifiers_def)

lemma CheckTxInputs_accepts:
  assumes ok: "view_ok db cs" "cs \<noteq> []" and nc: "\<not> IsCoinBase tx"
    and r: "CheckTxInputs protect params db cs tx state height = Ok cs'"
  shows "filled_view db cs cs'" "list_all (output_available (view_unspent db cs)) (map prevout (vin tx))"
    "list_all (\<lambda>nf. \<not> view_nullifier db cs nf) (tx_nullifiers tx)"
    "list_all (spend_allowed protect params tx height (view_unspent db cs)) (map prevout (vin tx))"
    "\<exists>fee. MoneyRange fee \<and> total_in (view_unspent db cs) tx + sum_list (map vpub_new (vjoinsplit tx)) =
       sum_list (map nValue (vout tx)) + sum_list (map vpub_old (vjoinsplit tx)) + fee"
proof -
  obtain have1 cs1 where h: "HaveInputs db cs tx = (have1, cs1)" by (cases "HaveInputs db cs tx")
  with r have "have1" by (auto simp: CheckTxInputs_def split: bool.splits)
  with h HaveInputs_filled [OF ok, of tx] nc have av: "list_all (output_available (view_unspent db cs)) (map prevout (vin tx))"
    and f1: "filled_view db cs cs1" by auto
  obtain cs2 nIn cs3 js out where
    q: "HaveJoinSplitRequirements db cs1 tx (height > zResetHeight params) = Ok (True, cs2)"
       "check_inputs_loop protect params db cs2 tx state height 0 (vin tx) = Ok (nIn, cs3)"
       "GetJoinSplitValueIn tx = (Ok js :: CAmount check)" "MoneyRange (nIn + js)" "GetValueOut tx = (Ok out :: CAmount check)"
       "out \<le> nIn + js" "MoneyRange (nIn + js - out)" "cs' = cs3"
    using r h \<open>have1\<close> by (auto simp: CheckTxInputs_def Let_def call_Ok outcome_simps split: if_splits prod.splits)
  from HaveJoinSplitRequirements_met [OF filled_props(1) [OF f1] q(1)] have f2: "filled_view db cs1 cs2"
    and nf: "list_all (\<lambda>nf. \<not> view_nullifier db cs1 nf) (tx_nullifiers tx)" by simp_all
  note f = filled_trans [OF f1 f2] and p = filled_props [OF filled_trans [OF f1 f2]]
  have z: "MoneyRange 0" by (simp add: MoneyRange_def)
  from check_inputs_loop_sound [OF p(1) p(2) [OF ok(2)] _ z q(2)] av
  have l: "filled_view db cs2 cs3" "list_all (spend_allowed protect params tx height (view_unspent db cs)) (map prevout (vin tx))"
    "nIn = total_in (view_unspent db cs) tx" by (auto simp: p total_in_def)
  show "filled_view db cs cs'" using filled_trans [OF f l(1)] q(8) by simp
  show "list_all (output_available (view_unspent db cs)) (map prevout (vin tx))" by (rule av)
  show "list_all (\<lambda>nf. \<not> view_nullifier db cs nf) (tx_nullifiers tx)" using nf by (simp add: filled_props [OF f1])
  show "list_all (spend_allowed protect params tx height (view_unspent db cs)) (map prevout (vin tx))" by (rule l(2))
  have "js = sum_list (map vpub_new (vjoinsplit tx))" using q(3) sum_amounts_iff [OF z] by (auto simp: GetJoinSplitValueIn_def)
  moreover have "out = sum_list (map nValue (vout tx)) + sum_list (map vpub_old (vjoinsplit tx))"
    using q(5) GetValueOut_iff by blast
  ultimately show "\<exists>fee. MoneyRange fee \<and> total_in (view_unspent db cs) tx + sum_list (map vpub_new (vjoinsplit tx)) =
       sum_list (map nValue (vout tx)) + sum_list (map vpub_old (vjoinsplit tx)) + fee"
    using q(7) l(3) by (intro exI [of _ "nIn + js - out"]) simp
qed

lemma value_in_filled:
  "view_ok db cs \<Longrightarrow> cs \<noteq> [] \<Longrightarrow> list_all (output_available (view_unspent db cs)) (map prevout ins) \<Longrightarrow>
   (value_in db cs acc ins :: (CAmount \<times> CCoinsViewCache list) check) = Ok (v, cs') \<Longrightarrow>
   filled_view db cs cs' \<and> v = acc + sum_list (map (\<lambda>txin. nValue (output_of (view_unspent db cs) (prevout txin))) ins)"
proof (induction ins arbitrary: cs acc)
  case Nil
  then show ?case by (simp add: filled_refl)
next
  case (Cons txin ins)
  let ?out = "prevout txin" and ?U = "view_unspent db cs"
  obtain cs1 where a: "AccessCoins db (hd cs) (tl cs) (prevout_hash ?out) = (view_coins db cs (prevout_hash ?out), cs1)"
    and f: "filled_view db cs cs1" by (rule AccessCoins_filled [OF Cons.prems(1,2)])
  note p = filled_props [OF f]
  from Cons.prems(3) available_unspent [of db cs ?out] obtain coins where c: "view_coins db cs (prevout_hash ?out) = Some coins"
    "IsAvailable coins (prevout_n ?out)" "coins_vout coins ! unat (prevout_n ?out) = output_of ?U ?out" by auto
  have "(value_in db cs1 (acc + nValue (output_of ?U ?out)) ins :: (CAmount \<times> CCoinsViewCache list) check) = Ok (v, cs')"
    using Cons.prems(4) a c by (auto simp: GetOutputFor_def split: if_splits)
  from Cons.IH [OF p(1) p(2) [OF Cons.prems(2)] _ this] Cons.prems(3) show ?case using filled_trans [OF f] by (simp add: p)
qed

lemma p2sh_sigops_filled:
  "view_ok db cs \<Longrightarrow> cs \<noteq> [] \<Longrightarrow> (p2sh_sigops db cs n ins :: (uint32 \<times> CCoinsViewCache list) check) = Ok (v, cs') \<Longrightarrow> filled_view db cs cs'"
proof (induction ins arbitrary: cs n)
  case Nil
  then show ?case by (simp add: filled_refl)
next
  case (Cons txin ins)
  let ?out = "prevout txin"
  obtain cs1 where a: "AccessCoins db (hd cs) (tl cs) (prevout_hash ?out) = (view_coins db cs (prevout_hash ?out), cs1)"
    and f: "filled_view db cs cs1" by (rule AccessCoins_filled [OF Cons.prems(1,2)])
  from Cons.prems(3) a obtain n' where "(p2sh_sigops db cs1 n' ins :: (uint32 \<times> CCoinsViewCache list) check) = Ok (v, cs')"
    by (auto simp: GetOutputFor_def outcome_simps split: option.splits if_splits)
  from Cons.IH [OF filled_props(1) [OF f] filled_props(2) [OF f Cons.prems(2)] this] show ?case by (rule filled_trans [OF f])
qed

lemma script_checks_filled:
  "view_ok db cs \<Longrightarrow> cs \<noteq> [] \<Longrightarrow> script_checks env db cs tx state flags pv i ins = Ok (checks, cs') \<Longrightarrow> filled_view db cs cs'"
proof (induction ins arbitrary: cs i checks)
  case Nil
  then show ?case by (simp add: filled_refl)
next
  case (Cons txin ins)
  let ?out = "prevout txin"
  obtain cs1 where a: "AccessCoins db (hd cs) (tl cs) (prevout_hash ?out) = (view_coins db cs (prevout_hash ?out), cs1)"
    and f: "filled_view db cs cs1" by (rule AccessCoins_filled [OF Cons.prems(1,2)])
  from Cons.prems(3) a obtain checks' where "script_checks env db cs1 tx state flags pv (Suc i) ins = Ok (checks', cs')"
    by (auto simp: outcome_simps split: option.splits if_splits)
  from Cons.IH [OF filled_props(1) [OF f] filled_props(2) [OF f Cons.prems(2)] this] show ?case by (rule filled_trans [OF f])
qed

lemma GetValueIn_filled:
  assumes "view_ok db cs" "cs \<noteq> []" "list_all (output_available (view_unspent db cs)) (map prevout (vin tx))" "\<not> IsCoinBase tx"
    "(GetValueIn db cs tx :: (CAmount \<times> CCoinsViewCache list) check) = Ok (v, cs')"
  shows "filled_view db cs cs'" "v = total_in (view_unspent db cs) tx + sum_list (map vpub_new (vjoinsplit tx))"
proof -
  obtain n where n: "(value_in db cs 0 (vin tx) :: (CAmount \<times> CCoinsViewCache list) check) = Ok (n, cs')" and v: "v = n + sum_list (map vpub_new (vjoinsplit tx))"
    using assms(4,5) sum_amounts_iff [of 0 "map vpub_new (vjoinsplit tx)"]
    by (auto simp: GetValueIn_def GetJoinSplitValueIn_def outcome_simps MoneyRange_def split: if_splits)
  from value_in_filled [OF assms(1-3) n] v show "filled_view db cs cs'"
    "v = total_in (view_unspent db cs) tx + sum_list (map vpub_new (vjoinsplit tx))" by (auto simp: total_in_def)
qed

lemma GetSpendHeight_filled:
  assumes "view_ok db cs" "(GetSpendHeight m db cs :: (int \<times> CCoinsViewCache list) check) = Ok (h, cs')"
  shows "filled_view db cs cs'" "\<exists>idx. m (view_best_block db cs) = Some idx \<and> h = nHeight idx + 1"
  using assms(2) GetBestBlock_filled [OF assms(1)] by (auto simp: GetSpendHeight_def split: prod.splits option.splits)

lemma ContextualCheckInputs_accepts:
  assumes ok: "view_ok db cs" "cs \<noteq> []"
    and r: "ContextualCheckInputs env params m db cs tx state fScriptChecks flags pv = Ok (checks, cs')"
  shows "filled_view db cs cs'"
    "\<not> IsCoinBase tx \<Longrightarrow> \<exists>idx cs1 cs2. m (view_best_block db cs) = Some idx \<and> filled_view db cs cs1 \<and>
       CheckTxInputs (fCoinbaseEnforcedProtectionEnabled env) params db cs1 tx state (nHeight idx + 1) = Ok cs2"
proof -
  have "filled_view db cs cs' \<and> (\<not> IsCoinBase tx \<longrightarrow> (\<exists>idx cs1 cs2. m (view_best_block db cs) = Some idx \<and> filled_view db cs cs1 \<and>
       CheckTxInputs (fCoinbaseEnforcedProtectionEnabled env) params db cs1 tx state (nHeight idx + 1) = Ok cs2))"
  proof (cases "IsCoinBase tx")
    case True
    then show ?thesis using r filled_refl [OF ok(1)] by (simp add: ContextualCheckInputs_def)
  next
    case False
    with r obtain h cs1 cs2 where q: "GetSpendHeight m db cs = (Ok (h, cs1) :: (int \<times> CCoinsViewCache list) check)"
      "CheckTxInputs (fCoinbaseEnforcedProtectionEnabled env) params db cs1 tx state h = Ok cs2"
      "cs' = cs2 \<or> (\<exists>c. script_checks env db cs2 tx state flags pv 0 (vin tx) = Ok (c, cs'))"
      by (auto simp: ContextualCheckInputs_def outcome_simps split: if_splits)
    note g = GetSpendHeight_filled [OF ok(1) q(1)]
    have f2: "filled_view db cs cs2"
      using filled_trans [OF g(1) CheckTxInputs_accepts(1) [OF filled_props(1) [OF g(1)] filled_props(2) [OF g(1) ok(2)] False q(2)]] .
    have "filled_view db cs cs'"
      using q(3) f2 filled_trans [OF f2] script_checks_filled [OF filled_props(1) [OF f2] filled_props(2) [OF f2 ok(2)]] by blast
    then show ?thesis using g q(2) False by auto
  qed
  then show "filled_view db cs cs'" "\<not> IsCoinBase tx \<Longrightarrow> \<exists>idx cs1 cs2. m (view_best_block db cs) = Some idx \<and> filled_view db cs cs1 \<and>
       CheckTxInputs (fCoinbaseEnforcedProtectionEnabled env) params db cs1 tx state (nHeight idx + 1) = Ok cs2" by simp_all
qed

section \<open>Properties\<close>

text \<open>
  C38: A transaction that \<^verbatim>\<open>CheckTxInputs\<close> accepts spends only outputs that the view shows as unspent and nullifiers that it does not
  show, none of them burned, immature or protected, and it conserves value: what it takes from its inputs and from the shielded pool
  is what its outputs and the pool receive plus a fee between 0 and 21 million coins. The view shows the same state afterwards.
\<close>

theorem CheckTxInputs_sound:
  assumes "view_ok db cs" "cs \<noteq> []" "\<not> IsCoinBase tx" "CheckTxInputs protect params db cs tx state height = Ok cs'"
  shows "let U = view_unspent db cs in
    list_all (output_available U) (map prevout (vin tx)) \<and> list_all (spend_allowed protect params tx height U) (map prevout (vin tx)) \<and>
    list_all (\<lambda>nf. \<not> view_nullifier db cs nf) (tx_nullifiers tx) \<and> view_abs db cs' = view_abs db cs \<and>
    (\<exists>fee. MoneyRange fee \<and> total_in U tx + sum_list (map vpub_new (vjoinsplit tx)) =
       sum_list (map nValue (vout tx)) + sum_list (map vpub_old (vjoinsplit tx)) + fee)"
  using CheckTxInputs_accepts [OF assms] filled_props(6) by (simp add: Let_def)

text \<open>The parameters of the main network, with the proof-of-work parameters in \<open>main_params\<close>.\<close>

definition main_consensus :: consensus_params where
  "main_consensus =
     \<lparr> pow = main_params, coinbaseMaturity = 100, fCoinbaseMustBeProtected = True, nSubsidySlowStartInterval = 2,
       nSubsidyHalvingInterval = 840000, nUnmovedBurnHeight = 480000, zResetHeight = 455500,
       hashGenesisBlock = 0x0007104ccda289427919efc39dc9e4d499804b7bebc22df55f8b834301260602, forkCBPerBlock = 10000,
       forkExtraHashSentinel = 0xf0f0f0f0fafafafaffffffffffffffffffffffffffffffffafafafaf0f0f0f0f \<rparr>"

definition sample_spend :: CTransaction where
  "sample_spend =
     null_tx\<lparr> vin := [\<lparr> prevout = COutPoint 5 0, scriptSig = [], nSequence = - 1 \<rparr>], vout := [\<lparr> nValue = 4, scriptPubKey = [] \<rparr>] \<rparr>"

lemma sample_view_ok: "view_ok sample_db [sample_cache]"
  by (simp add: cache_ok_def coins_entry_ok_def view_unspent_def unspent_def sample_db_def sample_cache_def)

theorem CheckTxInputs_sound_witness:
  "\<exists>fee. MoneyRange fee \<and> total_in (view_unspent sample_db [sample_cache]) sample_spend = 4 + fee"
proof -
  have "CheckTxInputs True main_consensus sample_db [sample_cache] sample_spend CValidationState_new 20 = Ok [sample_cache]"
    by (simp add: CheckTxInputs_def HaveInputs_def AccessCoins_def sample_cache_def sample_spend_def null_tx_def IsCoinBase_def
          COutPoint_IsNull_def IsAvailable_def sample_coins_def CTxOut_IsNull_def call_def HaveJoinSplitRequirements_def
          main_consensus_def in_int64_def MoneyRange_def GetJoinSplitValueIn_def GetValueOut_def)
  moreover have "\<not> IsCoinBase sample_spend" by (simp add: sample_spend_def IsCoinBase_def COutPoint_IsNull_def)
  ultimately show ?thesis
    using CheckTxInputs_sound [OF sample_view_ok, of sample_spend] by (simp add: Let_def) (auto simp: sample_spend_def null_tx_def)
qed

subsection \<open>The subsidy\<close>

definition halvings_at :: "consensus_params \<Rightarrow> int \<Rightarrow> int" where
  "halvings_at params height =
     (if isForkEnabled (pow params) height
      then (height - SubsidySlowStartShift params) div (nSubsidyHalvingInterval params div 4) + 2
      else (height - SubsidySlowStartShift params) div nSubsidyHalvingInterval params)"

lemma slow_shift: "0 < nSubsidySlowStartInterval params \<Longrightarrow> SubsidySlowStartShift params = nSubsidySlowStartInterval params div 2"
  by (simp add: SubsidySlowStartShift_def sdiv_pos)

lemma GetBlockSubsidy_late:
  assumes "0 < nSubsidySlowStartInterval params" "4 \<le> nSubsidyHalvingInterval params" "nSubsidySlowStartInterval params \<le> height"
  shows "0 \<le> halvings_at params height"
    "GetBlockSubsidy height params = Ok (if halvings_at params height \<ge> 64 then 0 else 1250000000 div 2 ^ nat (halvings_at params height))"
proof -
  have h: "SubsidySlowStartShift params < height" "\<not> height < nSubsidySlowStartInterval params sdiv 2"
    using assms by (simp_all add: slow_shift sdiv_pos)
  have q: "drop_bit 2 (nSubsidyHalvingInterval params) = nSubsidyHalvingInterval params div 4" by (simp add: drop_bit_eq_div)
  have q0: "0 < nSubsidyHalvingInterval params div 4" using assms(2) by simp
  show nn: "0 \<le> halvings_at params height" using h q0 assms(2) by (simp add: halvings_at_def pos_imp_zdiv_nonneg_iff)
  have d: "(height - SubsidySlowStartShift params) sdiv (nSubsidyHalvingInterval params div 4) =
      (height - SubsidySlowStartShift params) div (nSubsidyHalvingInterval params div 4)"
    "(height - SubsidySlowStartShift params) sdiv nSubsidyHalvingInterval params =
      (height - SubsidySlowStartShift params) div nSubsidyHalvingInterval params"
    using h q0 assms(2) by (simp_all add: sdiv_pos)
  show "GetBlockSubsidy height params = Ok (if halvings_at params height \<ge> 64 then 0 else 1250000000 div 2 ^ nat (halvings_at params height))"
    using h q0 assms(2,3) nn
    by (cases "isForkEnabled (pow params) height") (simp_all add: GetBlockSubsidy_def Let_def q d drop_bit_eq_div halvings_at_def)
qed

lemma halvings_mono:
  assumes "0 < nSubsidySlowStartInterval params" "4 \<le> nSubsidyHalvingInterval params" "nSubsidySlowStartInterval params \<le> h1" "h1 \<le> h2"
  shows "halvings_at params h1 \<le> halvings_at params h2"
proof -
  let ?I = "nSubsidyHalvingInterval params" and ?s = "SubsidySlowStartShift params"
  have q0: "0 < ?I div 4" and I: "0 < ?I" "?I div 4 \<le> ?I" using assms(2) by simp_all
  have s: "0 \<le> h1 - ?s" "0 \<le> h2 - ?s" using assms by (simp_all add: slow_shift)
  have "(h1 - ?s) div ?I \<le> (h2 - ?s) div ?I" "(h1 - ?s) div (?I div 4) \<le> (h2 - ?s) div (?I div 4)"
    using q0 I assms(4) by (simp_all add: zdiv_mono1)
  moreover have "(h1 - ?s) div ?I \<le> (h1 - ?s) div (?I div 4)" using zdiv_mono2 [OF s(1) q0 I(2)] .
  ultimately show ?thesis using assms(4) by (auto simp: halvings_at_def isForkEnabled_def)
qed

lemma subsidy_antimono:
  "0 \<le> a \<Longrightarrow> a \<le> b \<Longrightarrow> (if b \<ge> 64 then 0 else 1250000000 div 2 ^ nat b) \<le> (if a \<ge> 64 then 0 else (1250000000 :: int) div 2 ^ nat a)"
proof -
  assume a: "0 \<le> a" "a \<le> b"
  then have "(2 :: int) ^ nat a \<le> 2 ^ nat b" by (intro power_increasing) auto
  then have "(1250000000 :: int) div 2 ^ nat b \<le> 1250000000 div 2 ^ nat a" by (intro zdiv_mono2) auto
  then show ?thesis using a by (auto simp: pos_imp_zdiv_nonneg_iff)
qed

lemma GetBlockSubsidy_early:
  assumes "0 < nSubsidySlowStartInterval params" "0 \<le> height" "height < nSubsidySlowStartInterval params"
  obtains s where "GetBlockSubsidy height params = Ok s" "0 \<le> s" "s \<le> 1250000000"
proof -
  let ?n = "nSubsidySlowStartInterval params"
  have d: "1250000000 sdiv ?n = 1250000000 div ?n" using assms by (simp add: sdiv_pos)
  have p: "0 \<le> 1250000000 div ?n" using assms(1) by (simp add: pos_imp_zdiv_nonneg_iff)
  have "(1250000000 div ?n) * (height + 1) \<le> (1250000000 div ?n) * ?n" using assms(3) p by (intro mult_left_mono) auto
  also have "\<dots> = 1250000000 - 1250000000 mod ?n" by (rule minus_mod_eq_div_mult [symmetric])
  also have "\<dots> \<le> 1250000000" using assms(1) by simp
  finally have u: "(1250000000 div ?n) * (height + 1) \<le> 1250000000" .
  have u': "(1250000000 div ?n) * height \<le> (1250000000 div ?n) * (height + 1)" using p by (intro mult_left_mono) auto
  show thesis
  proof (cases "height < ?n sdiv 2")
    case True
    then show thesis using that [of "(1250000000 div ?n) * height"] u u' p assms d by (simp add: GetBlockSubsidy_def Let_def)
  next
    case False
    then show thesis using that [of "(1250000000 div ?n) * (height + 1)"] u p assms d by (simp add: GetBlockSubsidy_def Let_def)
  qed
qed



subsection \<open>The reason for a rejection\<close>

text \<open>
  C40: A transaction rejected because it fails only a flag that is not mandatory gets the reason "No error" whatever the script error
  was: the message is made from the second check, which succeeded.
\<close>

theorem non_mandatory_reason:
  assumes "script_check_now env coins tx i flags state = Err state'" "chRejectCode state' = REJECT_NONSTANDARD"
  shows "strRejectReason state' = ''non-mandatory-script-verify-flag (No error)''"
proof -
  let ?run = "\<lambda>flags. call (CScriptCheck_run env (CScriptCheck_of coins tx i flags))"
  have ok: "?run flags = Ok (True, e) \<Longrightarrow> e = SCRIPT_ERR_OK" for flags e
    by (auto simp: call_Ok CScriptCheck_run_def split: outcome.splits)
  have ne: "?run flags \<noteq> Err st" for flags st by (auto simp: call_def split: outcome.splits)
  obtain b err where r1: "?run flags = Ok (b, err)" using assms(1) ne [of flags] by (cases "?run flags") (auto simp: script_check_now_def)
  have b: "\<not> b" using assms(1) r1 by (auto simp: script_check_now_def)
  let ?second = "if flags AND STANDARD_NOT_MANDATORY_VERIFY_FLAGS \<noteq> 0
    then ?run (flags AND NOT STANDARD_NOT_MANDATORY_VERIFY_FLAGS) else Ok (False, err)"
  obtain ok2 err2 where r2: "?second = Ok (ok2, err2)"
    using assms(1) r1 b ne [of "flags AND NOT STANDARD_NOT_MANDATORY_VERIFY_FLAGS"]
    by (cases ?second) (auto simp: script_check_now_def simp del: if_split split: if_splits)
  have "ok2 \<Longrightarrow> err2 = SCRIPT_ERR_OK" using r2 ok by (auto split: if_splits)
  moreover have "state' =
      (if ok2 then Invalid REJECT_NONSTANDARD (''non-mandatory-script-verify-flag ('' @ ScriptErrorString err2 @ '')'') state
       else DoS 100 REJECT_INVALID (''mandatory-script-verify-flag-failed ('' @ ScriptErrorString err @ '')'') False state)"
    using assms(1) unfolding script_check_now_def r1 rbind_simps prod.case using b r2 by (cases ok2) simp_all
  ultimately show ?thesis using assms(2) by (auto simp: Invalid_def DoS_def Let_def ScriptErrorString_def split: if_splits)
qed

definition sample_check_env :: check_env where
  "sample_check_env =
     \<lparr> ce_crypto = \<lparr> RIPEMD160 = (\<lambda>v. v), SHA1 = (\<lambda>v. v), SHA256 = (\<lambda>v. v), CheckLowS = (\<lambda>_. True) \<rparr>, ce_ecdsa = (\<lambda>_ _ _. True),
       ce_sign_verify = (\<lambda>_ _ _. True), ce_js_Verify = (\<lambda>_ _. True), fCoinbaseEnforcedProtectionEnabled = True,
       nScriptCheckThreads = 0 \<rparr>"

theorem non_mandatory_reason_witness:
  "\<exists>state'. script_check_now sample_check_env (sample_coins\<lparr> coins_vout := [\<lparr> nValue = 5, scriptPubKey = [0x51, 0x51] \<rparr>] \<rparr>) sample_spend 0
     STANDARD_SCRIPT_VERIFY_FLAGS CValidationState_new = Err state' \<and>
     strRejectReason state' = ''non-mandatory-script-verify-flag (No error)''"
proof -
  let ?r = "script_check_now sample_check_env (sample_coins\<lparr> coins_vout := [\<lparr> nValue = 5, scriptPubKey = [0x51, 0x51] \<rparr>] \<rparr>) sample_spend 0
     STANDARD_SCRIPT_VERIFY_FLAGS CValidationState_new"
  have "case ?r of Err state' \<Rightarrow> chRejectCode state' = REJECT_NONSTANDARD | _ \<Rightarrow> False" by code_simp
  then obtain state' where "?r = Err state'" "chRejectCode state' = REJECT_NONSTANDARD" by (cases ?r) auto
  then show ?thesis using non_mandatory_reason by blast
qed

end
