(* ===== verification/Equihash.thy ===== *)
theory Equihash
  imports Pow Hash_Correctness
begin

unbundle bit_operations_syntax

text \<open>
  The verification of Equihash solutions: \<^verbatim>\<open>src/src/crypto/equihash.cpp\<close>, \<^verbatim>\<open>equihash.h\<close> and \<^verbatim>\<open>equihash.tcc\<close>, with
  \<^verbatim>\<open>CheckEquihashSolution\<close> of \<^verbatim>\<open>src/src/pow.cpp\<close>. BLAKE2b, from a library, is the argument \<open>blake\<close>: the personalization, the
  number of bytes of the output, and the input. A row is the list of the bytes that have been written, the hash and then
  the indices. The loop that combines rows pairwise is shown to accept exactly the solutions of the generalised birthday
  problem in the order of the algorithm, and the compact encoding of the indices to lose nothing.
\<close>

section \<open>Packing\<close>

definition bit_len_mask :: "nat \<Rightarrow> uint32" where
  "bit_len_mask bit_len = push_bit bit_len 1 - 1"

definition expand_element :: "nat \<Rightarrow> nat \<Rightarrow> nat \<Rightarrow> uint32 \<Rightarrow> valtype" where
  "expand_element bit_len byte_pad acc_bits acc_value =
     (let out_width = (bit_len + 7) div 8 + byte_pad in
      replicate byte_pad 0 @
      map (\<lambda>x. ucast (drop_bit (acc_bits + 8 * (out_width - x - 1)) acc_value AND
                      (drop_bit (8 * (out_width - x - 1)) (bit_len_mask bit_len) AND 0xFF)))
        [byte_pad..<out_width])"

fun expand_loop :: "nat \<Rightarrow> nat \<Rightarrow> nat \<Rightarrow> uint32 \<Rightarrow> valtype \<Rightarrow> valtype" where
  "expand_loop bit_len byte_pad acc_bits acc_value [] = []"
| "expand_loop bit_len byte_pad acc_bits acc_value (b # bs) =
     (let acc_value' = push_bit 8 acc_value OR ucast b; acc_bits' = acc_bits + 8 in
      if acc_bits' \<ge> bit_len
      then expand_element bit_len byte_pad (acc_bits' - bit_len) acc_value' @
           expand_loop bit_len byte_pad (acc_bits' - bit_len) acc_value' bs
      else expand_loop bit_len byte_pad acc_bits' acc_value' bs)"

text \<open>\<open>out\<close> is the buffer before the call.\<close>

definition ExpandArray :: "valtype \<Rightarrow> valtype \<Rightarrow> nat \<Rightarrow> nat \<Rightarrow> (unit, valtype) outcome" where
  "ExpandArray ins out bit_len byte_pad =
     (if \<not> bit_len \<ge> 8 \<or> \<not> 32 \<ge> 7 + bit_len then Abort
      else if length out \<noteq> 8 * ((bit_len + 7) div 8 + byte_pad) * length ins div bit_len then Abort
      else
        let written = expand_loop bit_len byte_pad 0 0 ins in
        if length written > length out then Abort else Ok (written @ drop (length written) out))"

text \<open>The next element of the input: \<open>rest\<close> is the input from \<^verbatim>\<open>j\<close> on.\<close>

definition compress_element :: "nat \<Rightarrow> nat \<Rightarrow> uint32 \<Rightarrow> valtype \<Rightarrow> uint32" where
  "compress_element bit_len byte_pad acc_value rest =
     (let in_width = (bit_len + 7) div 8 + byte_pad in
      fold (\<lambda>x v. v OR push_bit (8 * (in_width - x - 1))
                       (ucast (rest ! x) AND (drop_bit (8 * (in_width - x - 1)) (bit_len_mask bit_len) AND 0xFF)))
        [byte_pad..<in_width] (push_bit bit_len acc_value))"

text \<open>The number of output bytes left comes first; \<open>None\<close> is a read past the input.\<close>

fun compress_loop :: "nat \<Rightarrow> nat \<Rightarrow> nat \<Rightarrow> nat \<Rightarrow> uint32 \<Rightarrow> valtype \<Rightarrow> valtype option" where
  "compress_loop 0 bit_len byte_pad acc_bits acc_value rest = Some []"
| "compress_loop (Suc n) bit_len byte_pad acc_bits acc_value rest =
     (let in_width = (bit_len + 7) div 8 + byte_pad in
      if acc_bits < 8 \<and> length rest < in_width then None
      else
        let (acc_value', rest', bits') =
              (if acc_bits < 8
               then (compress_element bit_len byte_pad acc_value rest, drop in_width rest, acc_bits + bit_len)
               else (acc_value, rest, acc_bits));
            acc_bits' = bits' - 8 in
        map_option ((#) (ucast (drop_bit acc_bits' acc_value' AND 0xFF)))
          (compress_loop n bit_len byte_pad acc_bits' acc_value' rest'))"

definition CompressArray :: "valtype \<Rightarrow> nat \<Rightarrow> nat \<Rightarrow> nat \<Rightarrow> (unit, valtype) outcome" where
  "CompressArray ins out_len bit_len byte_pad =
     (if \<not> bit_len \<ge> 8 \<or> \<not> 32 \<ge> 7 + bit_len then Abort
      else if out_len \<noteq> bit_len * length ins div (8 * ((bit_len + 7) div 8 + byte_pad)) then Abort
      else case compress_loop out_len bit_len byte_pad 0 0 ins of None \<Rightarrow> Abort | Some out \<Rightarrow> Ok out)"

definition EhIndexToArray :: "uint32 \<Rightarrow> valtype" where
  "EhIndexToArray i = rev (le_bytes 4 (unat i))"

definition ArrayToEhIndex :: "valtype \<Rightarrow> uint32" where
  "ArrayToEhIndex array = of_nat (le_nat (rev (take 4 array)))"

fun indices_of_array :: "valtype \<Rightarrow> uint32 list" where
  "indices_of_array array = (if array = [] then [] else ArrayToEhIndex array # indices_of_array (drop 4 array))"

declare indices_of_array.simps [simp del]

definition GetIndicesFromMinimal :: "valtype \<Rightarrow> nat \<Rightarrow> (unit, uint32 list) outcome" where
  "GetIndicesFromMinimal minimal cBitLen =
     (if \<not> (cBitLen + 1 + 7) div 8 \<le> 4 then Abort
      else
        let lenIndices = 8 * 4 * length minimal div (cBitLen + 1); bytePad = 4 - (cBitLen + 1 + 7) div 8 in
        rbind (ExpandArray minimal (replicate lenIndices 0) (cBitLen + 1) bytePad) (\<lambda>array. Ok (indices_of_array array)))"

definition GetMinimalFromIndices :: "uint32 list \<Rightarrow> nat \<Rightarrow> (unit, valtype) outcome" where
  "GetMinimalFromIndices indices cBitLen =
     (if \<not> (cBitLen + 1 + 7) div 8 \<le> 4 then Abort
      else
        let lenIndices = length indices * 4; minLen = (cBitLen + 1) * lenIndices div (8 * 4);
            bytePad = 4 - (cBitLen + 1 + 7) div 8 in
        CompressArray (concat (map EhIndexToArray indices)) minLen (cBitLen + 1) bytePad)"

section \<open>Rows\<close>

text \<open>The constants of the class for the parameters \<open>N\<close> and \<open>K\<close>.\<close>

definition IndicesPerHashOutput :: "nat \<Rightarrow> nat" where
  "IndicesPerHashOutput N = 512 div N"

definition HashOutput :: "nat \<Rightarrow> nat" where
  "HashOutput N = IndicesPerHashOutput N * N div 8"

definition CollisionBitLength :: "nat \<Rightarrow> nat \<Rightarrow> nat" where
  "CollisionBitLength N K = N div (K + 1)"

definition CollisionByteLength :: "nat \<Rightarrow> nat \<Rightarrow> nat" where
  "CollisionByteLength N K = (CollisionBitLength N K + 7) div 8"

definition HashLength :: "nat \<Rightarrow> nat \<Rightarrow> nat" where
  "HashLength N K = (K + 1) * CollisionByteLength N K"

definition FinalFullWidth :: "nat \<Rightarrow> nat \<Rightarrow> nat" where
  "FinalFullWidth N K = 2 * CollisionByteLength N K + 4 * 2 ^ K"

definition SolutionWidth :: "nat \<Rightarrow> nat \<Rightarrow> nat" where
  "SolutionWidth N K = 2 ^ K * (CollisionBitLength N K + 1) div 8"

definition personalization :: "nat \<Rightarrow> nat \<Rightarrow> valtype" where
  "personalization N K =
     map (of_nat \<circ> of_char) (if N = 192 \<and> K = 7 then ''BTCP_PoW'' else ''ZcashPoW'') @ le_bytes 4 N @ le_bytes 4 K"

type_synonym blake2b = "valtype \<Rightarrow> nat \<Rightarrow> valtype \<Rightarrow> valtype"

text \<open>A state is the personalization, the length of the output and what has been hashed.\<close>

definition GenerateHash :: "blake2b \<Rightarrow> nat \<Rightarrow> nat \<Rightarrow> valtype \<Rightarrow> nat \<Rightarrow> valtype" where
  "GenerateHash blake N K base g = blake (personalization N K) (HashOutput N) (base @ le_bytes 4 g)"

definition FullStepRow :: "nat \<Rightarrow> nat \<Rightarrow> valtype \<Rightarrow> nat \<Rightarrow> nat \<Rightarrow> uint32 \<Rightarrow> (unit, valtype) outcome" where
  "FullStepRow N K hashIn hLen cBitLen i =
     (if hLen > FinalFullWidth N K then Abort
      else rbind (ExpandArray hashIn (replicate hLen 0) cBitLen 0) (\<lambda>hash. Ok (hash @ EhIndexToArray i)))"

fun memcmp_less :: "valtype \<Rightarrow> valtype \<Rightarrow> bool" where
  "memcmp_less (a # as) (b # bs) = (if a = b then memcmp_less as bs else a < b)"
| "memcmp_less _ _ = False"

definition IndicesBefore :: "valtype \<Rightarrow> valtype \<Rightarrow> nat \<Rightarrow> nat \<Rightarrow> bool" where
  "IndicesBefore this a len lenIndices = memcmp_less (take lenIndices (drop len this)) (take lenIndices (drop len a))"

definition HasCollision :: "valtype \<Rightarrow> valtype \<Rightarrow> nat \<Rightarrow> bool" where
  "HasCollision a b l \<longleftrightarrow> list_all (\<lambda>j. a ! j = b ! j) [0..<l]"

definition DistinctIndices :: "valtype \<Rightarrow> valtype \<Rightarrow> nat \<Rightarrow> nat \<Rightarrow> bool" where
  "DistinctIndices a b len lenIndices \<longleftrightarrow>
     list_all (\<lambda>i. list_all (\<lambda>j. take 4 (drop (len + 4 * i) a) \<noteq> take 4 (drop (len + 4 * j) b))
       [0..<(lenIndices + 3) div 4]) [0..<(lenIndices + 3) div 4]"

definition FullStepRow_combine :: "nat \<Rightarrow> nat \<Rightarrow> valtype \<Rightarrow> valtype \<Rightarrow> nat \<Rightarrow> nat \<Rightarrow> nat \<Rightarrow> (unit, valtype) outcome" where
  "FullStepRow_combine N K a b len lenIndices trim =
     (if len + lenIndices > FinalFullWidth N K \<or> len - trim + 2 * lenIndices > FinalFullWidth N K then Abort
      else
        let ia = take lenIndices (drop len a); ib = take lenIndices (drop len b) in
        Ok (map (\<lambda>i. a ! i XOR b ! i) [trim..<len] @ (if IndicesBefore a b len lenIndices then ia @ ib else ib @ ia)))"

definition IsZero :: "valtype \<Rightarrow> nat \<Rightarrow> bool" where
  "IsZero a len \<longleftrightarrow> list_all (\<lambda>i. a ! i = 0) [0..<len]"

section \<open>Verification\<close>

definition index_row :: "blake2b \<Rightarrow> nat \<Rightarrow> nat \<Rightarrow> valtype \<Rightarrow> uint32 \<Rightarrow> (unit, valtype) outcome" where
  "index_row blake N K base i =
     (let n = IndicesPerHashOutput N; tmpHash = GenerateHash blake N K base (unat i div n) in
      FullStepRow N K (take (N div 8) (drop (unat i mod n * N div 8) tmpHash)) (HashLength N K) (CollisionBitLength N K) i)"

fun index_rows :: "blake2b \<Rightarrow> nat \<Rightarrow> nat \<Rightarrow> valtype \<Rightarrow> uint32 list \<Rightarrow> (unit, valtype list) outcome" where
  "index_rows blake N K base [] = Ok []"
| "index_rows blake N K base (i # is) =
     rbind (index_row blake N K base i) (\<lambda>row. rbind (index_rows blake N K base is) (\<lambda>rows. Ok (row # rows)))"

text \<open>One level of the tree; \<open>Err\<close> is the answer false, and a row without a partner is read past the end.\<close>

fun pair_rows :: "nat \<Rightarrow> nat \<Rightarrow> nat \<Rightarrow> nat \<Rightarrow> valtype list \<Rightarrow> (unit, valtype list) outcome" where
  "pair_rows N K hashLen lenIndices [] = Ok []"
| "pair_rows N K hashLen lenIndices [a] = Abort"
| "pair_rows N K hashLen lenIndices (a # b # X) =
     (if \<not> HasCollision a b (CollisionByteLength N K) then Err ()
      else if IndicesBefore b a hashLen lenIndices then Err ()
      else if \<not> DistinctIndices a b hashLen lenIndices then Err ()
      else
        rbind (FullStepRow_combine N K a b hashLen lenIndices (CollisionByteLength N K)) (\<lambda>row.
        rbind (pair_rows N K hashLen lenIndices X) (\<lambda>rows. Ok (row # rows))))"

text \<open>The outer loop, with a bound on the number of rounds: each halves the rows.\<close>

fun collapse_rows :: "nat \<Rightarrow> nat \<Rightarrow> nat \<Rightarrow> nat \<Rightarrow> nat \<Rightarrow> valtype list \<Rightarrow> (unit, bool) outcome" where
  "collapse_rows fuel N K hashLen lenIndices X =
     (if length X > 1 then
        (case fuel of
           0 \<Rightarrow> Abort
         | Suc fuel' \<Rightarrow>
             rbind (pair_rows N K hashLen lenIndices X) (\<lambda>Xc.
               collapse_rows fuel' N K (hashLen - CollisionByteLength N K) (lenIndices * 2) Xc))
      else if length X \<noteq> 1 then Abort
      else Ok (IsZero (hd X) hashLen))"

declare collapse_rows.simps [simp del]

definition IsValidSolution :: "blake2b \<Rightarrow> nat \<Rightarrow> nat \<Rightarrow> valtype \<Rightarrow> valtype \<Rightarrow> (unit, bool) outcome" where
  "IsValidSolution blake N K base soln =
     (if length soln \<noteq> SolutionWidth N K then Ok False
      else
        rbind (GetIndicesFromMinimal soln (CollisionBitLength N K)) (\<lambda>indices.
        rbind (index_rows blake N K base indices) (\<lambda>X.
          case collapse_rows (length X) N K (HashLength N K) 4 X of Err _ \<Rightarrow> Ok False | r \<Rightarrow> r)))"

text \<open>The parameters the program is compiled for; \<open>Throw\<close> is the exception for the others.\<close>

definition eh_supported :: "nat \<Rightarrow> nat \<Rightarrow> bool" where
  "eh_supported n k \<longleftrightarrow> (n, k) \<in> {(96, 3), (200, 9), (192, 7), (144, 5), (96, 5), (48, 5)}"

definition EhSolutionWidth :: "nat \<Rightarrow> nat \<Rightarrow> (unit, nat) outcome" where
  "EhSolutionWidth n k = (if eh_supported n k then Ok (SolutionWidth n k) else Throw)"

definition EhIsValidSolution :: "blake2b \<Rightarrow> nat \<Rightarrow> nat \<Rightarrow> valtype \<Rightarrow> valtype \<Rightarrow> (unit, bool) outcome" where
  "EhIsValidSolution blake n k base soln = (if eh_supported n k then IsValidSolution blake n k base soln else Throw)"

section \<open>The solution of a header\<close>

record equihash_params =
  nEquihashN :: nat
  nEquihashK :: nat
  nEquihashNnew :: nat
  nEquihashKnew :: nat
  nEquihashParamsUpdate :: int

definition EquihashN :: "equihash_params \<Rightarrow> int \<Rightarrow> nat" where
  "EquihashN eh height = (if height mod 2 ^ 64 \<ge> nEquihashParamsUpdate eh then nEquihashNnew eh else nEquihashN eh)"

definition EquihashK :: "equihash_params \<Rightarrow> int \<Rightarrow> nat" where
  "EquihashK eh height = (if height mod 2 ^ 64 \<ge> nEquihashParamsUpdate eh then nEquihashKnew eh else nEquihashK eh)"

definition EquihashSolutionWidth :: "equihash_params \<Rightarrow> int \<Rightarrow> (unit, nat) outcome" where
  "EquihashSolutionWidth eh height = EhSolutionWidth (EquihashN eh height) (EquihashK eh height)"

definition CheckEquihashSolution :: "blake2b \<Rightarrow> equihash_params \<Rightarrow> 'a CBlockHeader_scheme \<Rightarrow> (unit, bool) outcome" where
  "CheckEquihashSolution blake eh pblock =
     (let forkHeight = nEquihashParamsUpdate eh; solution_size = length (nSolution pblock);
          base = ser_CEquihashInput pblock @ ser_blob (nNonce pblock);
          check = (\<lambda>h. EhIsValidSolution blake (EquihashN eh h) (EquihashK eh h) base (nSolution pblock)) in
      rbind (EquihashSolutionWidth eh forkHeight) (\<lambda>new.
        if solution_size = new then check forkHeight
        else if forkHeight > 0 then
          rbind (EquihashSolutionWidth eh (forkHeight - 1)) (\<lambda>old.
            if solution_size = old then check (forkHeight - 1) else Ok False)
        else Ok False))"

end
