(* ===== verification/Block_Check.thy ===== *)
theory Block_Check
  imports Tx_Check Equihash
begin

unbundle bit_operations_syntax

text \<open>
  The checks of headers and blocks in \<^verbatim>\<open>src/src/main.cpp\<close>, the last checkpoint (\<^verbatim>\<open>src/src/checkpoints.cpp\<close>), and the header
  part of the block index: \<^verbatim>\<open>AddToBlockIndex\<close> and \<^verbatim>\<open>AcceptBlockHeader\<close>. \<open>m\<close> is \<^verbatim>\<open>mapBlockIndex\<close>, a pointer is the
  hash of the block. The clock, the hash functions and the verification of signatures and proofs are in the environment.
\<close>

section \<open>Parameters\<close>

record chain_params =
  consensus :: consensus_params
  equihash :: equihash_params
  mapCheckpoints :: "(int \<times> uint256) list"

record node_env =
  ne_check :: check_env
  ne_blake2b :: blake2b
  ne_GetAdjustedTime :: int
  fCheckpointsEnabled :: bool

definition ne_H :: "node_env \<Rightarrow> valtype \<Rightarrow> valtype" where
  "ne_H env = CHash256 (ce_crypto (ne_check env))"

abbreviation (input) MIN_BLOCK_VERSION :: int where "MIN_BLOCK_VERSION \<equiv> 4"
abbreviation (input) MAX_BLOCK_SIZE :: nat where "MAX_BLOCK_SIZE \<equiv> 2000000"
abbreviation (input) MAX_BLOCK_SIGOPS :: uint32 where "MAX_BLOCK_SIGOPS \<equiv> 50000"

definition looksLikeForkBlockHeader :: "chain_params \<Rightarrow> 'a CBlockHeader_scheme \<Rightarrow> bool" where
  "looksLikeForkBlockHeader cp header \<longleftrightarrow> hashReserved header = forkExtraHashSentinel (consensus cp)"

text \<open>The checkpoints are in the order of their heights.\<close>

definition GetLastCheckpoint :: "block_map \<Rightarrow> (int \<times> uint256) list \<Rightarrow> index_ptr option" where
  "GetLastCheckpoint m checkpoints = find (\<lambda>hash. m hash \<noteq> None) (rev (map snd checkpoints))"

section \<open>Checks without context\<close>

definition CheckBlockHeader ::
  "node_env \<Rightarrow> chain_params \<Rightarrow> 'a CBlockHeader_scheme \<Rightarrow> CValidationState \<Rightarrow> bool \<Rightarrow> unit check" where
  "CheckBlockHeader env cp block state fCheckPOW =
     (if block_nVersion block < MIN_BLOCK_VERSION then Err (DoS 100 REJECT_INVALID ''version-too-low'' False state)
      else
        rbind (if fCheckPOW then
                 rbind (call (EquihashSolutionWidth (equihash cp) (nEquihashParamsUpdate (equihash cp) - 1))) (\<lambda>oldSize.
                 rbind (call (EquihashSolutionWidth (equihash cp) (nEquihashParamsUpdate (equihash cp)))) (\<lambda>newSize.
                   if length (nSolution block) \<noteq> oldSize \<and> length (nSolution block) \<noteq> newSize
                   then Err (DoS 100 REJECT_INVALID ''invalid-solution-size'' False state)
                   else
                     rbind (call (CheckEquihashSolution (ne_blake2b env) (equihash cp) block)) (\<lambda>valid.
                       if valid then Ok () else Err (DoS 100 REJECT_INVALID ''invalid-solution'' False state))))
               else Ok ()) (\<lambda>_.
          if fCheckPOW \<and> \<not> CheckProofOfWork (header_GetHash (ne_H env) block) (nBits block) (pow (consensus cp))
          then Err (DoS 50 REJECT_INVALID ''high-hash'' False state)
          else if header_GetBlockTime block > ne_GetAdjustedTime env + 2 * 60 * 60
          then Err (Invalid REJECT_INVALID ''time-too-new'' state)
          else Ok ()))"

fun check_transactions ::
  "(JSDescription \<Rightarrow> uint256 \<Rightarrow> bool) \<Rightarrow> CValidationState \<Rightarrow> CTransaction list \<Rightarrow> unit check" where
  "check_transactions js_Verify state [] = Ok ()"
| "check_transactions js_Verify state (tx # txs) =
     rbind (CheckTransaction js_Verify tx state) (\<lambda>_. check_transactions js_Verify state txs)"

definition CheckBlock ::
  "node_env \<Rightarrow> chain_params \<Rightarrow> CBlock \<Rightarrow> CValidationState \<Rightarrow> (JSDescription \<Rightarrow> uint256 \<Rightarrow> bool) \<Rightarrow> bool \<Rightarrow> bool \<Rightarrow> unit check" where
  "CheckBlock env cp block state js_Verify fCheckPOW fCheckMerkleRoot =
     rbind (CheckBlockHeader env cp block state fCheckPOW) (\<lambda>_.
     rbind (if fCheckMerkleRoot then
              (case BuildMerkleTree (ne_H env) block of
                 (_, hashMerkleRoot2, mutated) \<Rightarrow>
                   if hashMerkleRoot block \<noteq> hashMerkleRoot2 then Err (DoS 100 REJECT_INVALID ''bad-txnmrklroot'' True state)
                   else if mutated then Err (DoS 100 REJECT_INVALID ''bad-txns-duplicate'' True state)
                   else Ok ())
            else Ok ()) (\<lambda>_.
       if vtx block = [] \<or> length (vtx block) > MAX_BLOCK_SIZE \<or> length (ser_CBlock block) > MAX_BLOCK_SIZE
       then Err (DoS 100 REJECT_INVALID ''bad-blk-length'' False state)
       else if vtx block = [] \<or> \<not> IsCoinBase (hd (vtx block)) then Err (DoS 100 REJECT_INVALID ''bad-cb-missing'' False state)
       else if looksLikeForkBlockHeader cp block \<and> int (length (vtx block)) > forkCBPerBlock (consensus cp) mod 2 ^ 64
       then Err (DoS 100 REJECT_INVALID ''bad-fork-too-many-tx'' False state)
       else if looksLikeForkBlockHeader cp block \<and> list_ex (\<lambda>tx. \<not> IsCoinBase tx) (tl (vtx block))
       then Err (DoS 100 REJECT_INVALID ''bad-fork-non-cb'' False state)
       else if \<not> looksLikeForkBlockHeader cp block \<and> list_ex IsCoinBase (tl (vtx block))
       then Err (DoS 100 REJECT_INVALID ''bad-cb-multiple'' False state)
       else
         rbind (check_transactions js_Verify state (vtx block)) (\<lambda>_.
           if fold (\<lambda>tx n. n + GetLegacySigOpCount tx) (vtx block) 0 > MAX_BLOCK_SIGOPS
           then Err (DoS 100 REJECT_INVALID ''bad-blk-sigops'' True state)
           else Ok ())))"

section \<open>Checks against the chain\<close>

definition ContextualCheckBlockHeader ::
  "node_env \<Rightarrow> chain_params \<Rightarrow> block_map \<Rightarrow> 'a CBlockHeader_scheme \<Rightarrow> CValidationState \<Rightarrow> index_ptr option \<Rightarrow> bool \<Rightarrow> unit check" where
  "ContextualCheckBlockHeader env cp m block state pindexPrev fCheckPow =
     (if header_GetHash (ne_H env) block = hashGenesisBlock (consensus cp) then Ok ()
      else case Option.bind pindexPrev m of
        None \<Rightarrow> Abort
      | Some prev \<Rightarrow>
          let height = nHeight prev + 1; params = pow (consensus cp) in
          if looksLikeForkBlockHeader cp block \<and> \<not> isForkBlock params height
          then Err (DoS 100 REJECT_INVALID ''bad-fork-hashreserved'' False state)
          else if \<not> looksLikeForkBlockHeader cp block \<and> isForkBlock params height
          then Err (DoS 100 REJECT_INVALID ''bad-fork-hashreserved'' False state)
          else
            rbind (call (GetNextWorkRequired m pindexPrev (Some block) params)) (\<lambda>bits.
              if nBits block \<noteq> bits then Err (DoS 100 REJECT_INVALID ''bad-diffbits'' False state)
              else
                rbind (call (GetMedianTimePast m (the pindexPrev))) (\<lambda>median.
                  if header_GetBlockTime block \<le> median then Err (Invalid REJECT_INVALID ''time-too-old'' state)
                  else
                    rbind (if fCheckPow then
                             rbind (call (EquihashSolutionWidth (equihash cp) height)) (\<lambda>width.
                               if length (nSolution block) \<noteq> width
                               then Err (Invalid REJECT_INVALID ''equihash-solution-size'' state) else Ok ())
                           else Ok ()) (\<lambda>_.
                      if fCheckpointsEnabled env \<and>
                         (case Option.bind (GetLastCheckpoint m (mapCheckpoints cp)) m of
                            None \<Rightarrow> False | Some pcheckpoint \<Rightarrow> height < nHeight pcheckpoint)
                      then Err (DoS 100 0 '''' False state)
                      else if block_nVersion block < 4 then Err (Invalid REJECT_OBSOLETE ''bad-version'' state)
                      else Ok ()))))"

definition ContextualCheckBlock ::
  "block_map \<Rightarrow> CBlock \<Rightarrow> CValidationState \<Rightarrow> index_ptr option \<Rightarrow> unit check" where
  "ContextualCheckBlock m block state pindexPrev =
     (case (case pindexPrev of None \<Rightarrow> Some 0 | Some p \<Rightarrow> map_option (\<lambda>prev. nHeight prev + 1) (m p)) of
        None \<Rightarrow> Abort
      | Some height \<Rightarrow>
          if list_ex (\<lambda>tx. \<not> IsFinalTx tx height (header_GetBlockTime block)) (vtx block)
          then Err (DoS 10 REJECT_INVALID ''bad-txns-nonfinal'' False state)
          else if height > 0 then
            (if vtx block = [] \<or> vin (hd (vtx block)) = [] then Abort
             else
               let expect = push_int64 [] height; script = scriptSig (hd (vin (hd (vtx block)))) in
               if length script < length expect \<or> take (length expect) script \<noteq> expect
               then Err (DoS 100 REJECT_INVALID ''bad-cb-height'' False state)
               else Ok ())
          else Ok ())"

section \<open>The index of headers\<close>

text \<open>The map with the best header, \<^verbatim>\<open>pindexBestHeader\<close>.\<close>

record header_index =
  hi_map :: block_map
  hi_best :: "index_ptr option"

definition AddToBlockIndex ::
  "(valtype \<Rightarrow> valtype) \<Rightarrow> header_index \<Rightarrow> 'a CBlockHeader_scheme \<Rightarrow> (unit, header_index \<times> index_ptr) outcome" where
  "AddToBlockIndex H hi block =
     (let hash = header_GetHash H block; m = hi_map hi in
      case m hash of
        Some _ \<Rightarrow> Ok (hi, hash)
      | None \<Rightarrow>
          let new = (CBlockIndex_of block)\<lparr> nSequenceId := 0 \<rparr>; m1 = m(hash \<mapsto> new) in
          rbind (case m1 (hashPrevBlock block) of
                   None \<Rightarrow> Ok (m1, base_uint_of 0)
                 | Some prev \<Rightarrow>
                     rbind (BuildSkip (m1(hash \<mapsto> new\<lparr> pprev := Some (hashPrevBlock block), nHeight := nHeight prev + 1 \<rparr>)) hash)
                       (\<lambda>m2. Ok (m2, nChainWork prev))) (\<lambda>(m2, work).
          rbind (GetBlockProof (nBits block)) (\<lambda>proof.
            case m2 hash of
              None \<Rightarrow> Abort
            | Some idx \<Rightarrow>
                rbind (RaiseValidity (idx\<lparr> nChainWork := base_add work proof \<rparr>) BLOCK_VALID_TREE) (\<lambda>(idx', _).
                  let m3 = m2(hash \<mapsto> idx');
                      best = (case hi_best hi of
                                None \<Rightarrow> Some hash
                              | Some b \<Rightarrow>
                                  (case m3 b of
                                     None \<Rightarrow> Some b
                                   | Some bidx \<Rightarrow> if CompareTo (nChainWork bidx) (nChainWork idx') < 0 then Some hash else Some b)) in
                  Ok (\<lparr> hi_map = m3, hi_best = best \<rparr>, hash)))))"

definition AcceptBlockHeader ::
  "node_env \<Rightarrow> chain_params \<Rightarrow> header_index \<Rightarrow> 'a CBlockHeader_scheme \<Rightarrow> CValidationState \<Rightarrow> (header_index \<times> index_ptr) check" where
  "AcceptBlockHeader env cp hi block state =
     (let hash = header_GetHash (ne_H env) block; m = hi_map hi in
      case m hash of
        Some idx \<Rightarrow>
          if nStatus idx AND BLOCK_FAILED_MASK \<noteq> 0 then Err (Invalid 0 ''duplicate'' state) else Ok (hi, hash)
      | None \<Rightarrow>
          rbind (CheckBlockHeader env cp block state True) (\<lambda>_.
          rbind (if hash \<noteq> hashGenesisBlock (consensus cp) then
                   (case m (hashPrevBlock block) of
                      None \<Rightarrow> Err (DoS 10 0 ''bad-prevblk'' False state)
                    | Some prev \<Rightarrow>
                        if nStatus prev AND BLOCK_FAILED_MASK \<noteq> 0
                        then Err (DoS 100 REJECT_INVALID ''bad-prevblk'' False state) else Ok (Some (hashPrevBlock block)))
                 else Ok None) (\<lambda>pindexPrev.
          rbind (ContextualCheckBlockHeader env cp m block state pindexPrev True) (\<lambda>_.
            call (AddToBlockIndex (ne_H env) hi block)))))"

end
