(* ===== verification/Connect.thy ===== *)
theory Connect
  imports Block_Check
begin

unbundle bit_operations_syntax

text \<open>
  Connecting a block to a view: \<^verbatim>\<open>ConnectBlock\<close> of \<^verbatim>\<open>src/src/main.cpp\<close>, over the checks, the views and the tree of note
  commitments of the other theories. The list of script checks that are left to the worker threads is a value that is evaluated where
  the code waits for them. Writing the undo data and the transaction index to disk are arguments. Disconnecting a block that has been
  connected is shown to restore the state of the view.
\<close>

section \<open>The loop over the transactions\<close>

record connect_state =
  con_nFees :: CAmount
  con_nSigOps :: uint32
  con_tree :: ZCIncrementalMerkleTree
  con_vtxundo :: "CTxUndo list"
  con_checks :: "CScriptCheck list"
  con_view :: "CCoinsViewCache list"

definition GetBlockScriptFlags :: "pow_params \<Rightarrow> CBlockIndex \<Rightarrow> uint32" where
  "GetBlockScriptFlags params pindex =
     (let flags = SCRIPT_VERIFY_P2SH OR SCRIPT_VERIFY_CHECKLOCKTIMEVERIFY in
      if isForkEnabled params (nHeight pindex) then flags OR SCRIPT_VERIFY_FORKID OR SCRIPT_VERIFY_WITNESS else flags)"

text \<open>The checks of a transaction that is not a coinbase, after its own signature operations are counted.\<close>

definition connect_inputs ::
  "node_env \<Rightarrow> chain_params \<Rightarrow> block_map \<Rightarrow> CCoinsViewDB \<Rightarrow> CValidationState \<Rightarrow> int \<Rightarrow> uint32 \<Rightarrow> bool \<Rightarrow> uint32 \<Rightarrow>
     CTransaction \<Rightarrow> connect_state \<Rightarrow> (CAmount \<times> uint32 \<times> CScriptCheck list \<times> CCoinsViewCache list) check" where
  "connect_inputs env cp m db state height flags fExpensiveChecks nSigOps tx st =
     (case HaveInputs db (con_view st) tx of
        (False, _) \<Rightarrow> Err (DoS 100 REJECT_INVALID ''bad-txns-inputs-missingorspent'' False state)
      | (True, cs1) \<Rightarrow>
          rbind (call (HaveJoinSplitRequirements db cs1 tx (height > zResetHeight (consensus cp)))) (\<lambda>(met, cs2).
            if \<not> met then Err (DoS 100 REJECT_INVALID ''bad-txns-joinsplit-requirements-not-met'' False state)
            else
              rbind (GetP2SHSigOpCount db cs2 tx) (\<lambda>(n, cs3).
                if nSigOps + n > MAX_BLOCK_SIGOPS then Err (DoS 100 REJECT_INVALID ''bad-blk-sigops'' False state)
                else
                  rbind (GetValueIn db cs3 tx) (\<lambda>(valueIn, cs4).
                  rbind (GetValueOut tx) (\<lambda>valueOut.
                    if \<not> in_int64 (valueIn - valueOut) \<or> \<not> in_int64 (con_nFees st + (valueIn - valueOut)) then Abort
                    else
                      rbind (ContextualCheckInputs (ne_check env) (consensus cp) m db cs4 tx state fExpensiveChecks flags
                               (nScriptCheckThreads (ne_check env) \<noteq> 0)) (\<lambda>(vChecks, cs5).
                        Ok (con_nFees st + (valueIn - valueOut), nSigOps + n, con_checks st @ vChecks, cs5)))))))"

definition connect_tx ::
  "node_env \<Rightarrow> chain_params \<Rightarrow> block_map \<Rightarrow> CCoinsViewDB \<Rightarrow> CValidationState \<Rightarrow> int \<Rightarrow> uint32 \<Rightarrow> bool \<Rightarrow> nat \<Rightarrow>
     CTransaction \<Rightarrow> connect_state \<Rightarrow> connect_state check" where
  "connect_tx env cp m db state height flags fExpensiveChecks i tx st =
     (let nSigOps1 = con_nSigOps st + GetLegacySigOpCount tx in
      if nSigOps1 > MAX_BLOCK_SIGOPS then Err (DoS 100 REJECT_INVALID ''bad-blk-sigops'' False state)
      else
        rbind (if \<not> IsCoinBase tx then connect_inputs env cp m db state height flags fExpensiveChecks nSigOps1 tx st
               else Ok (con_nFees st, nSigOps1, con_checks st, con_view st)) (\<lambda>(nFees, nSigOps, checks, cs1).
        rbind (call (UpdateCoins (ne_H env) db cs1 tx height)) (\<lambda>(txundo, cs2).
        rbind (call (imt_appends INCREMENTAL_MERKLE_TREE_DEPTH sha256_compress (con_tree st)
                       (concat (map commitments (vjoinsplit tx))))) (\<lambda>t.
          Ok \<lparr> con_nFees = nFees, con_nSigOps = nSigOps, con_tree = t,
               con_vtxundo = (if i > 0 then con_vtxundo st @ [txundo] else con_vtxundo st), con_checks = checks, con_view = cs2 \<rparr>))))"

fun connect_txs ::
  "node_env \<Rightarrow> chain_params \<Rightarrow> block_map \<Rightarrow> CCoinsViewDB \<Rightarrow> CValidationState \<Rightarrow> int \<Rightarrow> uint32 \<Rightarrow> bool \<Rightarrow> nat \<Rightarrow>
     CTransaction list \<Rightarrow> connect_state \<Rightarrow> connect_state check" where
  "connect_txs env cp m db state height flags fExpensiveChecks i [] st = Ok st"
| "connect_txs env cp m db state height flags fExpensiveChecks i (tx # txs) st =
     rbind (connect_tx env cp m db state height flags fExpensiveChecks i tx st)
       (connect_txs env cp m db state height flags fExpensiveChecks (Suc i) txs)"

text \<open>No transaction of the block may have the hash of one with unspent outputs.\<close>

fun check_BIP30 ::
  "(valtype \<Rightarrow> valtype) \<Rightarrow> CCoinsViewDB \<Rightarrow> CCoinsViewCache list \<Rightarrow> CValidationState \<Rightarrow> CTransaction list \<Rightarrow> CCoinsViewCache list check" where
  "check_BIP30 H db cs state [] = Ok cs"
| "check_BIP30 H db cs state (tx # txs) =
     (case AccessCoins db (hd cs) (tl cs) (GetHash H tx) of
        (None, cs') \<Rightarrow> check_BIP30 H db cs' state txs
      | (Some coins, cs') \<Rightarrow>
          if \<not> IsPruned coins then Err (DoS 100 REJECT_INVALID ''bad-txns-BIP30'' False state)
          else check_BIP30 H db cs' state txs)"

text \<open>The worker threads run every check of the list.\<close>

fun control_Wait :: "check_env \<Rightarrow> CScriptCheck list \<Rightarrow> (unit, bool) outcome" where
  "control_Wait env [] = Ok True"
| "control_Wait env (check # checks) =
     rbind (CScriptCheck_run env check) (\<lambda>(ok, _). rbind (control_Wait env checks) (\<lambda>rest. Ok (ok \<and> rest)))"

section \<open>The block\<close>

text \<open>What \<^verbatim>\<open>ConnectBlock\<close> writes to disk: the position of the undo data, or the state of a failure, and the transaction index.\<close>

record disk_env =
  de_WriteUndo :: "CBlockUndo \<Rightarrow> uint256 \<Rightarrow> CValidationState \<Rightarrow> uint32 check"
  de_WriteTxIndex :: "uint256 list \<Rightarrow> bool"
  fTxIndex :: bool

definition connect_fExpensiveChecks :: "node_env \<Rightarrow> chain_params \<Rightarrow> block_map \<Rightarrow> index_ptr \<Rightarrow> CBlockIndex \<Rightarrow> bool check" where
  "connect_fExpensiveChecks env cp m pindex idx =
     (if fCheckpointsEnabled env then
        (case GetLastCheckpoint m (mapCheckpoints cp) of
           None \<Rightarrow> Ok True
         | Some pindexLast \<Rightarrow> rbind (call (GetAncestor m pindexLast (nHeight idx))) (\<lambda>a. Ok (a \<noteq> Some pindex)))
      else Ok True)"

text \<open>The transactions and the anchor of a block that is not the first; the result is the state of the loop, its view with the
  new anchor, and the undo data.\<close>

definition connect_body ::
  "node_env \<Rightarrow> chain_params \<Rightarrow> block_map \<Rightarrow> CCoinsViewDB \<Rightarrow> CCoinsViewCache list \<Rightarrow> CTransaction list \<Rightarrow> CBlockIndex \<Rightarrow> bool \<Rightarrow>
     CValidationState \<Rightarrow> (connect_state \<times> CBlockUndo) check" where
  "connect_body env cp m db cs txs idx fExpensiveChecks state =
     rbind (check_BIP30 (ne_H env) db cs state txs) (\<lambda>cs1.
       case GetBestAnchor db cs1 of
         (root, cs2) \<Rightarrow>
           (case GetAnchorAt db cs2 root (nHeight idx - 1 \<ge> zResetHeight (consensus cp)) of
              (None, _) \<Rightarrow> Abort
            | (Some t, cs3) \<Rightarrow>
                if tree_root t \<noteq> root then Abort
                else
                  rbind (connect_txs env cp m db state (nHeight idx) (GetBlockScriptFlags (pow (consensus cp)) idx) fExpensiveChecks 0 txs
                           \<lparr> con_nFees = 0, con_nSigOps = 0, con_tree = t, con_vtxundo = [], con_checks = [], con_view = cs3 \<rparr>) (\<lambda>st.
                  rbind (if nHeight idx = zResetHeight (consensus cp)
                         then call (imt_append INCREMENTAL_MERKLE_TREE_DEPTH sha256_compress IncrementalMerkleTree_empty
                                      (tree_root IncrementalMerkleTree_empty))
                         else Ok (con_tree st)) (\<lambda>t'.
                    Ok (st\<lparr> con_tree := t',
                            con_view := PushAnchor db (con_view st) t' (nHeight idx \<ge> zResetHeight (consensus cp)) \<rparr>,
                        \<lparr> vtxundo = con_vtxundo st, old_tree_root = root \<rparr>)))))"

definition check_reward :: "chain_params \<Rightarrow> int \<Rightarrow> CTransaction list \<Rightarrow> CAmount \<Rightarrow> CValidationState \<Rightarrow> unit check" where
  "check_reward cp height txs nFees state =
     (if isForkBlock (pow (consensus cp)) height then Ok ()
      else
        rbind (GetBlockSubsidy height (consensus cp)) (\<lambda>subsidy.
        rbind (GetValueOut (hd txs)) (\<lambda>valueOut.
          if \<not> in_int64 (nFees + subsidy) then Abort
          else if valueOut > nFees + subsidy then Err (DoS 100 REJECT_INVALID ''bad-cb-amount'' False state)
          else Ok ())))"

text \<open>The changes of the block index when the undo data is written.\<close>

definition connect_index ::
  "disk_env \<Rightarrow> CBlockUndo \<Rightarrow> CBlockIndex \<Rightarrow> CValidationState \<Rightarrow> CBlockIndex check" where
  "connect_index disk undo idx state =
     (let no_pos = (fst (GetUndoPos idx) = - 1) in
      rbind (call (index_IsValid idx BLOCK_VALID_SCRIPTS)) (\<lambda>valid.
        if no_pos \<or> \<not> valid then
          rbind (if no_pos then
                   (case pprev idx of
                      None \<Rightarrow> Abort
                    | Some hashPrev \<Rightarrow>
                        rbind (de_WriteUndo disk undo hashPrev state) (\<lambda>pos.
                          Ok (idx\<lparr> nUndoPos := pos, nStatus := nStatus idx OR BLOCK_HAVE_UNDO \<rparr>)))
                 else Ok idx) (\<lambda>idx1.
          rbind (call (RaiseValidity idx1 BLOCK_VALID_SCRIPTS)) (\<lambda>(idx2, _). Ok idx2))
        else Ok idx))"

text \<open>The result is the view, the block index, and the undo data, if any was made.\<close>

definition ConnectBlock ::
  "node_env \<Rightarrow> disk_env \<Rightarrow> chain_params \<Rightarrow> block_map \<Rightarrow> CCoinsViewDB \<Rightarrow> CCoinsViewCache list \<Rightarrow> CBlock \<Rightarrow> CValidationState \<Rightarrow>
     index_ptr \<Rightarrow> bool \<Rightarrow> (CCoinsViewCache list \<times> block_map \<times> CBlockUndo option) check" where
  "ConnectBlock env disk cp m db cs block state pindex fJustCheck =
     (case m pindex of
        None \<Rightarrow> Abort
      | Some idx \<Rightarrow>
          rbind (connect_fExpensiveChecks env cp m pindex idx) (\<lambda>fExpensiveChecks.
          rbind (CheckBlock env cp block state (if fExpensiveChecks then ce_js_Verify (ne_check env) else (\<lambda>_ _. True))
                   (\<not> fJustCheck) (\<not> fJustCheck)) (\<lambda>_.
            let hashPrev = (case pprev idx of None \<Rightarrow> 0 | Some p \<Rightarrow> p) in
            case GetBestBlock db cs of
              (best, cs0) \<Rightarrow>
                if hashPrev \<noteq> best then Abort
                else if header_GetHash (ne_H env) block = hashGenesisBlock (consensus cp) then
                  (if fJustCheck then Ok (cs0, m, None)
                   else
                     let root = tree_root IncrementalMerkleTree_empty in
                     Ok (SetBestBlock pindex (hd cs0) # tl cs0, m(pindex \<mapsto> idx\<lparr> hashAnchor := root, hashAnchorEnd := root \<rparr>), None))
                else
                  rbind (connect_body env cp m db cs0 (vtx block) idx fExpensiveChecks state) (\<lambda>(st, undo).
                    let idx1 = (if fJustCheck then idx
                                else idx\<lparr> hashAnchor := old_tree_root undo, hashAnchorEnd := tree_root (con_tree st) \<rparr>) in
                    rbind (check_reward cp (nHeight idx) (vtx block) (con_nFees st) state) (\<lambda>_.
                    rbind (call (control_Wait (ne_check env) (con_checks st))) (\<lambda>passed.
                      if \<not> passed then Err (DoS 100 0 '''' False state)
                      else if fJustCheck then Ok (con_view st, m, Some undo)
                      else
                        rbind (connect_index disk undo idx1 state) (\<lambda>idx2.
                          if fTxIndex disk \<and> \<not> de_WriteTxIndex disk (map (GetHash (ne_H env)) (vtx block))
                          then Err (Error ''Failed to write transaction index'' state)
                          else
                            Ok (SetBestBlock pindex (hd (con_view st)) # tl (con_view st), m(pindex \<mapsto> idx2), Some undo))))))))"

section \<open>Transactions that a block may contain\<close>

lemma length_concat_map: "(\<And>x. x \<in> set xs \<Longrightarrow> f x \<noteq> []) \<Longrightarrow> length xs \<le> length (concat (map f xs))"
proof (induction xs)
  case (Cons x xs)
  have "f x \<noteq> []" using Cons.prems by simp
  then have "1 \<le> length (f x)" by (cases "f x") simp_all
  moreover have "length xs \<le> length (concat (map f xs))" using Cons by simp
  ultimately show ?case by simp
qed simp

lemma length_vout_ser: "length (vout tx) \<le> length (ser_CTransaction tx)"
proof -
  have "ser_CTxOut txout \<noteq> []" for txout by (simp add: ser_CTxOut_def ser_int64_def ser_writedata64_def flip: length_0_conv)
  then show ?thesis using length_concat_map [of "vout tx" ser_CTxOut] by (simp add: ser_CTransaction_def ser_vector_def)
qed

lemma well_formed_connectable:
  assumes "tx_well_formed tx" "st_unspent S (GetHash H tx) = None"
    "IsCoinBase tx \<or> list_all (output_available (st_unspent S)) (map prevout (vin tx)) \<and> list_all (\<lambda>nf. \<not> st_nullifier S nf) (tx_nullifiers tx)"
  shows "tx_connectable H S tx"
proof -
  have "length (vout tx) < 2 ^ 32" using assms(1) length_vout_ser [of tx] by (simp add: tx_well_formed_def)
  moreover have "IsCoinBase tx \<Longrightarrow> tx_nullifiers tx = []" using assms(1) by (simp add: tx_well_formed_def tx_nullifiers_def)
  moreover have "list_all (\<lambda>txout. 0 \<le> nValue txout) (vout tx)"
    using assms(1) by (auto simp: tx_well_formed_def list_all_iff MoneyRange_def)
  ultimately show ?thesis using assms by (auto simp: tx_connectable_def tx_well_formed_def)
qed

lemma check_transactions_Ok:
  "check_transactions js_Verify state txs = Ok () \<Longrightarrow> list_all tx_well_formed txs"
proof (induction txs)
  case (Cons tx txs)
  then show ?case
    using CheckTransactionWithoutProofVerification_decides [of state tx]
    by (auto simp: outcome_simps CheckTransaction_def decides_def split: if_splits)
qed simp

lemma CheckBlock_Ok:
  assumes "CheckBlock env cp block state js_Verify fPow fMerkle = Ok ()"
  shows "list_all tx_well_formed (vtx block)" "vtx block \<noteq> []" "IsCoinBase (hd (vtx block))"
    "looksLikeForkBlockHeader cp block \<Longrightarrow> int (length (vtx block)) \<le> forkCBPerBlock (consensus cp) mod 2 ^ 64 \<and> list_all IsCoinBase (vtx block)"
    "\<not> looksLikeForkBlockHeader cp block \<Longrightarrow> list_all (\<lambda>tx. \<not> IsCoinBase tx) (tl (vtx block))"
proof -
  have r: "vtx block \<noteq> []" "IsCoinBase (hd (vtx block))" "check_transactions js_Verify state (vtx block) = Ok ()"
    "\<not> (looksLikeForkBlockHeader cp block \<and> int (length (vtx block)) > forkCBPerBlock (consensus cp) mod 2 ^ 64)"
    "\<not> (looksLikeForkBlockHeader cp block \<and> list_ex (\<lambda>tx. \<not> IsCoinBase tx) (tl (vtx block)))"
    "\<not> (\<not> looksLikeForkBlockHeader cp block \<and> list_ex IsCoinBase (tl (vtx block)))"
    using assms by (auto simp: CheckBlock_def outcome_simps split: if_splits)
  show "list_all tx_well_formed (vtx block)" by (rule check_transactions_Ok [OF r(3)])
  show "vtx block \<noteq> []" "IsCoinBase (hd (vtx block))" by (rule r)+
  show "int (length (vtx block)) \<le> forkCBPerBlock (consensus cp) mod 2 ^ 64 \<and> list_all IsCoinBase (vtx block)" if "looksLikeForkBlockHeader cp block"
    using that r by (cases "vtx block") (auto simp: list_ex_iff list_all_iff)
  show "list_all (\<lambda>tx. \<not> IsCoinBase tx) (tl (vtx block))" if "\<not> looksLikeForkBlockHeader cp block"
    using that r by (auto simp: list_ex_iff list_all_iff)
qed

lemma check_BIP30_Ok:
  "view_ok db cs \<Longrightarrow> cs \<noteq> [] \<Longrightarrow> check_BIP30 H db cs state txs = Ok cs' \<Longrightarrow>
   filled_view db cs cs' \<and> list_all (\<lambda>tx. view_unspent db cs (GetHash H tx) = None) txs"
proof (induction txs arbitrary: cs)
  case Nil
  then show ?case by (simp add: filled_refl)
next
  case (Cons tx txs)
  obtain cs1 where a: "AccessCoins db (hd cs) (tl cs) (GetHash H tx) = (view_coins db cs (GetHash H tx), cs1)"
    and f: "filled_view db cs cs1" by (rule AccessCoins_filled [OF Cons.prems(1,2)])
  have none: "view_unspent db cs (GetHash H tx) = None" and r: "check_BIP30 H db cs1 state txs = Ok cs'"
    using Cons.prems(3) a by (auto simp: view_unspent_def unspent_def split: option.splits if_splits)
  note p = filled_props [OF f]
  from Cons.IH [OF p(1) p(2) [OF Cons.prems(2)] r] show ?case using none filled_trans [OF f] by (simp add: p)
qed

section \<open>Connecting the transactions of a block\<close>

lemma connect_inputs_Ok:
  assumes ok: "view_ok db (con_view st)" "con_view st \<noteq> []" and nc: "\<not> IsCoinBase tx"
    and r: "connect_inputs env cp m db state height flags fx n tx st = Ok (fees, n', checks, cs')"
  shows "filled_view db (con_view st) cs'"
    "list_all (output_available (view_unspent db (con_view st))) (map prevout (vin tx))"
    "list_all (\<lambda>nf. \<not> view_nullifier db (con_view st) nf) (tx_nullifiers tx)"
    "fees = con_nFees st + total_in (view_unspent db (con_view st)) tx + sum_list (map vpub_new (vjoinsplit tx)) -
       sum_list (map nValue (vout tx)) - sum_list (map vpub_old (vjoinsplit tx))"
proof -
  let ?cs = "con_view st"
  obtain have1 cs1 where h: "HaveInputs db ?cs tx = (have1, cs1)" by (cases "HaveInputs db ?cs tx")
  with r have "have1" by (auto simp: connect_inputs_def split: bool.splits)
  with h HaveInputs_filled [OF ok, of tx] nc have av: "list_all (output_available (view_unspent db ?cs)) (map prevout (vin tx))"
    and f1: "filled_view db ?cs cs1" by auto
  obtain cs2 k cs3 vi cs4 vo checks' where
    q: "HaveJoinSplitRequirements db cs1 tx (height > zResetHeight (consensus cp)) = Ok (True, cs2)"
       "GetP2SHSigOpCount db cs2 tx = (Ok (k, cs3) :: (uint32 \<times> CCoinsViewCache list) check)"
       "GetValueIn db cs3 tx = (Ok (vi, cs4) :: (CAmount \<times> CCoinsViewCache list) check)" "GetValueOut tx = (Ok vo :: CAmount check)"
       "ContextualCheckInputs (ne_check env) (consensus cp) m db cs4 tx state fx flags (nScriptCheckThreads (ne_check env) \<noteq> 0) = Ok (checks', cs')"
       "fees = con_nFees st + (vi - vo)"
    using r h \<open>have1\<close> by (auto simp: connect_inputs_def call_Ok outcome_simps split: if_splits prod.splits)
  from HaveJoinSplitRequirements_met [OF filled_props(1) [OF f1] q(1)] have f2: "filled_view db cs1 cs2"
    and nf: "list_all (\<lambda>nf. \<not> view_nullifier db cs1 nf) (tx_nullifiers tx)" by simp_all
  note f12 = filled_trans [OF f1 f2]
  have "p2sh_sigops db cs2 0 (vin tx) = (Ok (k, cs3) :: (uint32 \<times> CCoinsViewCache list) check)" using q(2) nc by (simp add: GetP2SHSigOpCount_def)
  from p2sh_sigops_filled [OF filled_props(1) [OF f12] filled_props(2) [OF f12 ok(2)] this] have f13: "filled_view db ?cs cs3"
    by (rule filled_trans [OF f12])
  note v = GetValueIn_filled [OF filled_props(1) [OF f13] filled_props(2) [OF f13 ok(2)] _ nc q(3), unfolded filled_props [OF f13], OF av]
  note f14 = filled_trans [OF f13 v(1)]
  from ContextualCheckInputs_accepts(1) [OF filled_props(1) [OF f14] filled_props(2) [OF f14 ok(2)] q(5)]
  show "filled_view db ?cs cs'" by (rule filled_trans [OF f14])
  show "list_all (output_available (view_unspent db ?cs)) (map prevout (vin tx))" by (rule av)
  show "list_all (\<lambda>nf. \<not> view_nullifier db ?cs nf) (tx_nullifiers tx)" using nf by (simp add: filled_props [OF f1])
  have "vo = sum_list (map nValue (vout tx)) + sum_list (map vpub_old (vjoinsplit tx))" using q(4) GetValueOut_iff by blast
  then show "fees = con_nFees st + total_in (view_unspent db ?cs) tx + sum_list (map vpub_new (vjoinsplit tx)) -
       sum_list (map nValue (vout tx)) - sum_list (map vpub_old (vjoinsplit tx))" using q(6) v(2) by simp
qed

lemma connect_tx_disconnects:
  assumes ok: "view_ok db (con_view st)" "con_view st \<noteq> []" and can: "map_canonical (view_unspent db (con_view st))"
    and wf: "tx_well_formed tx" and new: "view_unspent db (con_view st) (GetHash (ne_H env) tx) = None" and h: "0 < height" "height < 2 ^ 31"
    and r: "connect_tx env cp m db state height flags fx i tx st = Ok st'"
  obtains u U' N' where "con_vtxundo st' = (if i > 0 then con_vtxundo st @ [u] else con_vtxundo st)" "map_canonical U'"
    "U' = connected_map (ne_H env) (view_unspent db (con_view st)) tx height"
    "\<forall>k. view_unspent db (con_view st) k = None \<and> k \<noteq> GetHash (ne_H env) tx \<longrightarrow> U' k = None"
    "changes_to db (con_view st) (con_view st') ((view_abs db (con_view st))\<lparr> st_unspent := U', st_nullifier := N' \<rparr>)"
    "disconnects (\<lambda>cs. disconnect_tx (ne_H env) db cs tx height (tx_undo tx u)) db (view_abs db (con_view st')) (view_abs db (con_view st))"
proof -
  let ?n = "con_nSigOps st + GetLegacySigOpCount tx"
  obtain fees n checks cs1 u cs2 where
    q: "(if \<not> IsCoinBase tx then connect_inputs env cp m db state height flags fx ?n tx st
         else Ok (con_nFees st, ?n, con_checks st, con_view st)) = Ok (fees, n, checks, cs1)"
       "UpdateCoins (ne_H env) db cs1 tx height = Ok (u, cs2)"
       "con_vtxundo st' = (if i > 0 then con_vtxundo st @ [u] else con_vtxundo st)" "con_view st' = cs2"
    using r by (auto simp: connect_tx_def Let_def call_Ok outcome_simps simp del: if_split split: if_split_asm)
  have f: "filled_view db (con_view st) cs1" and c: "IsCoinBase tx \<or>
      list_all (output_available (view_unspent db (con_view st))) (map prevout (vin tx)) \<and>
      list_all (\<lambda>nf. \<not> view_nullifier db (con_view st) nf) (tx_nullifiers tx)"
    using q(1) connect_inputs_Ok [OF ok] filled_refl [OF ok(1)] by (auto split: if_splits)
  note p = filled_props [OF f]
  have tx: "tx_connectable (ne_H env) (view_abs db cs1) tx"
    using c new by (intro well_formed_connectable [OF wf]) (simp_all add: p view_abs_def)
  obtain undos cs' U' N' where w: "UpdateCoins (ne_H env) db cs1 tx height = Ok (undos, cs')" "map_canonical U'" "U' = connected_map (ne_H env) (view_unspent db cs1) tx height"
    "\<forall>k. view_unspent db cs1 k = None \<and> k \<noteq> GetHash (ne_H env) tx \<longrightarrow> U' k = None"
    "changes_to db cs1 cs' ((view_abs db cs1)\<lparr> st_unspent := U', st_nullifier := N' \<rparr>)"
    "disconnects (\<lambda>cs. disconnect_tx (ne_H env) db cs tx height (tx_undo tx undos)) db (view_abs db cs') (view_abs db cs1)"
    by (rule UpdateCoins_disconnects [OF p(1) p(2) [OF ok(2)] _ tx h]) (use can in \<open>simp add: p\<close>)
  have "changes_to db (con_view st) cs' ((view_abs db (con_view st))\<lparr> st_unspent := U', st_nullifier := N' \<rparr>)"
    using w(5) by (simp add: changes_to_def p)
  then show thesis using that [of u U' N'] q w by (simp add: p)
qed

lemma connect_tx_fees:
  assumes ok: "view_ok db (con_view st)" "con_view st \<noteq> []" and r: "connect_tx env cp m db state height flags fx i tx st = Ok st'"
  shows "IsCoinBase tx \<Longrightarrow> con_nFees st' = con_nFees st"
    "\<not> IsCoinBase tx \<Longrightarrow> list_all (output_available (view_unspent db (con_view st))) (map prevout (vin tx)) \<and>
       con_nFees st' = con_nFees st + total_in (view_unspent db (con_view st)) tx + sum_list (map vpub_new (vjoinsplit tx)) -
         sum_list (map nValue (vout tx)) - sum_list (map vpub_old (vjoinsplit tx))"
proof -
  let ?n = "con_nSigOps st + GetLegacySigOpCount tx"
  obtain n checks cs1 where
    q: "(if \<not> IsCoinBase tx then connect_inputs env cp m db state height flags fx ?n tx st
         else Ok (con_nFees st, ?n, con_checks st, con_view st)) = Ok (con_nFees st', n, checks, cs1)"
    using r by (auto simp: connect_tx_def Let_def call_Ok outcome_simps simp del: if_split split: if_split_asm)
  then show "IsCoinBase tx \<Longrightarrow> con_nFees st' = con_nFees st" by simp
  show "\<not> IsCoinBase tx \<Longrightarrow> list_all (output_available (view_unspent db (con_view st))) (map prevout (vin tx)) \<and>
       con_nFees st' = con_nFees st + total_in (view_unspent db (con_view st)) tx + sum_list (map vpub_new (vjoinsplit tx)) -
         sum_list (map nValue (vout tx)) - sum_list (map vpub_old (vjoinsplit tx))"
    using q connect_inputs_Ok [OF ok] by simp
qed

lemma disconnects_trans:
  assumes f: "disconnects f db S2 S1" and g: "disconnects g db S1 S0"
  shows "disconnects (\<lambda>cs. rbind (f cs) (\<lambda>(clean, cs1). rbind (g cs1) (\<lambda>(clean1, cs2). Ok (clean \<and> clean1, cs2)))) db S2 S0"
  unfolding disconnects_def
proof (intro allI impI)
  fix cs assume cs: "view_ok db cs \<and> cs \<noteq> [] \<and> view_unspent db cs = st_unspent S2 \<and> view_nullifier db cs = st_nullifier S2"
  then obtain cs1 where 1: "f cs = Ok (True, cs1)"
      "changes_to db cs cs1 ((view_abs db cs)\<lparr> st_unspent := st_unspent S1, st_nullifier := st_nullifier S1 \<rparr>)"
    using f unfolding disconnects_def by blast
  have "view_ok db cs1 \<and> cs1 \<noteq> [] \<and> view_unspent db cs1 = st_unspent S1 \<and> view_nullifier db cs1 = st_nullifier S1"
    using changes_toD [OF 1(2)] cs changes_to_unspent [OF 1(2)] changes_to_nullifier [OF 1(2)] by auto
  then obtain cs2 where 2: "g cs1 = Ok (True, cs2)"
      "changes_to db cs1 cs2 ((view_abs db cs1)\<lparr> st_unspent := st_unspent S0, st_nullifier := st_nullifier S0 \<rparr>)"
    using g unfolding disconnects_def by blast
  have "changes_to db cs cs2 ((view_abs db cs)\<lparr> st_unspent := st_unspent S0, st_nullifier := st_nullifier S0 \<rparr>)"
    using changes_to_trans [OF 1(2) 2(2)] changes_toD [OF 1(2)] by simp
  then show "\<exists>cs'. rbind (f cs) (\<lambda>(clean, cs1). rbind (g cs1) (\<lambda>(clean1, cs2). Ok (clean \<and> clean1, cs2))) = Ok (True, cs') \<and>
      changes_to db cs cs' ((view_abs db cs)\<lparr> st_unspent := st_unspent S0, st_nullifier := st_nullifier S0 \<rparr>)"
    using 1(1) 2(1) by simp
qed

text \<open>\<open>undo_slots V i us\<close>: the undo data \<open>V\<close> of a block holds \<open>us\<close> for the transactions from number \<open>i\<close> on; number 0 has none.\<close>

definition undo_slots :: "CTxUndo list \<Rightarrow> nat \<Rightarrow> CTxUndo list \<Rightarrow> bool" where
  "undo_slots V i us \<longleftrightarrow> (\<forall>j < length us. 0 < i + j \<longrightarrow> V ! (i + j - 1) = us ! j)"

lemma undo_slots_Cons: "undo_slots V i (u # us) \<longleftrightarrow> (0 < i \<longrightarrow> V ! (i - 1) = u) \<and> undo_slots V (Suc i) us"
proof
  assume l: "undo_slots V i (u # us)"
  have "V ! (Suc i + j - 1) = us ! j" if "j < length us" for j
    using l [unfolded undo_slots_def, rule_format, of "Suc j"] that by simp
  moreover have "0 < i \<Longrightarrow> V ! (i - 1) = u" using l [unfolded undo_slots_def, rule_format, of 0] by simp
  ultimately show "(0 < i \<longrightarrow> V ! (i - 1) = u) \<and> undo_slots V (Suc i) us" by (simp add: undo_slots_def)
next
  assume r: "(0 < i \<longrightarrow> V ! (i - 1) = u) \<and> undo_slots V (Suc i) us"
  show "undo_slots V i (u # us)"
    unfolding undo_slots_def
  proof (intro allI impI)
    fix j assume j: "j < length (u # us)" "0 < i + j"
    then show "V ! (i + j - 1) = (u # us) ! j" using r by (cases j) (auto simp: undo_slots_def)
  qed
qed

lemma connect_txs_disconnects:
  assumes "view_ok db (con_view st)" "con_view st \<noteq> []" "map_canonical (view_unspent db (con_view st))"
    "list_all tx_well_formed txs" "distinct (map (GetHash (ne_H env)) txs)"
    "list_all (\<lambda>tx. view_unspent db (con_view st) (GetHash (ne_H env) tx) = None) txs" "0 < height" "height < 2 ^ 31"
    "connect_txs env cp m db state height flags fx i txs st = Ok st'" and CB: "0 \<le> nNonCB"
  shows "\<exists>us U' N'. length us = length txs \<and> con_vtxundo st' = con_vtxundo st @ (if i = 0 then tl us else us) \<and>
    changes_to db (con_view st) (con_view st') ((view_abs db (con_view st))\<lparr> st_unspent := U', st_nullifier := N' \<rparr>) \<and>
    (\<forall>V. undo_slots V i us \<and> (\<forall>j < length txs. int (i + j) > nNonCB \<longleftrightarrow> \<not> IsCoinBase (txs ! j)) \<longrightarrow>
       disconnects (\<lambda>cs. disconnect_txs (ne_H env) db cs height nNonCB V i txs) db (view_abs db (con_view st')) (view_abs db (con_view st)))"
  using assms(1-9)
proof (induction txs arbitrary: i st)
  case Nil
  have "changes_to db cs cs ((view_abs db cs)\<lparr> st_unspent := st_unspent (view_abs db cs), st_nullifier := st_nullifier (view_abs db cs) \<rparr>)"
    if "view_ok db cs" for cs using that by (simp add: changes_to_def)
  then have "disconnects (\<lambda>cs. Ok (True, cs)) db (view_abs db (con_view st)) (view_abs db (con_view st))"
    by (auto simp: disconnects_def view_abs_def changes_to_def)
  moreover have "changes_to db (con_view st) (con_view st)
      ((view_abs db (con_view st))\<lparr> st_unspent := view_unspent db (con_view st), st_nullifier := view_nullifier db (con_view st) \<rparr>)"
    using Nil.prems(1) by (simp add: changes_to_def view_abs_def)
  ultimately show ?case using Nil.prems(9) by auto
next
  case (Cons tx txs)
  from Cons.prems(9) obtain st1 where r: "connect_tx env cp m db state height flags fx i tx st = Ok st1"
      "connect_txs env cp m db state height flags fx (Suc i) txs st1 = Ok st'" by (auto simp: outcome_simps)
  have wf: "tx_well_formed tx" and new: "view_unspent db (con_view st) (GetHash (ne_H env) tx) = None" using Cons.prems(4,6) by simp_all
  obtain u U1 N1 where q: "con_vtxundo st1 = (if i > 0 then con_vtxundo st @ [u] else con_vtxundo st)" "map_canonical U1" "U1 = connected_map (ne_H env) (view_unspent db (con_view st)) tx height"
    "\<forall>k. view_unspent db (con_view st) k = None \<and> k \<noteq> GetHash (ne_H env) tx \<longrightarrow> U1 k = None"
    "changes_to db (con_view st) (con_view st1) ((view_abs db (con_view st))\<lparr> st_unspent := U1, st_nullifier := N1 \<rparr>)"
    "disconnects (\<lambda>cs. disconnect_tx (ne_H env) db cs tx height (tx_undo tx u)) db (view_abs db (con_view st1)) (view_abs db (con_view st))"
    by (rule connect_tx_disconnects [OF Cons.prems(1-3) wf new Cons.prems(7,8) r(1)])
  have U1: "view_unspent db (con_view st1) = U1" using changes_to_unspent [OF q(5)] by simp
  have ok1: "view_ok db (con_view st1)" "con_view st1 \<noteq> []" using changes_toD [OF q(5)] Cons.prems(2) by auto
  have new1: "list_all (\<lambda>tx. view_unspent db (con_view st1) (GetHash (ne_H env) tx) = None) txs"
    unfolding U1 list_all_iff
  proof
    fix tx' assume "tx' \<in> set txs"
    then have "GetHash (ne_H env) tx' \<noteq> GetHash (ne_H env) tx" "view_unspent db (con_view st) (GetHash (ne_H env) tx') = None"
      using Cons.prems(5,6) by (auto simp: list_all_iff image_iff)
    then show "U1 (GetHash (ne_H env) tx') = None" using q(4) by blast
  qed
  from Cons.IH [OF ok1 _ _ _ new1 Cons.prems(7,8) r(2)] Cons.prems(4,5) q(2) obtain us U' N' where
    i: "length us = length txs" "con_vtxundo st' = con_vtxundo st1 @ us"
      "changes_to db (con_view st1) (con_view st') ((view_abs db (con_view st1))\<lparr> st_unspent := U', st_nullifier := N' \<rparr>)"
      "\<forall>V. undo_slots V (Suc i) us \<and> (\<forall>j < length txs. int (Suc i + j) > nNonCB \<longleftrightarrow> \<not> IsCoinBase (txs ! j)) \<longrightarrow>
       disconnects (\<lambda>cs. disconnect_txs (ne_H env) db cs height nNonCB V (Suc i) txs) db (view_abs db (con_view st')) (view_abs db (con_view st1))"
    by (auto simp: U1)
  have ch: "changes_to db (con_view st) (con_view st') ((view_abs db (con_view st))\<lparr> st_unspent := U', st_nullifier := N' \<rparr>)"
    using changes_to_trans [OF q(5) i(3)] changes_toD [OF q(5)] by simp
  have dis: "disconnects (\<lambda>cs. disconnect_txs (ne_H env) db cs height nNonCB V i (tx # txs)) db (view_abs db (con_view st')) (view_abs db (con_view st))"
    if V: "undo_slots V i (u # us)" "\<forall>j < length (tx # txs). int (i + j) > nNonCB \<longleftrightarrow> \<not> IsCoinBase ((tx # txs) ! j)" for V
  proof -
    have "\<forall>j < length txs. int (Suc i + j) > nNonCB \<longleftrightarrow> \<not> IsCoinBase (txs ! j)" using V(2) by fastforce
    with i(4) V(1) undo_slots_Cons
    have d1: "disconnects (\<lambda>cs. disconnect_txs (ne_H env) db cs height nNonCB V (Suc i) txs) db (view_abs db (con_view st')) (view_abs db (con_view st1))"
      by blast
    have "int i > nNonCB \<longleftrightarrow> \<not> IsCoinBase tx" using V(2) [rule_format, of 0] by simp
    moreover have "0 < i \<Longrightarrow> V ! (i - 1) = u" using V(1) by (simp add: undo_slots_Cons)
    ultimately have "tx_undo tx u = (if int i > nNonCB then Some (V ! (i - 1)) else None)"
      using CB by (auto simp: tx_undo_def)
    with disconnects_trans [OF d1 q(6)] show ?thesis by simp
  qed
  then show ?case using i(1,2) ch q(1) by (intro exI [of _ "u # us"] exI [of _ U'] exI [of _ N']) auto
qed

section \<open>The anchor on top of the view\<close>

text \<open>The changes to coins and nullifiers leave the anchors of the top cache alone.\<close>

definition same_anchors :: "CCoinsViewCache list \<Rightarrow> CCoinsViewCache list \<Rightarrow> bool" where
  "same_anchors cs cs' \<longleftrightarrow>
     cs' \<noteq> [] \<and> cacheAnchors (hd cs') = cacheAnchors (hd cs) \<and> cv_hashAnchor (hd cs') = cv_hashAnchor (hd cs)"

lemma same_anchors_trans: "same_anchors cs cs' \<Longrightarrow> same_anchors cs' cs'' \<Longrightarrow> same_anchors cs cs''"
  by (simp add: same_anchors_def)

lemma ModifyCoins_anchors: "ModifyCoins db (hd cs) (tl cs) txid f = (r, cs') \<Longrightarrow> same_anchors cs cs'"
  by (auto simp: same_anchors_def ModifyCoins_def CCoinsModifier_release_def Let_def split: prod.splits)

lemma set_nullifiers_anchors: "cs \<noteq> [] \<Longrightarrow> same_anchors cs (set_nullifiers cs nfs spent)"
proof (induction nfs arbitrary: cs)
  case (Cons nf nfs)
  have "same_anchors (SetNullifier (hd cs) nf spent # tl cs) (set_nullifiers (SetNullifier (hd cs) nf spent # tl cs) nfs spent)"
    by (rule Cons.IH) simp
  then show ?case by (simp add: same_anchors_def SetNullifier_def)
qed (simp add: same_anchors_def)

lemma apply_undos_anchors: "cs \<noteq> [] \<Longrightarrow> apply_undos db cs zs = Ok (b, cs') \<Longrightarrow> same_anchors cs cs'"
proof (induction db cs zs arbitrary: b cs' rule: apply_undos.induct)
  case (2 db cs undo out rest)
  then obtain b1 cs1 b2 where 1: "apply_undos db cs rest = Ok (b1, cs1)" "ApplyTxInUndo db cs1 undo out = Ok (b2, cs')"
    by (auto simp: outcome_simps)
  have "same_anchors cs1 cs'" using 1(2) by (auto simp: ApplyTxInUndo_def split: prod.splits option.splits dest!: ModifyCoins_anchors)
  with 2 1(1) show ?case using same_anchors_trans by blast
qed (simp add: same_anchors_def)

lemma disconnect_tx_anchors:
  assumes "disconnect_tx H db cs tx height undo = Ok (b, cs')"
  shows "same_anchors cs cs'"
proof -
  obtain c cs1 where m: "ModifyCoins db (hd cs) (tl cs) (GetHash H tx) (remove_outputs tx height) = (c, cs1)"
    by (cases "ModifyCoins db (hd cs) (tl cs) (GetHash H tx) (remove_outputs tx height)")
  note s1 = ModifyCoins_anchors [OF m]
  have "cs1 \<noteq> []" using s1 by (simp add: same_anchors_def)
  note s2 = same_anchors_trans [OF s1 set_nullifiers_anchors [OF this, of "tx_nullifiers tx" False]]
  have "set_nullifiers cs1 (tx_nullifiers tx) False \<noteq> []" using s2 by (simp add: same_anchors_def)
  note s3 = apply_undos_anchors [OF this]
  show ?thesis using assms m s2 same_anchors_trans [OF s2 s3]
    by (auto simp: disconnect_tx_def Let_def outcome_simps split: option.splits if_splits)
qed

lemma disconnect_txs_anchors:
  "cs \<noteq> [] \<Longrightarrow> disconnect_txs H db cs height n V i txs = Ok (b, cs') \<Longrightarrow> same_anchors cs cs'"
proof (induction txs arbitrary: i b cs')
  case (Cons tx txs)
  then obtain b1 cs1 b2 u where 1: "disconnect_txs H db cs height n V (Suc i) txs = Ok (b1, cs1)"
    "disconnect_tx H db cs1 tx height u = Ok (b2, cs')" by (auto simp: outcome_simps simp del: if_split)
  show ?case using Cons.IH [OF Cons.prems(1) 1(1)] disconnect_tx_anchors [OF 1(2)] by (rule same_anchors_trans)
qed (simp add: same_anchors_def)

definition top_anchor :: "CCoinsViewCache list \<Rightarrow> uint256 \<Rightarrow> bool \<Rightarrow> bool" where
  "top_anchor cs rt postBurn \<longleftrightarrow>
     cv_hashAnchor (hd cs) = rt \<and>
     (case map_of (cacheAnchors (hd cs)) rt of
        None \<Rightarrow> False | Some e \<Rightarrow> anchor_entered e \<and> (postBurn \<longrightarrow> anchor_postBurn e))"

lemma PushAnchor_top:
  assumes "view_ok db cs" "cs \<noteq> []" "view_best_anchor db cs \<noteq> tree_root t"
  shows "top_anchor (PushAnchor db cs t postBurn) (tree_root t) postBurn"
proof -
  obtain h cs1 where g: "GetBestAnchor db cs = (h, cs1)" by (cases "GetBestAnchor db cs")
  have h: "h = view_best_anchor db cs" and f: "filled_view db cs cs1" using GetBestAnchor_filled [OF assms(1)] g by simp_all
  obtain c base where cs1: "cs1 = c # base" using f assms(2) by (cases cs1) (auto simp: filled_view_def)
  show ?thesis using g h cs1 assms(3) by (simp add: PushAnchor_def top_anchor_def Let_def update_conv')
qed

lemma PopAnchor_top:
  assumes "cs \<noteq> []" "top_anchor cs rt postBurn" "rt \<noteq> 0"
  shows "\<exists>cs'. PopAnchor db cs newrt postBurn = Ok cs'"
proof -
  obtain c base where cs: "cs = c # base" using assms(1) by (cases cs) auto
  obtain e where e: "map_of (cacheAnchors c) rt = Some e" "anchor_entered e" "postBurn \<longrightarrow> anchor_postBurn e" "cv_hashAnchor c = rt"
    using assms(2) cs by (auto simp: top_anchor_def split: option.splits)
  then show ?thesis using assms(3) cs by (auto simp: PopAnchor_def)
qed

lemma same_anchors_top: "same_anchors cs cs' \<Longrightarrow> top_anchor cs rt postBurn \<Longrightarrow> top_anchor cs' rt postBurn"
  by (simp add: same_anchors_def top_anchor_def)

section \<open>Connecting and disconnecting a block\<close>

lemma connect_body_disconnects:
  assumes ok: "view_ok db cs" "cs \<noteq> []" and can: "map_canonical (view_unspent db cs)"
    and wf: "list_all tx_well_formed txs" "distinct (map (GetHash (ne_H env)) txs)" "txs \<noteq> []" and h: "0 < nHeight idx" "nHeight idx < 2 ^ 31"
    and CB: "0 \<le> nNonCB" "\<forall>j < length txs. int j > nNonCB \<longleftrightarrow> \<not> IsCoinBase (txs ! j)"
    and r: "connect_body env cp m db cs txs idx fx state = Ok (st, undo)"
  obtains v U' N' where "length (vtxundo undo) + 1 = length txs" "old_tree_root undo = view_best_anchor db cs"
    "changes_to db cs v ((view_abs db cs)\<lparr> st_unspent := U', st_nullifier := N' \<rparr>)"
    "con_view st = PushAnchor db v (con_tree st) (nHeight idx \<ge> zResetHeight (consensus cp))"
    "disconnects (\<lambda>cs. disconnect_txs (ne_H env) db cs (nHeight idx) nNonCB (vtxundo undo) 0 txs) db (view_abs db v) (view_abs db cs)"
proof -
  let ?z = "zResetHeight (consensus cp)"
  obtain cs1 where q1: "check_BIP30 (ne_H env) db cs state txs = Ok cs1" using r by (auto simp: connect_body_def outcome_simps)
  obtain root cs2 where q2: "GetBestAnchor db cs1 = (root, cs2)" by (cases "GetBestAnchor db cs1")
  obtain ta cs3 where q3: "GetAnchorAt db cs2 root (nHeight idx - 1 \<ge> ?z) = (ta, cs3)"
    by (cases "GetAnchorAt db cs2 root (nHeight idx - 1 \<ge> ?z)")
  obtain t where ta: "ta = Some t" "tree_root t = root"
    using r unfolding connect_body_def q1 rbind_simps q2 prod.case q3 by (auto split: option.splits if_splits)
  let ?st = "\<lparr> con_nFees = 0, con_nSigOps = 0, con_tree = t, con_vtxundo = [], con_checks = [], con_view = cs3 \<rparr>"
  obtain st1 t' where q4: "connect_txs env cp m db state (nHeight idx) (GetBlockScriptFlags (pow (consensus cp)) idx) fx 0 txs ?st = Ok st1"
    "st = st1\<lparr> con_tree := t', con_view := PushAnchor db (con_view st1) t' (nHeight idx \<ge> ?z) \<rparr>"
    "undo = \<lparr> vtxundo = con_vtxundo st1, old_tree_root = root \<rparr>"
    using r unfolding connect_body_def q1 rbind_simps q2 prod.case q3 ta option.case by (auto simp: outcome_simps simp del: if_split)
  note q = q1 q2 q3 [unfolded ta(1)] q4
  from check_BIP30_Ok [OF ok q(1)] have f1: "filled_view db cs cs1" and new: "list_all (\<lambda>tx. view_unspent db cs (GetHash (ne_H env) tx) = None) txs"
    by simp_all
  have f2: "filled_view db cs1 cs2" and root: "root = view_best_anchor db cs1"
    using GetBestAnchor_filled [OF filled_props(1) [OF f1]] q(2) by simp_all
  have f3: "filled_view db cs2 cs3"
    using GetAnchorAt_filled [OF filled_props(1) [OF f2], of root "nHeight idx - 1 \<ge> zResetHeight (consensus cp)"] q(3) by simp
  note f = filled_trans [OF filled_trans [OF f1 f2] f3]
  note p = filled_props [OF f]
  have ok3: "view_ok db (con_view ?st)" "con_view ?st \<noteq> []" "map_canonical (view_unspent db (con_view ?st))"
    "list_all (\<lambda>tx. view_unspent db (con_view ?st) (GetHash (ne_H env) tx) = None) txs"
    using p(1) p(2) [OF ok(2)] can new by (simp_all add: p(3))
  from connect_txs_disconnects [OF ok3(1-3) wf(1,2) ok3(4) h q(4) CB(1)] obtain us U' N' where
    i: "length us = length txs" "con_vtxundo st1 = tl us"
      "changes_to db cs3 (con_view st1) ((view_abs db cs3)\<lparr> st_unspent := U', st_nullifier := N' \<rparr>)"
      "\<forall>V. undo_slots V 0 us \<and> (\<forall>j < length txs. int (0 + j) > nNonCB \<longleftrightarrow> \<not> IsCoinBase (txs ! j)) \<longrightarrow>
       disconnects (\<lambda>cs. disconnect_txs (ne_H env) db cs (nHeight idx) nNonCB V 0 txs) db (view_abs db (con_view st1)) (view_abs db cs3)"
    by auto
  have "undo_slots (tl us) 0 us" by (auto simp: undo_slots_def nth_tl)
  with i(4) CB(2) have "disconnects (\<lambda>cs. disconnect_txs (ne_H env) db cs (nHeight idx) nNonCB (tl us) 0 txs) db
      (view_abs db (con_view st1)) (view_abs db cs3)" by simp
  moreover have "root = view_best_anchor db cs" using root arg_cong [OF filled_props(6) [OF f1], of st_best_anchor] by (simp add: view_abs_def)
  moreover have "length (tl us) + 1 = length txs" using i(1) wf(3) by (cases us) auto
  moreover have "changes_to db cs (con_view st1) ((view_abs db cs)\<lparr> st_unspent := U', st_nullifier := N' \<rparr>)"
    using i(3) by (simp add: changes_to_def p)
  ultimately show thesis using that [of "con_view st1"] q(5,6) i(2) by (simp add: p)
qed

lemma SetBestBlock_changes:
  assumes "view_ok db cs" "cs \<noteq> []" "h \<noteq> 0"
  shows "changes_to db cs (SetBestBlock h (hd cs) # tl cs) ((view_abs db cs)\<lparr> st_best_block := h \<rparr>)"
  using SetBestBlock_abs [of db "hd cs" "tl cs" h] assms by (cases cs) (simp_all add: changes_to_def)

lemma PopAnchor_back:
  assumes ok: "view_ok db cs" "cs \<noteq> []" and rt: "rt \<noteq> 0" "new \<noteq> 0" and best: "view_best_anchor db cs = new"
    and top: "new \<noteq> rt \<Longrightarrow> top_anchor cs new postBurn"
  obtains cs' where "PopAnchor db cs rt postBurn = Ok cs'"
    "changes_to db cs cs' (if new = rt then view_abs db cs
       else (view_abs db cs)\<lparr> st_anchor := (view_anchor db cs)(new := False), st_best_anchor := rt \<rparr>)"
proof -
  have "\<exists>cs'. PopAnchor db cs rt postBurn = Ok cs'"
  proof (cases "new = rt")
    case True
    then show ?thesis using GetBestAnchor_filled [OF ok(1)] best by (auto simp: PopAnchor_def split: prod.splits)
  next
    case False
    then show ?thesis using PopAnchor_top [OF ok(2) top rt(2)] by simp
  qed
  then obtain cs' where "PopAnchor db cs rt postBurn = Ok cs'" by blast
  with PopAnchor_abs [OF ok rt(1) this] best that show thesis by (auto simp: changes_to_def)
qed

lemma RaiseValidity_anchors:
  "RaiseValidity idx n = Ok (idx', b) \<Longrightarrow> hashAnchor idx' = hashAnchor idx \<and> hashAnchorEnd idx' = hashAnchorEnd idx"
  by (auto simp: RaiseValidity_def split: if_splits)

lemma connect_index_anchors:
  assumes "connect_index disk undo idx state = Ok idx'"
  shows "hashAnchorEnd idx' = hashAnchorEnd idx"
  using assms
  by (auto simp: connect_index_def Let_def outcome_simps call_Ok split: if_splits option.splits dest!: RaiseValidity_anchors)

text \<open>The parts of a successful call for a block after the first.\<close>

lemma ConnectBlock_parts:
  assumes r: "ConnectBlock env disk cp m db cs block state pindex False = Ok (cs', m', Some undo)" and m: "m pindex = Some idx"
    and pp: "pprev idx = Some prev"
  obtains fx js cs0 st where "CheckBlock env cp block state js True True = Ok ()" "GetBestBlock db cs = (prev, cs0)"
    "connect_body env cp m db cs0 (vtx block) idx fx state = Ok (st, undo)"
    "check_reward cp (nHeight idx) (vtx block) (con_nFees st) state = Ok ()"
    "control_Wait (ne_check env) (con_checks st) = Ok True"
    "cs' = SetBestBlock pindex (hd (con_view st)) # tl (con_view st)"
    "hashAnchorEnd (the (m' pindex)) = tree_root (con_tree st)"
proof -
  obtain fx where fx: "connect_fExpensiveChecks env cp m pindex idx = Ok fx"
    using r m by (auto simp: ConnectBlock_def outcome_simps simp del: if_split)
  let ?js = "if fx then ce_js_Verify (ne_check env) else (\<lambda>_ _. True)"
  have c: "CheckBlock env cp block state ?js True True = Ok ()"
    using r unfolding ConnectBlock_def m option.case fx rbind_simps by (auto simp: outcome_simps simp del: if_split)
  obtain best cs0 where b: "GetBestBlock db cs = (best, cs0)" by (cases "GetBestBlock db cs")
  note r1 = r [unfolded ConnectBlock_def m option.case fx rbind_simps c not_False_eq_True b pp Let_def prod.case]
  have best: "best = prev" using r1 by (auto split: if_splits)
  have ng: "header_GetHash (ne_H env) block \<noteq> hashGenesisBlock (consensus cp)" using r1 by (auto split: if_splits)
  note r2 = r1 [unfolded best simp_thms if_False, simplified ng if_False]
  obtain st where body: "connect_body env cp m db cs0 (vtx block) idx fx state = Ok (st, undo)"
    and rest: "check_reward cp (nHeight idx) (vtx block) (con_nFees st) state = Ok ()"
      "control_Wait (ne_check env) (con_checks st) = Ok True"
      "cs' = SetBestBlock pindex (hd (con_view st)) # tl (con_view st)"
      "\<exists>idx2. connect_index disk undo (idx\<lparr> hashAnchor := old_tree_root undo, hashAnchorEnd := tree_root (con_tree st) \<rparr>) state = Ok idx2 \<and>
         m' = m(pindex \<mapsto> idx2)"
    using r2 by (auto simp: outcome_simps call_Ok split: if_splits)
  have "hashAnchorEnd (the (m' pindex)) = tree_root (con_tree st)" using rest(4) connect_index_anchors by fastforce
  with that [OF c _ body rest(1,2,3)] b best show thesis by blast
qed

text \<open>Whether the view of a connected block can be led back: the new anchor is the old one, or was not known before.\<close>

definition anchor_fresh :: "CCoinsViewDB \<Rightarrow> CCoinsViewCache list \<Rightarrow> uint256 \<Rightarrow> bool" where
  "anchor_fresh db cs rt \<longleftrightarrow>
     rt = view_best_anchor db cs \<or> (rt \<noteq> 0 \<and> view_best_anchor db cs \<noteq> 0 \<and> \<not> view_anchor db cs rt)"

lemma PushAnchor_same:
  assumes "view_ok db cs" "cs \<noteq> []" "view_best_anchor db cs = tree_root t"
  shows "filled_view db cs (PushAnchor db cs t postBurn)"
proof -
  obtain h cs1 where g: "GetBestAnchor db cs = (h, cs1)" by (cases "GetBestAnchor db cs")
  have h: "h = view_best_anchor db cs" and f: "filled_view db cs cs1" using GetBestAnchor_filled [OF assms(1)] g by simp_all
  obtain c base where cs1: "cs1 = c # base" using f assms(2) by (cases cs1) (auto simp: filled_view_def)
  then show ?thesis using g h f assms(3) by (simp add: PushAnchor_def)
qed

lemma PopAnchor_same:
  assumes "view_ok db cs" "view_best_anchor db cs = rt"
  obtains cs' where "PopAnchor db cs rt postBurn = Ok cs'" "filled_view db cs cs'"
proof -
  obtain h cs1 where g: "GetBestAnchor db cs = (h, cs1)" by (cases "GetBestAnchor db cs")
  then show thesis using GetBestAnchor_filled [OF assms(1)] assms(2) that [of cs1] by (simp add: PopAnchor_def)
qed

text \<open>Pushing an anchor and popping it after changes to the coins and nullifiers.\<close>

lemma anchors_back:
  assumes ok: "view_ok db v" "v \<noteq> []" and fresh: "anchor_fresh db v (tree_root t)" and b: "hash \<noteq> 0"
    and cs': "cs' = SetBestBlock hash (hd (PushAnchor db v t postBurn)) # tl (PushAnchor db v t postBurn)"
  obtains A B where "changes_to db v cs' ((view_abs db v)\<lparr> st_anchor := A, st_best_anchor := B, st_best_block := hash \<rparr>)"
    "\<And>cs1 U N. changes_to db cs' cs1 ((view_abs db cs')\<lparr> st_unspent := U, st_nullifier := N \<rparr>) \<Longrightarrow> same_anchors cs' cs1 \<Longrightarrow>
       \<exists>cs2. PopAnchor db cs1 (view_best_anchor db v) postBurn = Ok cs2 \<and>
         changes_to db cs' cs2 ((view_abs db v)\<lparr> st_unspent := U, st_nullifier := N, st_best_block := hash \<rparr>)"
proof (cases "view_best_anchor db v = tree_root t")
  case True
  note f = PushAnchor_same [OF ok True, of postBurn]
  note p = filled_props [OF f]
  have ch: "changes_to db v cs' ((view_abs db v)\<lparr> st_best_block := hash \<rparr>)"
    using SetBestBlock_changes [OF p(1) p(2) [OF ok(2)] b] by (simp add: cs' changes_to_def p)
  have "\<exists>cs2. PopAnchor db cs1 (view_best_anchor db v) postBurn = Ok cs2 \<and>
         changes_to db cs' cs2 ((view_abs db v)\<lparr> st_unspent := U, st_nullifier := N, st_best_block := hash \<rparr>)"
    if c1: "changes_to db cs' cs1 ((view_abs db cs')\<lparr> st_unspent := U, st_nullifier := N \<rparr>)" for cs1 U N
  proof -
    have "view_best_anchor db cs1 = view_best_anchor db v"
      using arg_cong [of _ _ st_best_anchor, OF conjunct2 [OF conjunct2 [OF changes_toD [OF c1]]]] changes_toD [OF ch] by (simp add: view_abs_def)
    then obtain cs2 where "PopAnchor db cs1 (view_best_anchor db v) postBurn = Ok cs2" "filled_view db cs1 cs2"
      using PopAnchor_same changes_toD [OF c1] by metis
    then show ?thesis using c1 changes_toD [OF ch] filled_props [of db cs1 cs2] by (simp add: changes_to_def)
  qed
  moreover have "changes_to db v cs' ((view_abs db v)\<lparr> st_anchor := view_anchor db v, st_best_anchor := view_best_anchor db v, st_best_block := hash \<rparr>)"
    using ch by (simp add: view_abs_def)
  ultimately show ?thesis using that by blast
next
  case False
  let ?rt = "tree_root t"
  have nz: "?rt \<noteq> 0" "view_best_anchor db v \<noteq> 0" and unk: "\<not> view_anchor db v ?rt" using fresh False by (auto simp: anchor_fresh_def)
  note push = PushAnchor_abs [OF ok nz(1), of postBurn]
  let ?A = "(view_anchor db v)(?rt := True)"
  have pne: "PushAnchor db v t postBurn \<noteq> []" using push(2) ok(2) by auto
  have ch: "changes_to db v cs' ((view_abs db v)\<lparr> st_anchor := ?A, st_best_anchor := ?rt, st_best_block := hash \<rparr>)"
    using SetBestBlock_changes [OF push(1) pne b] False push by (simp add: cs' changes_to_def)
  have top: "top_anchor cs' ?rt postBurn"
    using PushAnchor_top [OF ok False, of postBurn] by (simp add: cs' top_anchor_def SetBestBlock_def)
  have "\<exists>cs2. PopAnchor db cs1 (view_best_anchor db v) postBurn = Ok cs2 \<and>
         changes_to db cs' cs2 ((view_abs db v)\<lparr> st_unspent := U, st_nullifier := N, st_best_block := hash \<rparr>)"
    if c1: "changes_to db cs' cs1 ((view_abs db cs')\<lparr> st_unspent := U, st_nullifier := N \<rparr>)" and sa: "same_anchors cs' cs1" for cs1 U N
  proof -
    have abs1: "view_abs db cs1 = (view_abs db v)\<lparr> st_unspent := U, st_nullifier := N, st_anchor := ?A, st_best_anchor := ?rt, st_best_block := hash \<rparr>"
      using changes_toD [OF c1] changes_toD [OF ch] by simp
    have ok1: "view_ok db cs1" "cs1 \<noteq> []" using changes_toD [OF c1] sa by (simp_all add: same_anchors_def)
    have best: "view_best_anchor db cs1 = ?rt" and an: "view_anchor db cs1 = ?A"
      using arg_cong [OF abs1, of st_best_anchor] arg_cong [OF abs1, of st_anchor] by (simp_all add: view_abs_def)
    obtain cs2 where pop: "PopAnchor db cs1 (view_best_anchor db v) postBurn = Ok cs2"
      "changes_to db cs1 cs2 ((view_abs db cs1)\<lparr> st_anchor := (view_anchor db cs1)(?rt := False), st_best_anchor := view_best_anchor db v \<rparr>)"
      by (rule PopAnchor_back [OF ok1 nz(2,1) best]) (use same_anchors_top [OF sa top] False in \<open>auto split: if_splits\<close>)
    have "?A(?rt := False) = view_anchor db v" using unk by (simp add: fun_eq_iff)
    then have "changes_to db cs' cs2 ((view_abs db v)\<lparr> st_unspent := U, st_nullifier := N, st_best_block := hash \<rparr>)"
      using changes_to_trans [OF c1 pop(2)] by (simp add: an abs1) (simp add: view_abs_def)
    then show ?thesis using pop(1) by blast
  qed
  then show ?thesis using that ch by blast
qed

end
