(* ===== verification/Spec2Isabelle.thy ===== *)
theory Spec2Isabelle
  imports Signature MerkleBlock Connect
begin

text \<open>
  This library models the consensus core of the Bitcoin Private node, the C++ program under \<^verbatim>\<open>src/src\<close>, as HOL functions and proves
  what makes it correct. Definitions carry the names of the code; a suffix or prefix is added where a name is overloaded or taken.

  \<^bold>\<open>The program.\<close> A node receives blocks. The header is checked for proof of work (an Equihash solution, a hash below the target,
  the required difficulty) and enters the block index. The transactions are checked without context, then against the set of
  unspent outputs, nullifiers and anchors: inputs exist, scripts and signatures are right, no value is created. A block that passes
  changes the view of that set and leaves undo data, with which it can be disconnected again. Views are caches over caches over a
  database.

  \<^bold>\<open>Conventions.\<close> (\<open>Prelude\<close>) Bytes are words of 8 bits, \<^verbatim>\<open>uint32_t\<close>, \<^verbatim>\<open>uint64_t\<close> and \<^verbatim>\<open>uint256\<close> words of that width, signed
  integers of the code are \<open>int\<close> with the range written out where an overflow is possible. The type \<open>outcome\<close> separates the four ways
  in which a call ends: \<open>Ok\<close>, \<open>Err\<close> (the function returns false, with the error or the validation state it sets), \<open>Throw\<close> (an exception)
  and \<open>Abort\<close> (a failed assertion, or what the language leaves undefined: signed overflow, an access outside a vector, a null
  pointer). \<open>rbind\<close> is sequencing. Objects that are changed in place are passed and returned. A pointer to a block index entry is
  the hash of the block, and the index a map from hashes to entries. Log lines, timings and counters are left out.

  \<^bold>\<open>Scripts.\<close> \<open>Script\<close> models \<^verbatim>\<open>script/script.h\<close> and \<^verbatim>\<open>script.cpp\<close>: opcodes, numbers, pushes, reading, classification and counting of
  signature operations. \<open>Interpreter\<close> models \<^verbatim>\<open>EvalScript\<close> of \<^verbatim>\<open>script/interpreter.cpp\<close>, one definition for each case of the switch over a
  record of stack, alternate stack, conditions and counters, and the loop by recursion on the script. \<open>Interpreter_Safety\<close> shows
  that the limits on stacks, elements and operations hold in every round, that every script is decided, and what the text of a
  successful script is like. \<open>Multisig\<close> characterises the loop of \<^verbatim>\<open>OP_CHECKMULTISIG\<close>. \<open>Script_Flags\<close> shows that a stricter flag only
  rejects more. \<open>VerifyScript\<close> models \<^verbatim>\<open>VerifyScript\<close> and \<^verbatim>\<open>VerifyWitnessProgram\<close>, and shows when outputs to a key hash and to a script
  hash are spent.

  \<^bold>\<open>Data.\<close> \<open>Serialize\<close> models the templates of \<^verbatim>\<open>serialize.h\<close>; the locale \<open>codec\<close> is the contract of a writer and a reader, interpreted for
  every type that is serialized. \<open>Transaction\<close> models \<^verbatim>\<open>primitives/transaction.h\<close>, \<^verbatim>\<open>amount.h\<close> and \<^verbatim>\<open>zcash/Proof.hpp\<close>: a byte string is read
  as a transaction exactly when it is its serialization, and the value of a transaction is exact. \<open>Signature\<close> models the signature
  hash and the signature checker: the serializer agrees with the reference of \<^verbatim>\<open>test/sighash_tests.cpp\<close>, a signature of type ALL commits to
  the whole transaction, and signatures are not replayed from other chains. \<open>Block\<close> and \<open>MerkleBlock\<close> model \<^verbatim>\<open>primitives/block.cpp\<close> and
  \<^verbatim>\<open>merkleblock.cpp\<close>: Merkle trees, branches and partial trees prove what they should, unless the hash collides.

  \<^bold>\<open>Hashes and numbers.\<close> \<open>Hashes\<close> models the hashers of \<^verbatim>\<open>crypto/\<close> and \<^verbatim>\<open>hash.cpp\<close> with their buffers; \<open>Hash_Correctness\<close> shows that they
  compute the standard functions however the input is cut (locale \<open>block_hash\<close>, interpreted for the four hashers). \<open>ArithUint256\<close>
  models \<^verbatim>\<open>arith_uint256.cpp\<close> limb by limb; \<open>Compact_Targets\<close> shows that it computes modulo two to the 256 and that the compact form is
  stable.

  \<^bold>\<open>The chain.\<close> \<open>Chain\<close> models \<^verbatim>\<open>chain.cpp\<close>: skip pointers lead to the ancestors of a block, and the active chain is what it should be after
  \<^verbatim>\<open>SetTip\<close>. \<open>Pow\<close> models \<^verbatim>\<open>pow.cpp\<close>: the check of a hash, the work of a block, and that the required difficulty is computed without failure on
  every block tree. \<open>Equihash\<close> models the verification of solutions in \<^verbatim>\<open>crypto/equihash.cpp\<close> for every supported pair of parameters.

  \<^bold>\<open>The state.\<close> \<open>Incremental_Tree\<close> models the tree of note commitments (\<^verbatim>\<open>zcash/IncrementalMerkleTree.cpp\<close>): its root is that of the complete
  padded tree, and witnesses stay valid. \<open>Coins\<close> models \<^verbatim>\<open>coins.cpp\<close> and the database view of \<^verbatim>\<open>txdb.cpp\<close>; \<open>Coins_Views\<close> gives the state a
  stack of caches stands for (\<open>view_abs\<close>) and its invariant (\<open>view_ok\<close>), and shows that reading changes nothing (locale \<open>transparent_read\<close>),
  that every operation keeps the invariant and that a flush keeps the state. \<open>Coins_Update\<close> models \<^verbatim>\<open>UpdateCoins\<close>, \<^verbatim>\<open>ApplyTxInUndo\<close> and
  \<^verbatim>\<open>DisconnectBlock\<close> of \<^verbatim>\<open>main.cpp\<close> with the records of \<^verbatim>\<open>undo.h\<close>, and shows that undoing a transaction inverts it.

  \<^bold>\<open>The checks.\<close> \<open>Tx_Check\<close> models \<^verbatim>\<open>CheckTransaction\<close>, \<^verbatim>\<open>CheckTxInputs\<close>, \<^verbatim>\<open>ContextualCheckInputs\<close>, \<^verbatim>\<open>GetBlockSubsidy\<close> and their helpers in
  \<^verbatim>\<open>main.cpp\<close> with the state of \<^verbatim>\<open>consensus/validation.h\<close>; \<open>Block_Check\<close> models \<^verbatim>\<open>CheckBlockHeader\<close>, \<^verbatim>\<open>CheckBlock\<close>, their contextual counterparts,
  \<^verbatim>\<open>AddToBlockIndex\<close> and \<^verbatim>\<open>AcceptBlockHeader\<close>; \<open>Connect\<close> models \<^verbatim>\<open>ConnectBlock\<close> and relates it to \<^verbatim>\<open>DisconnectBlock\<close>.

  \<^bold>\<open>Arguments.\<close> What is outside the program is an argument: the verification of ECDSA and Ed25519 signatures, of joinsplit proofs, the
  BLAKE2b function, the clock, and the disk. The hash functions are arguments of scripts, trees and blocks (the record \<open>crypto_env\<close>, or
  \<open>H\<close>); theorems that need it name a collision instead of excluding it.

  \<^bold>\<open>Loops and bounds.\<close> Loops are structural recursions, or have a termination proof. Two carry fuel: \<open>get_ancestor_loop\<close> and the walks over
  the chain stop at the height of the block, which bounds the steps and is shown to be enough; \<open>collapse_rows\<close> takes the number of
  rows, which every round halves.

  \<^bold>\<open>Not modelled.\<close> The network, message processing, the memory pool and its policy, the wallet, the RPC servers, start-up and mining do not
  decide which blocks are valid. The selection of the best chain (\<^verbatim>\<open>ActivateBestChain\<close>, \<^verbatim>\<open>ConnectTip\<close>, \<^verbatim>\<open>FlushStateToDisk\<close>), \<^verbatim>\<open>AcceptBlock\<close>
  with the comparison of fork blocks with files, and block files interleave locks, disk and signals. Proof verification rests on libsnark,
  elliptic curves on secp256k1, the database on LevelDB. The threads that run script checks are modelled by a list that is
  evaluated where the code waits for them.
\<close>

end
